(* ===== verification/BmkPrelude.thy ===== *)
theory BmkPrelude
  imports Main "HOL-Library.Word"
begin

text \<open>
  Shared vocabulary of the development: machine integers of the LP64 targets, the faults
  a routine of the unikernel can end in, the result type of every fallible routine, and
  the generic list, arithmetic and word lemmas the component theories use.
\<close>

unbundle bit_operations_syntax

section \<open>Machine integers\<close>

type_synonym u8 = "8 word"
type_synonym u16 = "16 word"
type_synonym u32 = "32 word"
type_synonym u64 = "64 word"

text \<open>\<open>bmk_time_t\<close> is a signed 64-bit count of nanoseconds; its values are read as integers.\<close>

type_synonym bmk_time = int

text \<open>
  Addresses, sizes and page numbers are \<open>unsigned long\<close>. They are naturals below \<open>2 ^ 64\<close>,
  with the wrap-around of addition and subtraction written out.
\<close>

definition wrap64 :: "nat \<Rightarrow> nat" where
  "wrap64 n = n mod 2 ^ 64"

definition sub64 :: "nat \<Rightarrow> nat \<Rightarrow> nat" where
  "sub64 a b = (a + (2 ^ 64 - b)) mod 2 ^ 64"

section \<open>Faults and results\<close>

text \<open>
  \<open>bmk_assert\<close> and \<open>bmk_platform_halt\<close> stop the machine. A read or write outside the
  object a pointer points into, a shift by the width of its operand and a null dereference
  are undefined in C. Each is a value of \<open>fault\<close>.
\<close>

datatype fault =
    Assert_failed
  | Halt string
  | Out_of_bounds
  | Null_deref
  | Bad_shift
  | Div_by_zero
  | Out_of_fuel
  | Int_overflow

type_synonym 'a res = "fault + 'a"

definition bindR :: "'a res \<Rightarrow> ('a \<Rightarrow> 'b res) \<Rightarrow> 'b res" where
  "bindR r f = (case r of Inl e \<Rightarrow> Inl e | Inr x \<Rightarrow> f x)"

definition guardR :: "bool \<Rightarrow> fault \<Rightarrow> 'a res \<Rightarrow> 'a res" where
  "guardR b e r = (if b then r else Inl e)"

definition is_ok :: "'a res \<Rightarrow> bool" where
  "is_ok r = (case r of Inl _ \<Rightarrow> False | Inr _ \<Rightarrow> True)"

lemma bindR_simps [simp]:
  "bindR (Inl e) f = Inl e"
  "bindR (Inr x) f = f x"
  by (simp_all add: bindR_def)

lemma bindR_eq_Inr: "bindR r f = Inr y \<longleftrightarrow> (\<exists>x. r = Inr x \<and> f x = Inr y)"
  by (cases r) auto

lemma bindR_InrE:
  assumes "bindR r f = Inr y"
  obtains x where "r = Inr x" and "f x = Inr y"
  using assms by (auto simp: bindR_eq_Inr)

lemma guardR_simps [simp]:
  "guardR True e r = r"
  "guardR False e r = Inl e"
  by (simp_all add: guardR_def)

lemma guardR_eq_Inr [simp]: "guardR b e r = Inr y \<longleftrightarrow> b \<and> r = Inr y"
  by (simp add: guardR_def)

lemma is_ok_simps [simp]: "is_ok (Inr x)" "\<not> is_ok (Inl e)"
  by (simp_all add: is_ok_def)

lemma is_ok_iff: "is_ok r \<longleftrightarrow> (\<exists>x. r = Inr x)"
  by (cases r) auto

text \<open>Signed 32-bit arithmetic: a result outside of \<open>int\<close> is undefined in C.\<close>

definition chk32 :: "int \<Rightarrow> int res" where
  "chk32 i = guardR (- (2 ^ 31) \<le> i \<and> i < 2 ^ 31) Int_overflow (Inr i)"

lemma chk32_ok [simp]: "- 2147483648 \<le> i \<Longrightarrow> i < 2147483648 \<Longrightarrow> chk32 i = Inr i"
  by (simp add: chk32_def)

lemma chk32_InrD: "chk32 i = Inr j \<Longrightarrow> j = i \<and> - (2 ^ 31) \<le> i \<and> i < 2 ^ 31"
  by (simp add: chk32_def)

text \<open>Signed 64-bit results, and the conversion from \<open>unsigned long long\<close>.\<close>

definition chk64 :: "int \<Rightarrow> int res" where
  "chk64 i = guardR (- (2 ^ 63) \<le> i \<and> i < 2 ^ 63) Int_overflow (Inr i)"

definition to_s64 :: "int \<Rightarrow> int" where
  "to_s64 i = (i + 2 ^ 63) mod 2 ^ 64 - 2 ^ 63"

text \<open>Recursion through the two combinators: the call is made only with the value and under the guard.\<close>

lemma bindR_cong [fundef_cong]:
  "r = r' \<Longrightarrow> (\<And>x. r' = Inr x \<Longrightarrow> f x = g x) \<Longrightarrow> bindR r f = bindR r' g"
  by (cases r') auto

lemma guardR_cong [fundef_cong]:
  "b = b' \<Longrightarrow> e = e' \<Longrightarrow> (b' \<Longrightarrow> r = r') \<Longrightarrow> guardR b e r = guardR b' e' r'"
  by (simp add: guardR_def)

section \<open>Byte memory\<close>

text \<open>
  Memory as the byte routines see it: a list of bytes, with pointers as indices. Reads and
  writes outside of it are faults.
\<close>

type_synonym mem = "u8 list"

text \<open>Character literals and string literals of the source, as bytes.\<close>

abbreviation byte :: "char \<Rightarrow> u8" where
  "byte c \<equiv> of_char c"

abbreviation bytes :: "string \<Rightarrow> u8 list" where
  "bytes s \<equiv> map of_char s"

definition rd :: "mem \<Rightarrow> nat \<Rightarrow> u8 res" where
  "rd M p = guardR (p < length M) Out_of_bounds (Inr (M ! p))"

definition wr :: "mem \<Rightarrow> nat \<Rightarrow> u8 \<Rightarrow> mem res" where
  "wr M p v = guardR (p < length M) Out_of_bounds (Inr (M[p := v]))"

lemma rd_ok [simp]: "p < length M \<Longrightarrow> rd M p = Inr (M ! p)"
  by (simp add: rd_def)

lemma rd_fault [simp]: "length M \<le> p \<Longrightarrow> rd M p = Inl Out_of_bounds"
  by (simp add: rd_def)

lemma wr_ok [simp]: "p < length M \<Longrightarrow> wr M p v = Inr (M[p := v])"
  by (simp add: wr_def)

lemma rd_InrD: "rd M p = Inr c \<Longrightarrow> p < length M \<and> c = M ! p"
  by (auto simp: rd_def)

lemma wr_InrD: "wr M p v = Inr M' \<Longrightarrow> p < length M \<and> M' = M[p := v]"
  by (auto simp: wr_def)

section \<open>Words\<close>

lemma unat_of_nat_u64 [simp]: "n < 2 ^ 64 \<Longrightarrow> unat (of_nat n :: u64) = n"
  by (simp add: unat_of_nat)

end
