(* ===== verification/ClockSubr.thy ===== *)
theory ClockSubr
  imports BmkPrelude
begin

text \<open>
  Calendar arithmetic of the hw platform, \<open>platform/hw/clock_subr.c\<close>: conversion of a
  broken-down date to seconds since 1970, and the BCD decoder of
  \<open>platform/hw/include/hw/clock_subr.h\<close>. Days and seconds are computed in \<open>uint64_t\<close>, a
  64-bit word; the year is never larger than its own 64 bits and is only compared,
  divided and reduced, so it is a natural number.
\<close>

section \<open>The code\<close>

record bmk_clock_ymdhms =
  dt_year :: nat
  dt_mon :: nat
  dt_day :: nat
  dt_hour :: nat
  dt_min :: nat
  dt_sec :: nat

definition days_in_month :: "nat \<Rightarrow> int" where
  "days_in_month m =
     (if m = 2 then 28
      else if m = 4 \<or> m = 6 \<or> m = 9 \<or> m = 11 then 30
      else if m = 1 \<or> m = 3 \<or> m = 5 \<or> m = 7 \<or> m = 8 \<or> m = 10 \<or> m = 12 then 31
      else -1)"

definition is_leap_year :: "nat \<Rightarrow> bool" where
  "is_leap_year year =
     (if year AND 3 \<noteq> 0 then False
      else if year mod 100 \<noteq> 0 then True
      else year mod 400 = 0)"

definition days_per_year :: "nat \<Rightarrow> nat" where
  "days_per_year year = (if is_leap_year year then 366 else 365)"

text \<open>The two \<open>for\<close> loops: over years, and over the months before the given one.\<close>

definition add_years :: "nat \<Rightarrow> nat \<Rightarrow> u64 \<Rightarrow> u64" where
  "add_years i year days = fold (\<lambda>y d. d + of_nat (days_per_year y)) [i..<year] days"

definition add_months :: "nat \<Rightarrow> u64 \<Rightarrow> u64" where
  "add_months mon days = fold (\<lambda>m d. d + of_int (days_in_month m)) [1..<mon] days"

definition clock_ymdhms_to_secs :: "bmk_clock_ymdhms \<Rightarrow> u64" where
  "clock_ymdhms_to_secs dt =
     (let year = dt_year dt in
      if year < 1970 then 0
      else
        let days = (if is_leap_year year \<and> dt_mon dt > 2 then 1 else 0);
            days =
              (if year < 2000 then add_years 1970 year days
               else
                 let days = days + of_nat (365 * 30 + 7);
                     y = year - 2000;
                     i = y div 400;
                     days = days + of_nat i * of_nat (365 * 400 + 97);
                     y = y - i * 400;
                     i = y div 100;
                     days = days + of_nat i * of_nat (365 * 100 + 24);
                     y = y - i * 100;
                     i = y div 4;
                     days = days + of_nat i * of_nat (365 * 4 + 1);
                     y = y - i * 4
                 in add_years (dt_year dt - y) (dt_year dt) days);
            days = add_months (dt_mon dt) days;
            days = days + (of_nat (dt_day dt) - 1)
        in ((days * 24 + of_nat (dt_hour dt)) * 60 + of_nat (dt_min dt)) * 60
             + of_nat (dt_sec dt))"

definition bcdtobin :: "u32 \<Rightarrow> u32" where
  "bcdtobin bcd = (drop_bit 4 bcd AND 0x0f) * 10 + (bcd AND 0x0f)"


section \<open>The proleptic Gregorian calendar\<close>

definition gregorian_leap :: "nat \<Rightarrow> bool" where
  "gregorian_leap y = (4 dvd y \<and> (\<not> 100 dvd y \<or> 400 dvd y))"

definition year_days :: "nat \<Rightarrow> nat" where
  "year_days y = (if gregorian_leap y then 366 else 365)"

definition month_days :: "nat \<Rightarrow> nat \<Rightarrow> nat" where
  "month_days y m =
     (if m = 2 then (if gregorian_leap y then 29 else 28)
      else if m \<in> {4, 6, 9, 11} then 30 else 31)"

definition epoch_days :: "nat \<Rightarrow> nat \<Rightarrow> nat \<Rightarrow> nat" where
  "epoch_days y m d =
     (\<Sum>i\<leftarrow>[1970..<y]. year_days i) + (\<Sum>i\<leftarrow>[1..<m]. month_days y i) + (d - 1)"

definition epoch_secs :: "bmk_clock_ymdhms \<Rightarrow> nat" where
  "epoch_secs dt =
     ((epoch_days (dt_year dt) (dt_mon dt) (dt_day dt) * 24 + dt_hour dt) * 60
        + dt_min dt) * 60 + dt_sec dt"

text \<open>A date whose fields are in the range a calendar allows.\<close>

definition valid_ymdhms :: "bmk_clock_ymdhms \<Rightarrow> bool" where
  "valid_ymdhms dt \<longleftrightarrow>
     1970 \<le> dt_year dt \<and> dt_year dt < 2 ^ 32 \<and>
     1 \<le> dt_mon dt \<and> dt_mon dt \<le> 12 \<and> 1 \<le> dt_day dt \<and> dt_day dt \<le> 31 \<and>
     dt_hour dt < 24 \<and> dt_min dt < 60 \<and> dt_sec dt < 62"

text \<open>
  The four years after a century that does not start a 400-year cycle: 2100 to 2103, 2200
  to 2203, 2300 to 2303, 2500 to 2503 and so on.
\<close>

definition century_gap :: "nat \<Rightarrow> bool" where
  "century_gap y \<longleftrightarrow> 2000 \<le> y \<and> y mod 100 < 4 \<and> 100 \<le> y mod 400"

section \<open>Leap years\<close>

lemma and_3_mod: "(y::nat) AND 3 = y mod 4"
  using take_bit_eq_mask [of 2 y] by (simp add: take_bit_eq_mod mask_eq_exp_minus_1)

lemma dvd_400_100: "(400::nat) dvd n \<Longrightarrow> 100 dvd n"
  by (rule dvd_trans [of _ 400]) simp_all

lemma dvd_100_4: "(100::nat) dvd n \<Longrightarrow> 4 dvd n"
  by (rule dvd_trans [of _ 100]) simp_all

lemma is_leap_year_gregorian: "is_leap_year y = gregorian_leap y"
  using dvd_400_100 [of y] dvd_100_4 [of y]
  unfolding is_leap_year_def gregorian_leap_def and_3_mod dvd_eq_mod_eq_0 by argo

lemma days_per_year_year_days [simp]: "days_per_year y = year_days y"
  by (simp add: days_per_year_def year_days_def is_leap_year_gregorian)

lemma add_years_eq: "add_years i y d = d + of_nat (\<Sum>k\<leftarrow>[i..<y]. year_days k)"
proof -
  have "fold (\<lambda>y d. d + of_nat (days_per_year y)) ys d = d + of_nat (\<Sum>k\<leftarrow>ys. year_days k)"
    for ys and d :: u64
    by (induction ys arbitrary: d) (auto simp: algebra_simps)
  then show ?thesis by (simp add: add_years_def)
qed

section \<open>Years\<close>

lemma year_days_2000:
  "year_days (2000 + n) =
     365 + (if 4 dvd n \<and> (\<not> 100 dvd n \<or> 400 dvd n) then 1 else 0)"
proof -
  have "4 dvd 2000 + n \<longleftrightarrow> 4 dvd n" "100 dvd 2000 + n \<longleftrightarrow> 100 dvd n"
    "400 dvd 2000 + n \<longleftrightarrow> 400 dvd n"
    by (rule dvd_add_right_iff; simp)+
  then show ?thesis by (simp add: year_days_def gregorian_leap_def)
qed

lemma days_to_2000: "(\<Sum>i\<leftarrow>[1970..<2000]. year_days i) = 365 * 30 + 7"
  by (simp add: upt_conv_Cons year_days_def gregorian_leap_def)

text \<open>
  The number of leap years is counted by three quotients. They are kept opaque, as
  \<open>leaps k n\<close>, so that arithmetic does not case-split on them.
\<close>

definition leaps :: "nat \<Rightarrow> nat \<Rightarrow> nat" where
  "leaps k n = (n + (k - 1)) div k"

lemma leaps_Suc: "0 < k \<Longrightarrow> leaps k (Suc n) = leaps k n + (if k dvd n then 1 else 0)"
  using div_Suc [of "n + (k - 1)" k] by (simp add: leaps_def dvd_eq_mod_eq_0)

lemma leaps_0: "0 < k \<Longrightarrow> leaps k 0 = 0"
  by (simp add: leaps_def)

lemma leap_balance:
  fixes x y z :: nat
  assumes "R \<longrightarrow> Q" and "Q \<longrightarrow> P"
  shows "x + (if P then 1 else 0) + (y + (if R then 1 else 0)) + 365 + z =
    x + y + (z + (if Q then 1 else 0)) + (365 + (if P \<and> (\<not> Q \<or> R) then 1 else 0))"
  using assms by (cases P; cases Q; cases R) simp_all

lemma years_from_2000:
  "(\<Sum>i\<leftarrow>[2000..<2000 + n]. year_days i) + leaps 100 n = 365 * n + leaps 4 n + leaps 400 n"
proof (induction n)
  case 0
  show ?case by (simp add: leaps_0)
next
  case (Suc n)
  have "[2000..<2000 + Suc n] = [2000..<2000 + n] @ [2000 + n]"
    using upt_Suc_append [of 2000 "2000 + n"] by (simp only: add_Suc_right le_add1)
  then have "(\<Sum>i\<leftarrow>[2000..<2000 + Suc n]. year_days i) =
      (\<Sum>i\<leftarrow>[2000..<2000 + n]. year_days i) + year_days (2000 + n)"
    by (simp only: map_append sum_list_append) simp
  moreover have "leaps 4 (Suc n) + leaps 400 (Suc n) + 365 + leaps 100 n =
      leaps 4 n + leaps 400 n + leaps 100 (Suc n) + year_days (2000 + n)"
    unfolding year_days_2000 leaps_Suc [OF zero_less_numeral]
    by (rule leap_balance) (rule impI, erule dvd_400_100, rule impI, erule dvd_100_4)
  ultimately show ?case
    using Suc.IH unfolding mult_Suc_right by linarith
qed

lemma years_split:
  assumes "2000 \<le> y"
  shows "(\<Sum>i\<leftarrow>[1970..<y]. year_days i) =
    365 * 30 + 7 + (\<Sum>i\<leftarrow>[2000..<y]. year_days i)"
proof -
  have "[1970..<y] = [1970..<2000] @ [2000..<y]"
    using assms upt_add_eq_append [of 1970 2000 "y - 2000"] by (simp del: upt_rec_numeral)
  then show ?thesis by (simp only: map_append sum_list_append days_to_2000)
qed

text \<open>
  The decomposition of the code: \<open>n = 400 a + 100 b + 4 c + d\<close>. The last loop adds the at
  most three years of the incomplete four-year block.
\<close>

lemma leaps_split: "r < k \<Longrightarrow> leaps k (k * q + r) = q + (if 0 < r then 1 else 0)"
proof -
  assume r: "r < k"
  have "leaps k (k * q + r) = (k * q + (r + (k - 1))) div k"
    by (simp add: leaps_def add.assoc)
  also have "\<dots> = q + (r + (k - 1)) div k"
    using r div_mult_self2 [of k "r + (k - 1)" q] by (simp only: add.commute)
  also have "(r + (k - 1)) div k = (if 0 < r then 1 else 0)"
    using r by (auto intro!: div_nat_eqI)
  finally show ?thesis .
qed

lemma dvd_split: "r < k \<Longrightarrow> k dvd k * q + r \<longleftrightarrow> r = (0::nat)"
  by (cases "r = 0") (auto simp: dvd_add_right_iff nat_dvd_not_less)

lemma block_year_days:
  assumes "j < 4" and "c < 25" and "b < 4"
  shows "year_days (2000 + (400 * a + 100 * b + 4 * c + j)) =
    365 + (if j = 0 \<and> (c \<noteq> 0 \<or> b = 0) then 1 else 0)"
proof -
  have 4: "4 dvd 400 * a + 100 * b + 4 * c + j \<longleftrightarrow> j = 0"
    using assms dvd_split [of j 4 "100 * a + 25 * b + c"] by (simp add: algebra_simps)
  have 100: "100 dvd 400 * a + 100 * b + 4 * c + j \<longleftrightarrow> 4 * c + j = 0"
    using assms dvd_split [of "4 * c + j" 100 "4 * a + b"] by (simp add: algebra_simps)
  have 400: "400 dvd 400 * a + 100 * b + 4 * c + j \<longleftrightarrow> 100 * b + 4 * c + j = 0"
    using assms dvd_split [of "100 * b + 4 * c + j" 400 a] by (simp add: algebra_simps)
  show ?thesis
    unfolding year_days_2000 4 100 400 using assms by auto
qed

lemma tail_years:
  assumes "d < 4" and "c < 25" and "b < 4"
  shows "(\<Sum>i\<leftarrow>[2000 + (400 * a + 100 * b + 4 * c)..<2000 + (400 * a + 100 * b + 4 * c) + d].
      year_days i) = 365 * d + (if 0 < d \<and> (c \<noteq> 0 \<or> b = 0) then 1 else 0)"
  using assms(1)
proof (induction d)
  case 0
  show ?case by simp
next
  case (Suc d)
  let ?m = "2000 + (400 * a + 100 * b + 4 * c)"
  have "[?m..<?m + Suc d] = [?m..<?m + d] @ [?m + d]"
    using upt_Suc_append [of ?m "?m + d"] by (simp only: add_Suc_right le_add1)
  then have "(\<Sum>i\<leftarrow>[?m..<?m + Suc d]. year_days i) =
      (\<Sum>i\<leftarrow>[?m..<?m + d]. year_days i) + year_days (?m + d)"
    by (simp only: map_append sum_list_append) simp
  moreover have "year_days (?m + d) = 365 + (if d = 0 \<and> (c \<noteq> 0 \<or> b = 0) then 1 else 0)"
    using block_year_days [of d c b a] Suc.prems assms by (simp add: add.assoc)
  ultimately show ?case
    using Suc.IH Suc.prems by (auto simp del: upt_Suc)
qed

lemma block_years:
  fixes a b c d :: nat
  assumes "d < 4" and "c < 25" and "b < 4"
  defines "n \<equiv> \<lambda>a. 400 * a + 100 * b + 4 * c + d"
  shows "(\<Sum>i\<leftarrow>[2000..<2000 + n a]. year_days i) =
    365 * n a + 97 * a + 24 * b + c + (if 0 < d \<and> (c \<noteq> 0 \<or> b = 0) then 1 else 0)
      + (if b \<noteq> 0 \<and> c = 0 then 1 else 0)"
proof -
  have 4: "leaps 4 (n a) = 100 * a + 25 * b + c + (if 0 < d then 1 else 0)"
    using assms leaps_split [of d 4 "100 * a + 25 * b + c"] by (simp add: algebra_simps)
  have 100: "leaps 100 (n a) = 4 * a + b + (if 0 < 4 * c + d then 1 else 0)"
    using assms leaps_split [of "4 * c + d" 100 "4 * a + b"] by (simp add: algebra_simps)
  have 400: "leaps 400 (n a) = a + (if 0 < 100 * b + 4 * c + d then 1 else 0)"
    using assms leaps_split [of "100 * b + 4 * c + d" 400 a] by (simp add: algebra_simps)
  show ?thesis
    using years_from_2000 [of "n a"] unfolding 4 100 400 by (auto split: if_splits)
qed

section \<open>Months\<close>

definition months_before :: "nat \<Rightarrow> nat" where
  "months_before mon = nat (\<Sum>m\<leftarrow>[1..<mon]. days_in_month m)"

lemma mon_cases:
  assumes "1 \<le> mon" and "mon \<le> (12::nat)"
  obtains "mon = 1" | "mon = 2" | "mon = 3" | "mon = 4" | "mon = 5" | "mon = 6"
    | "mon = 7" | "mon = 8" | "mon = 9" | "mon = 10" | "mon = 11" | "mon = 12"
proof -
  have "mon = 1 \<or> mon = 2 \<or> mon = 3 \<or> mon = 4 \<or> mon = 5 \<or> mon = 6
      \<or> mon = 7 \<or> mon = 8 \<or> mon = 9 \<or> mon = 10 \<or> mon = 11 \<or> mon = 12"
    using assms by arith
  with that show thesis by blast
qed

lemma months_before_sum:
  assumes "1 \<le> mon" and "mon \<le> 12"
  shows "int (months_before mon) = (\<Sum>m\<leftarrow>[1..<mon]. days_in_month m)"
  using assms by (rule mon_cases) (simp_all add: months_before_def days_in_month_def upt_rec)

lemma add_months_eq:
  assumes "1 \<le> mon" and "mon \<le> 12"
  shows "add_months mon d = d + of_nat (months_before mon)"
proof -
  have "fold (\<lambda>m d. d + of_int (days_in_month m)) ms d =
      d + of_int (\<Sum>m\<leftarrow>ms. days_in_month m)" for ms and d :: u64
    by (induction ms arbitrary: d) (auto simp: algebra_simps)
  then show ?thesis
    by (simp add: add_months_def months_before_sum [OF assms, symmetric] del: One_nat_def)
qed

lemma months_before_month_days:
  assumes "1 \<le> mon" and "mon \<le> 12"
  shows "(\<Sum>i\<leftarrow>[1..<mon]. month_days y i) =
    (if gregorian_leap y \<and> 2 < mon then 1 else 0) + months_before mon"
  using assms
  by (rule mon_cases) (simp_all add: months_before_def days_in_month_def month_days_def upt_rec)

section \<open>Correctness\<close>

text \<open>The days the code computes, as a natural number.\<close>

definition code_days :: "bmk_clock_ymdhms \<Rightarrow> nat" where
  "code_days dt =
     epoch_days (dt_year dt) (dt_mon dt) (dt_day dt) - (if century_gap (dt_year dt) then 1 else 0)"

lemma year_blocks:
  obtains a b c d where "n = 400 * a + 100 * b + 4 * c + d"
    "d < 4" "c < 25" "b < (4::nat)" "n div 400 = a" "n mod 400 = 100 * b + 4 * c + d"
    "n mod 100 = 4 * c + d"
proof
  let ?a = "n div 400" and ?r = "n mod 400"
  let ?b = "?r div 100" and ?s = "?r mod 100"
  let ?c = "?s div 4" and ?d = "?s mod 4"
  show "?d < 4" by simp
  show "?c < 25" by (simp add: less_mult_imp_div_less)
  show "?b < 4" by (simp add: less_mult_imp_div_less)
  have r: "?r = 100 * ?b + ?s" by simp
  have s: "?s = 4 * ?c + ?d" by simp
  show "?r = 100 * ?b + 4 * ?c + ?d" using r s by linarith
  then show "n = 400 * ?a + 100 * ?b + 4 * ?c + ?d"
    using div_mult_mod_eq [of n 400] by linarith
  have "n mod 100 = ?s" by (simp add: mod_mod_cancel)
  then show "n mod 100 = 4 * ?c + ?d" using s by linarith
qed simp

lemma code_year_days:
  assumes "2000 \<le> y"
  defines "n \<equiv> y - 2000"
  shows "365 * 30 + 7 + n div 400 * (365 * 400 + 97) + n mod 400 div 100 * (365 * 100 + 24)
      + n mod 100 div 4 * (365 * 4 + 1) + (\<Sum>i\<leftarrow>[y - n mod 4..<y]. year_days i)
      + (if century_gap y then 1 else 0) = (\<Sum>i\<leftarrow>[1970..<y]. year_days i)"
proof -
  obtain a b c d where n: "n = 400 * a + 100 * b + 4 * c + d"
    and lt: "d < 4" "c < 25" "b < 4" and q: "n div 400 = a" "n mod 400 = 100 * b + 4 * c + d"
    "n mod 100 = 4 * c + d"
    by (rule year_blocks [of n])
  have y: "y = 2000 + n" using assms by simp
  have m4: "n mod 4 = d"
    using mod_mult_self2 [of d 4 "100 * a + 25 * b + c"] lt(1) by (simp add: n add.commute [of _ d])
  have "y mod 100 = n mod 100" "y mod 400 = n mod 400"
    using mod_mult_self1 [of n 20 100] mod_mult_self1 [of n 5 400]
    by (simp_all only: y add.commute) simp_all
  then have gap: "century_gap y \<longleftrightarrow> b \<noteq> 0 \<and> c = 0"
    unfolding century_gap_def q using lt assms(1) by auto
  have tail: "(\<Sum>i\<leftarrow>[y - n mod 4..<y]. year_days i) =
      365 * d + (if 0 < d \<and> (c \<noteq> 0 \<or> b = 0) then 1 else 0)"
  proof -
    have "y - n mod 4 = 2000 + (400 * a + 100 * b + 4 * c)"
      and "y = 2000 + (400 * a + 100 * b + 4 * c) + d"
      using y n m4 by simp_all
    then show ?thesis using tail_years [OF lt] by simp
  qed
  have "n mod 400 div 100 = b" "n mod 100 div 4 = c"
    using lt by (auto simp: q intro!: div_nat_eqI)
  then show ?thesis
    using years_split [OF assms(1)] block_years [OF lt, of a]
    unfolding y tail [unfolded y] gap [unfolded y] q n [symmetric] by simp (simp add: n)
qed

lemma epoch_days_pos: "century_gap y \<Longrightarrow> 1 \<le> epoch_days y m d"
proof -
  assume "century_gap y"
  then have "2000 \<le> y" by (simp add: century_gap_def)
  then show ?thesis using years_split [of y] by (simp add: epoch_days_def)
qed

lemma year_days_le: "year_days y \<le> 366"
  by (simp add: year_days_def)

lemma epoch_days_bound:
  assumes "valid_ymdhms dt"
  shows "epoch_days (dt_year dt) (dt_mon dt) (dt_day dt) \<le> 366 * dt_year dt + 366 + 31"
proof -
  have "(\<Sum>i\<leftarrow>[1970..<dt_year dt]. year_days i) \<le> (\<Sum>i\<leftarrow>[1970..<dt_year dt]. 366)"
    by (rule sum_list_mono) (rule year_days_le)
  then have "(\<Sum>i\<leftarrow>[1970..<dt_year dt]. year_days i) \<le> 366 * dt_year dt"
    by (simp add: sum_list_triv)
  moreover have "1 \<le> dt_mon dt" "dt_mon dt \<le> 12"
    using assms by (simp_all add: valid_ymdhms_def)
  then have "months_before (dt_mon dt) \<le> 365"
    by (rule mon_cases) (simp_all add: months_before_def days_in_month_def upt_rec)
  moreover have "(\<Sum>i\<leftarrow>[1..<dt_mon dt]. month_days (dt_year dt) i) \<le> 1 + months_before (dt_mon dt)"
    using months_before_month_days [OF \<open>1 \<le> dt_mon dt\<close> \<open>dt_mon dt \<le> 12\<close>, of "dt_year dt"]
    by simp
  moreover have "dt_day dt \<le> 31"
    using assms by (simp add: valid_ymdhms_def)
  ultimately show ?thesis unfolding epoch_days_def by linarith
qed

lemma year_remainders:
  fixes n :: nat
  shows "n - n div 400 * 400 = n mod 400"
    and "n mod 400 - n mod 400 div 100 * 100 = n mod 100"
    and "n mod 100 - n mod 100 div 4 * 4 = n mod 4"
  by (simp_all add: minus_div_mult_eq_mod mod_mod_cancel)

lemma clock_days:
  assumes "valid_ymdhms dt"
  shows "clock_ymdhms_to_secs dt =
    of_nat (((code_days dt * 24 + dt_hour dt) * 60 + dt_min dt) * 60 + dt_sec dt)"
proof -
  let ?y = "dt_year dt" and ?l = "if gregorian_leap (dt_year dt) \<and> 2 < dt_mon dt then 1 else 0"
  have v: "1970 \<le> ?y" "1 \<le> dt_mon dt" "dt_mon dt \<le> 12" "1 \<le> dt_day dt"
    using assms by (simp_all add: valid_ymdhms_def)
  define Y where "Y = (\<Sum>i\<leftarrow>[1970..<?y]. year_days i) - (if century_gap ?y then 1 else 0)"
  have gap: "century_gap ?y \<Longrightarrow> 1 \<le> (\<Sum>i\<leftarrow>[1970..<?y]. year_days i)"
    using years_split [of ?y] by (simp add: century_gap_def)
  have code: "code_days dt = ?l + Y + months_before (dt_mon dt) + (dt_day dt - 1)"
    unfolding code_days_def epoch_days_def Y_def months_before_month_days [OF v(2,3)]
    using gap by auto
  have early: "add_years 1970 ?y (of_nat ?l) = of_nat (?l + Y)" if "?y < 2000"
    using that by (simp add: add_years_eq Y_def century_gap_def)
  have late: "add_years (?y - (?y - 2000) mod 4) ?y (of_nat ?l + of_nat (365 * 30 + 7)
      + of_nat ((?y - 2000) div 400) * of_nat (365 * 400 + 97)
      + of_nat ((?y - 2000) mod 400 div 100) * of_nat (365 * 100 + 24)
      + of_nat ((?y - 2000) mod 100 div 4) * of_nat (365 * 4 + 1)) = of_nat (?l + Y)"
    if "2000 \<le> ?y"
    unfolding add_years_eq of_nat_add [symmetric] of_nat_mult [symmetric]
    by (rule arg_cong [where f = of_nat]) (simp add: Y_def code_year_days [OF that, symmetric])
  have day: "of_nat (dt_day dt) - (1::u64) = of_nat (dt_day dt - 1)"
    using v by (simp add: of_nat_diff)
  have l: "(if is_leap_year ?y \<and> 2 < dt_mon dt then 1 else 0) = (of_nat ?l :: u64)"
    by (simp add: is_leap_year_gregorian)
  show ?thesis
    unfolding clock_ymdhms_to_secs_def Let_def l year_remainders add_months_eq [OF v(2,3)] day
    using v(1) early late by (simp add: code)
qed

lemma code_secs_bound:
  assumes "valid_ymdhms dt"
  shows "((code_days dt * 24 + dt_hour dt) * 60 + dt_min dt) * 60 + dt_sec dt < 2 ^ 64"
proof -
  have "code_days dt \<le> 366 * dt_year dt + 397"
    using epoch_days_bound [OF assms] by (simp add: code_days_def)
  moreover have "dt_year dt < 2 ^ 32" "dt_hour dt < 24" "dt_min dt < 60" "dt_sec dt < 62"
    using assms by (simp_all add: valid_ymdhms_def)
  ultimately show ?thesis by simp
qed

text \<open>
  C29. For every calendar date from 1970 up to the year \<open>2 ^ 32\<close>, \<open>clock_ymdhms_to_secs\<close>
  returns the seconds since the epoch in the proleptic Gregorian calendar, without
  wrap-around, except in the four years that follow a century not divisible by 400 (2100 to
  2103, 2200 to 2203, ...), where the result is exactly one day short: the interval from
  2000 to 2100 has 25 leap years, and the code counts 24.
\<close>

theorem clock_ymdhms_to_secs_correct:
  assumes "valid_ymdhms dt"
  shows "unat (clock_ymdhms_to_secs dt) + (if century_gap (dt_year dt) then 86400 else 0) =
    epoch_secs dt"
proof -
  let ?s = "((code_days dt * 24 + dt_hour dt) * 60 + dt_min dt) * 60 + dt_sec dt"
  have "unat (clock_ymdhms_to_secs dt) = ?s"
    unfolding clock_days [OF assms]
    by (rule unat_of_nat_u64 [OF code_secs_bound [OF assms]])
  moreover have "code_days dt + (if century_gap (dt_year dt) then 1 else 0) =
      epoch_days (dt_year dt) (dt_mon dt) (dt_day dt)"
    using epoch_days_pos by (simp add: code_days_def)
  ultimately show ?thesis
    by (auto simp: epoch_secs_def split: if_splits)
qed

text \<open>1 March 2016 12:30:15, and the same moment of 2100, where the code loses a day.\<close>

theorem clock_ymdhms_to_secs_correct_witness:
  "unat (clock_ymdhms_to_secs
     \<lparr>dt_year = 2016, dt_mon = 3, dt_day = 1, dt_hour = 12, dt_min = 30, dt_sec = 15\<rparr>) = 1456835415
   \<and> unat (clock_ymdhms_to_secs
     \<lparr>dt_year = 2100, dt_mon = 3, dt_day = 1, dt_hour = 12, dt_min = 30, dt_sec = 15\<rparr>) + 86400 =
     4107587415"
proof -
  let ?a = "\<lparr>dt_year = 2016, dt_mon = 3, dt_day = 1, dt_hour = 12, dt_min = 30, dt_sec = 15\<rparr>"
  let ?b = "\<lparr>dt_year = 2100, dt_mon = 3, dt_day = 1, dt_hour = 12, dt_min = 30, dt_sec = 15\<rparr>"
  have "valid_ymdhms ?a" "valid_ymdhms ?b" by (simp_all add: valid_ymdhms_def)
  moreover have "\<not> century_gap 2016" "century_gap 2100" by (simp_all add: century_gap_def)
  moreover have mon: "months_before 3 = 59"
    by (simp add: months_before_def days_in_month_def upt_rec)
  have "(\<Sum>i\<leftarrow>[1970..<2016]. year_days i) = 16801" "(\<Sum>i\<leftarrow>[1970..<2100]. year_days i) = 47482"
    using years_split [of 2016] years_from_2000 [of 16] years_split [of 2100] years_from_2000 [of 100]
    by (simp_all add: leaps_def del: upt_rec_numeral)
  then have "epoch_secs ?a = 1456835415" "epoch_secs ?b = 4107587415"
    using months_before_month_days [of 3 2016] months_before_month_days [of 3 2100]
    by (simp_all add: epoch_secs_def epoch_days_def mon gregorian_leap_def del: upt_rec_numeral)
  ultimately show ?thesis
    using clock_ymdhms_to_secs_correct [of ?a] clock_ymdhms_to_secs_correct [of ?b] by simp
qed

text \<open>Two decimal digits packed in a byte are decoded to their value.\<close>

lemma bcdtobin_digits:
  assumes "a < 10" and "b < 10"
  shows "bcdtobin (of_nat (16 * a + b)) = of_nat (10 * a + b)"
proof -
  have "list_all (\<lambda>a. list_all (\<lambda>b. bcdtobin (of_nat (16 * a + b)) = of_nat (10 * a + b))
      [0..<10]) [0..<10]"
    by code_simp
  with assms show ?thesis by (auto simp: list_all_iff)
qed

end
