(* ===== verification/BmkString.thy ===== *)
theory BmkString
  imports BmkPrelude "HOL-Library.Sublist"
begin

text \<open>
  The string and memory routines of \<open>lib/libbmk_core/bmk_string.c\<close> on byte memory. Plain
  \<open>char\<close> is signed on the x86 targets, so differences of characters are differences of
  signed bytes unless the code casts.
\<close>

section \<open>The routines\<close>

function strlen_loop :: "mem \<Rightarrow> nat \<Rightarrow> nat \<Rightarrow> nat res" where
  "strlen_loop M str rv = bindR (rd M str) (\<lambda>c. if c \<noteq> 0 then strlen_loop M (Suc str) (Suc rv) else Inr rv)"
  by pat_completeness auto
termination
  by (relation "measure (\<lambda>(M, str, rv). length M - str)") (auto dest: rd_InrD)

definition bmk_strlen :: "mem \<Rightarrow> nat \<Rightarrow> nat res" where
  "bmk_strlen M str = strlen_loop M str 0"

text \<open>
  The loop of \<open>bmk_strcmp\<close>: both pointers move past the characters that were compared, also
  past the pair that differed.
\<close>

function strcmp_loop :: "mem \<Rightarrow> nat \<Rightarrow> nat \<Rightarrow> (nat \<times> nat) res" where
  "strcmp_loop M a b =
     bindR (rd M a) (\<lambda>ca. if ca = 0 then Inr (a, b)
       else bindR (rd M b) (\<lambda>cb. if ca = cb then strcmp_loop M (Suc a) (Suc b) else Inr (Suc a, Suc b)))"
  by pat_completeness auto
termination
  by (relation "measure (\<lambda>(M, a, b). length M - a)") (auto dest: rd_InrD)

definition bmk_strcmp :: "mem \<Rightarrow> nat \<Rightarrow> nat \<Rightarrow> int res" where
  "bmk_strcmp M a b =
     bindR (strcmp_loop M a b) (\<lambda>(a, b).
     bindR (rd M a) (\<lambda>ca.
     let (a, b) = (if ca \<noteq> 0 then (a - 1, b - 1) else (a, b)) in
     bindR (rd M a) (\<lambda>ca. bindR (rd M b) (\<lambda>cb. Inr (sint ca - sint cb)))))"

fun bmk_strncmp :: "mem \<Rightarrow> nat \<Rightarrow> nat \<Rightarrow> nat \<Rightarrow> int res" where
  "bmk_strncmp M a b 0 = Inr 0"
| "bmk_strncmp M a b (Suc n) =
     bindR (rd M a) (\<lambda>u1. bindR (rd M b) (\<lambda>u2.
       if u1 \<noteq> u2 then Inr (uint u1 - uint u2)
       else if u1 = 0 then Inr 0
       else bmk_strncmp M (Suc a) (Suc b) n))"

function strcpy_loop :: "mem \<Rightarrow> nat \<Rightarrow> nat \<Rightarrow> mem res" where
  "strcpy_loop M d s =
     bindR (rd M s) (\<lambda>c. bindR (wr M d c) (\<lambda>M'.
       if c \<noteq> 0 then strcpy_loop M' (Suc d) (Suc s) else Inr M'))"
  by pat_completeness auto
termination
  by (relation "measure (\<lambda>(M, d, s). length M - s)") (auto dest!: rd_InrD wr_InrD)

definition bmk_strcpy :: "mem \<Rightarrow> nat \<Rightarrow> nat \<Rightarrow> (mem \<times> nat) res" where
  "bmk_strcpy M d s = bindR (strcpy_loop M d s) (\<lambda>M. Inr (M, d))"

text \<open>
  \<open>bmk_strncpy\<close>: the first loop stores the terminator without counting it; the second loop
  stores as many zeros as the counter then says.
\<close>

fun strncpy_copy :: "mem \<Rightarrow> nat \<Rightarrow> nat \<Rightarrow> nat \<Rightarrow> (mem \<times> nat \<times> nat) res" where
  "strncpy_copy M d s 0 = Inr (M, d, 0)"
| "strncpy_copy M d s (Suc n) =
     bindR (rd M s) (\<lambda>c. bindR (wr M d c) (\<lambda>M.
       if c \<noteq> 0 then strncpy_copy M (Suc d) (Suc s) n else Inr (M, Suc d, Suc n)))"

fun bmk_memset_loop :: "mem \<Rightarrow> nat \<Rightarrow> u8 \<Rightarrow> nat \<Rightarrow> mem res" where
  "bmk_memset_loop M v c 0 = Inr M"
| "bmk_memset_loop M v c (Suc n) = bindR (wr M v c) (\<lambda>M. bmk_memset_loop M (Suc v) c n)"

definition bmk_strncpy :: "mem \<Rightarrow> nat \<Rightarrow> nat \<Rightarrow> nat \<Rightarrow> (mem \<times> nat) res" where
  "bmk_strncpy M d s n =
     bindR (strncpy_copy M d s n) (\<lambda>(M, d', n).
     bindR (bmk_memset_loop M d' 0 n) (\<lambda>M. Inr (M, d)))"

definition bmk_memset :: "mem \<Rightarrow> nat \<Rightarrow> int \<Rightarrow> nat \<Rightarrow> (mem \<times> nat) res" where
  "bmk_memset M b c n = bindR (bmk_memset_loop M b (of_int c) n) (\<lambda>M. Inr (M, b))"

fun memcpy_loop :: "mem \<Rightarrow> nat \<Rightarrow> nat \<Rightarrow> nat \<Rightarrow> mem res" where
  "memcpy_loop M dp sp 0 = Inr M"
| "memcpy_loop M dp sp (Suc n) =
     bindR (rd M sp) (\<lambda>c. bindR (wr M dp c) (\<lambda>M. memcpy_loop M (Suc dp) (Suc sp) n))"

definition bmk_memcpy :: "mem \<Rightarrow> nat \<Rightarrow> nat \<Rightarrow> nat \<Rightarrow> (mem \<times> nat) res" where
  "bmk_memcpy M d src n = bindR (memcpy_loop M d src n) (\<lambda>M. Inr (M, d))"

fun bmk_memchr :: "mem \<Rightarrow> nat \<Rightarrow> int \<Rightarrow> nat \<Rightarrow> nat option res" where
  "bmk_memchr M p c 0 = Inr None"
| "bmk_memchr M p c (Suc n) =
     bindR (rd M p) (\<lambda>v. if v = of_int c then Inr (Some p) else bmk_memchr M (Suc p) c n)"

text \<open>\<open>bmk_memrchr\<close> walks downwards from the pointer it is given.\<close>

fun bmk_memrchr :: "mem \<Rightarrow> nat \<Rightarrow> int \<Rightarrow> nat \<Rightarrow> nat option res" where
  "bmk_memrchr M p c 0 = Inr None"
| "bmk_memrchr M p c (Suc n) =
     bindR (rd M p) (\<lambda>v. if v = of_int c then Inr (Some p) else bmk_memrchr M (sub64 p 1) c n)"

declare strlen_loop.simps [simp del] strcmp_loop.simps [simp del] strcpy_loop.simps [simp del]

section \<open>Strings in memory\<close>

text \<open>The terminated string \<open>xs\<close> is stored at \<open>p\<close>.\<close>

fun str_at :: "mem \<Rightarrow> nat \<Rightarrow> u8 list \<Rightarrow> bool" where
  "str_at M p [] \<longleftrightarrow> p < length M \<and> M ! p = 0"
| "str_at M p (x # xs) \<longleftrightarrow> p < length M \<and> M ! p = x \<and> x \<noteq> 0 \<and> str_at M (Suc p) xs"

fun store :: "mem \<Rightarrow> nat \<Rightarrow> u8 list \<Rightarrow> mem" where
  "store M d [] = M"
| "store M d (b # bs) = store (M[d := b]) (Suc d) bs"

lemma length_store [simp]: "length (store M d bs) = length M"
  by (induction M d bs rule: store.induct) simp_all

lemma nth_store:
  "d + length bs \<le> length M \<Longrightarrow>
     store M d bs ! i = (if d \<le> i \<and> i < d + length bs then bs ! (i - d) else M ! i)"
proof (induction M d bs rule: store.induct)
  case (2 M d b bs)
  then show ?case by (cases "i = d") (auto simp: nth_Cons')
qed auto

lemma str_at_unique: "str_at M p xs \<Longrightarrow> str_at M p ys \<Longrightarrow> xs = ys"
proof (induction M p xs arbitrary: ys rule: str_at.induct)
  case (1 M p)
  then show ?case by (cases ys) auto
next
  case (2 M p x xs)
  then show ?case by (cases ys) auto
qed

lemma str_at_bound: "str_at M p xs \<Longrightarrow> p + length xs < length M"
  by (induction M p xs rule: str_at.induct) simp_all

lemma str_at_upd:
  "d < p \<or> p + length xs < d \<Longrightarrow> str_at (M[d := v]) p xs = str_at M p xs"
  by (induction M p xs rule: str_at.induct) auto

lemma strlen_loop_ok: "str_at M p xs \<Longrightarrow> strlen_loop M p n = Inr (n + length xs)"
  by (induction M p xs arbitrary: n rule: str_at.induct) (simp_all add: strlen_loop.simps)

lemma strlen_loop_inv: "strlen_loop M p n = Inr r \<Longrightarrow> \<exists>xs. str_at M p xs \<and> r = n + length xs"
proof (induction M p n rule: strlen_loop.induct)
  case (1 M p n)
  then obtain c where c: "rd M p = Inr c" by (auto simp: strlen_loop.simps [of M p] bindR_eq_Inr)
  show ?case
  proof (cases "c = 0")
    case True
    with 1(2) c show ?thesis
      by (intro exI [of _ "[]"]) (auto simp: strlen_loop.simps [of M p] dest: rd_InrD)
  next
    case False
    with 1 c obtain xs where "str_at M (Suc p) xs" "r = Suc n + length xs"
      by (auto simp: strlen_loop.simps [of M p])
    with c False show ?thesis by (intro exI [of _ "c # xs"]) (auto dest: rd_InrD)
  qed
qed

text \<open>
  \<open>bmk_strlen\<close> returns exactly the length of the terminated string at the pointer, and
  faults exactly when there is none before the end of memory.
\<close>

lemma bmk_strlen_correct: "bmk_strlen M p = Inr n \<longleftrightarrow> (\<exists>xs. str_at M p xs \<and> length xs = n)"
  unfolding bmk_strlen_def using strlen_loop_ok [of M p _ 0] strlen_loop_inv [of M p 0 n] by auto

section \<open>Comparison\<close>

lemma byte_eq_iff:
  "uint x = uint y \<longleftrightarrow> x = y" "sint x = sint y \<longleftrightarrow> x = y" "sint x = 0 \<longleftrightarrow> x = 0" for x y :: u8
proof -
  show "uint x = uint y \<longleftrightarrow> x = y" by (rule word_uint_eq_iff [symmetric])
  show s: "sint x = sint y \<longleftrightarrow> x = y" for x y :: u8 by (metis signed_word_eqI)
  show "sint x = 0 \<longleftrightarrow> x = 0" using s [of x 0] by simp
qed

text \<open>The order of C strings as unsigned bytes.\<close>

definition byte_less :: "(u8 \<times> u8) set" where
  "byte_less = {(x, y). uint x < uint y}"

lemma strncmp_ok:
  assumes "str_at M a xs" "str_at M b ys"
  shows "\<exists>r. bmk_strncmp M a b n = Inr r \<and> (r = 0 \<longleftrightarrow> take n xs = take n ys) \<and>
    (r < 0 \<longleftrightarrow> (take n xs, take n ys) \<in> lexord byte_less)"
  using assms
proof (induction n arbitrary: a b xs ys)
  case (Suc n)
  have pos: "x \<noteq> 0 \<Longrightarrow> 0 < uint x" for x :: u8
    using uint_0_iff [of x] uint_ge_0 [of x] by linarith
  show ?case
  proof (cases xs)
    case Nil
    with Suc(2,3) pos show ?thesis by (cases ys) (auto simp: byte_less_def uint_0_iff)
  next
    case (Cons x xs')
    show ?thesis
    proof (cases ys)
      case Nil
      with Cons Suc(2,3) pos [of x] show ?thesis by auto
    next
      case (Cons y ys')
      with \<open>xs = _\<close> Suc show ?thesis
        by (cases "x = y") (auto simp: byte_less_def byte_eq_iff)
    qed
  qed
qed simp

text \<open>
  \<open>bmk_strncmp\<close> on two terminated strings compares their first \<open>n\<close> bytes: the result is
  zero exactly when these agree, and negative exactly when the first is smaller in the
  lexicographic order of unsigned bytes.
\<close>

lemma bmk_strncmp_correct:
  assumes "str_at M a xs" "str_at M b ys"
  shows "\<exists>r. bmk_strncmp M a b n = Inr r \<and> (r = 0 \<longleftrightarrow> take n xs = take n ys) \<and>
    (r < 0 \<longleftrightarrow> (take n xs, take n ys) \<in> lexord byte_less)"
  by (rule strncmp_ok [OF assms])

lemma bmk_strncmp_correct_example:
  "\<exists>r. bmk_strncmp [97, 98, 0, 97, 99, 0] 0 3 2 = Inr r \<and> r < 0"
  using bmk_strncmp_correct [of "[97, 98, 0, 97, 99, 0]" 0 "[97, 98]" 3 "[97, 99]" 2]
  by (auto simp: byte_less_def)

text \<open>The first difference of two strings is at the last character of the first one.\<close>

definition differ_at_last :: "u8 list \<Rightarrow> u8 list \<Rightarrow> bool" where
  "differ_at_last xs ys \<longleftrightarrow> xs \<noteq> [] \<and> prefix (butlast xs) ys \<and> \<not> prefix xs ys"

lemma differ_at_last_Cons [simp]:
  "\<not> differ_at_last [] ys"
  "differ_at_last (x # xs) [] \<longleftrightarrow> xs = []"
  "differ_at_last (x # xs) (y # ys) \<longleftrightarrow> (if x = y then differ_at_last xs ys else xs = [])"
  by (auto simp: differ_at_last_def)

lemma strcmp_loop_ok:
  assumes "str_at M a xs" "str_at M b ys"
  shows "\<exists>k. strcmp_loop M a b = Inr (a + k, b + k) \<and>
    (if prefix xs ys then k = length xs
     else 0 < k \<and> k \<le> length xs \<and> (k = length xs \<longleftrightarrow> differ_at_last xs ys) \<and>
       M ! (a + k - 1) \<noteq> M ! (b + k - 1) \<and> k \<le> Suc (length ys))"
  using assms
proof (induction xs arbitrary: a b ys)
  case Nil
  then show ?case by (intro exI [of _ 0]) (simp add: strcmp_loop.simps [of M a])
next
  case (Cons x xs)
  show ?case
  proof (cases "\<exists>zs. ys = x # zs")
    case True
    then obtain zs where z: "ys = x # zs" by blast
    have "str_at M (Suc a) xs" "str_at M (Suc b) zs" using Cons(2,3) z by simp_all
    from Cons(1) [OF this] obtain k where k: "strcmp_loop M (Suc a) (Suc b) = Inr (Suc a + k, Suc b + k)"
      "if prefix xs zs then k = length xs
       else 0 < k \<and> k \<le> length xs \<and> (k = length xs \<longleftrightarrow> differ_at_last xs zs) \<and>
         M ! (Suc a + k - 1) \<noteq> M ! (Suc b + k - 1) \<and> k \<le> Suc (length zs)"
      by blast
    have "strcmp_loop M a b = strcmp_loop M (Suc a) (Suc b)"
      using Cons(2,3) z by (simp add: strcmp_loop.simps [of M a])
    with k z show ?thesis by (intro exI [of _ "Suc k"]) (auto split: if_splits)
  next
    case False
    have np: "\<not> prefix (x # xs) ys" using False by (auto simp: prefix_def)
    have "b < length M" "M ! b \<noteq> x" using Cons(2,3) False by (cases ys; auto)+
    then show ?thesis
      using Cons(2,3) np False
      by (intro exI [of _ 1]) (cases ys; auto simp: strcmp_loop.simps [of M a])
  qed
qed

lemma str_at_nth:
  "str_at M p xs \<Longrightarrow> k \<le> length xs \<Longrightarrow> M ! (p + k) = (if k < length xs then xs ! k else 0) \<and>
     (k < length xs \<longrightarrow> M ! (p + k) \<noteq> 0)"
proof (induction xs arbitrary: p k)
  case (Cons x xs)
  then show ?case using Cons.IH [of "Suc p" "k - 1"] by (cases k) auto
qed simp

text \<open>
  C35. \<open>bmk_strcmp\<close> returns zero exactly on equal strings, unless the first difference is at
  the last character of the first string. In that case it returns the negated byte after the
  differing position of the second string, so that for example two different strings of
  length one compare as equal, and a byte past the end of a shorter second string is read.
\<close>

theorem bmk_strcmp_result:
  assumes "str_at M a xs" "str_at M b ys"
  shows "if differ_at_last xs ys
    then bmk_strcmp M a b = bindR (rd M (b + length xs)) (\<lambda>c. Inr (- sint c))
    else \<exists>r. bmk_strcmp M a b = Inr r \<and> (r = 0 \<longleftrightarrow> xs = ys)"
proof -
  obtain k where k: "strcmp_loop M a b = Inr (a + k, b + k)"
    "if prefix xs ys then k = length xs
     else 0 < k \<and> k \<le> length xs \<and> (k = length xs \<longleftrightarrow> differ_at_last xs ys) \<and>
       M ! (a + k - 1) \<noteq> M ! (b + k - 1) \<and> k \<le> Suc (length ys)"
    using strcmp_loop_ok [OF assms] by blast
  have la: "a + length xs < length M" "b + length ys < length M"
    using assms by (simp_all add: str_at_bound)
  have end0: "M ! (a + length xs) = 0" using str_at_nth [OF assms(1), of "length xs"] by simp
  show ?thesis
  proof (cases "prefix xs ys")
    case True
    then have nd: "\<not> differ_at_last xs ys" and le: "length xs \<le> length ys"
      by (auto simp: differ_at_last_def dest: prefix_length_le)
    have "bmk_strcmp M a b = Inr (- sint (M ! (b + length xs)))"
      using k True la le end0 by (simp add: bmk_strcmp_def)
    moreover have "M ! (b + length xs) = 0 \<longleftrightarrow> length xs = length ys"
      using str_at_nth [OF assms(2) le] le by auto
    moreover have "length xs = length ys \<longleftrightarrow> xs = ys" using True by (auto simp: prefix_def)
    ultimately show ?thesis using nd by (simp add: byte_eq_iff)
  next
    case False
    with k have kk: "0 < k" "k \<le> length xs" "k = length xs \<longleftrightarrow> differ_at_last xs ys"
      "M ! (a + k - 1) \<noteq> M ! (b + k - 1)" "k \<le> Suc (length ys)" by simp_all
    show ?thesis
    proof (cases "differ_at_last xs ys")
      case True
      with kk k la end0 show ?thesis by (simp add: bmk_strcmp_def)
    next
      case False
      then have "M ! (a + k) \<noteq> 0" "a + k < length M" "b + k - 1 < length M"
        using kk str_at_nth [OF assms(1), of k] la by auto
      then have "bmk_strcmp M a b = Inr (sint (M ! (a + k - 1)) - sint (M ! (b + k - 1)))"
        using k(1) by (simp add: bmk_strcmp_def)
      moreover have "xs \<noteq> ys" using \<open>\<not> prefix xs ys\<close> by auto
      ultimately show ?thesis using False kk(4) by (simp add: byte_eq_iff)
    qed
  qed
qed

theorem bmk_strcmp_result_witness:
  "bmk_strcmp [97, 0, 98, 0] 0 2 = Inr 0 \<and>
   (\<exists>r. bmk_strcmp [97, 98, 0, 97, 98, 0] 0 3 = Inr r \<and> r = 0)"
  using bmk_strcmp_result [of "[97, 0, 98, 0]" 0 "[97]" 2 "[98]"]
    bmk_strcmp_result [of "[97, 98, 0, 97, 98, 0]" 0 "[97, 98]" 3 "[97, 98]"]
  by (auto simp: nth_Cons')

section \<open>Copying and filling\<close>

lemma memset_loop_ok:
  "v + n \<le> length M \<Longrightarrow> bmk_memset_loop M v c n = Inr (store M v (replicate n c))"
  by (induction n arbitrary: M v) simp_all

definition apart :: "nat \<Rightarrow> nat \<Rightarrow> nat \<Rightarrow> nat \<Rightarrow> bool" where
  "apart d n s m \<longleftrightarrow> d + n \<le> s \<or> s + m \<le> d"

lemma memcpy_loop_ok:
  assumes "apart d n s n" "d + n \<le> length M" "s + n \<le> length M"
  shows "memcpy_loop M d s n = Inr (store M d (take n (drop s M)))"
  using assms
proof (induction n arbitrary: M d s)
  case (Suc n)
  then have "drop s M = M ! s # drop (Suc s) M" "M[d := M ! s] = M[d := M ! s]"
    by (simp_all add: Cons_nth_drop_Suc)
  moreover have "take n (drop (Suc s) (M[d := M ! s])) = take n (drop (Suc s) M)"
    using Suc.prems by (intro nth_equalityI) (auto simp: apart_def nth_list_update)
  ultimately show ?case
    using Suc.prems Suc.IH [of "Suc d" "Suc s" "M[d := M ! s]"] by (auto simp: apart_def)
qed simp

lemma strcpy_loop_ok:
  assumes "str_at M s xs" "apart d (Suc (length xs)) s (Suc (length xs))" "d + length xs < length M"
  shows "strcpy_loop M d s = Inr (store M d (xs @ [0]))"
  using assms
proof (induction xs arbitrary: M d s)
  case Nil
  then show ?case by (simp add: strcpy_loop.simps)
next
  case (Cons x xs)
  then have "str_at (M[d := x]) (Suc s) xs" by (subst str_at_upd) (auto simp: apart_def)
  with Cons show ?case by (subst strcpy_loop.simps) (auto simp: apart_def)
qed

lemma strncpy_copy_ok:
  assumes "str_at M s xs" "apart d (Suc (min n (length xs))) s (Suc (length xs))"
    "d + min n (Suc (length xs)) \<le> length M"
  shows "strncpy_copy M d s n =
    (if n \<le> length xs then Inr (store M d (take n xs), d + n, 0)
     else Inr (store M d (xs @ [0]), d + Suc (length xs), n - length xs))"
  using assms
proof (induction n arbitrary: M d s xs)
  case (Suc n)
  show ?case
  proof (cases xs)
    case Nil
    with Suc.prems show ?thesis by simp
  next
    case (Cons x xs')
    have "str_at (M[d := x]) (Suc s) xs'"
      using Suc.prems Cons by (subst str_at_upd) (auto simp: apart_def)
    with Suc.IH [of "M[d := x]" "Suc s" xs' "Suc d"] Suc.prems Cons show ?thesis
      by (auto simp: apart_def min_def split: if_splits)
  qed
qed simp

lemma store_append: "store M d (bs @ cs) = store (store M d bs) (d + length bs) cs"
  by (induction M d bs rule: store.induct) simp_all

text \<open>
  C36. \<open>bmk_strncpy\<close> between separate buffers stores the first \<open>n\<close> bytes when the string has at
  least \<open>n\<close>; when it is shorter than \<open>n\<close> it stores the string padded with zeros to \<open>n + 1\<close>
  bytes, one more than the size it was given.
\<close>

theorem bmk_strncpy_stores:
  assumes "str_at M s xs" "apart d (Suc n) s (Suc (length xs))" "d + Suc n \<le> length M"
  shows "bmk_strncpy M d s n =
    Inr (store M d (if n \<le> length xs then take n xs else xs @ replicate (Suc n - length xs) 0), d)"
proof -
  have "strncpy_copy M d s n =
    (if n \<le> length xs then Inr (store M d (take n xs), d + n, 0)
     else Inr (store M d (xs @ [0]), d + Suc (length xs), n - length xs))"
    using assms by (intro strncpy_copy_ok) (auto simp: apart_def)
  moreover have "xs @ 0 # replicate (n - length xs) 0 = xs @ replicate (Suc n - length xs) 0"
    if "\<not> n \<le> length xs" using that by (simp add: Suc_diff_le)
  then have "store (store M d (xs @ [0])) (d + Suc (length xs)) (replicate (n - length xs) 0) =
      store M d (xs @ replicate (Suc n - length xs) 0)" if "\<not> n \<le> length xs"
    using that store_append [of M d "xs @ [0]" "replicate (n - length xs) 0"] by simp
  ultimately show ?thesis
    using assms(3) by (auto simp: bmk_strncpy_def memset_loop_ok)
qed

lemma replicate_2: "replicate 2 x = [x, x]"
  by (simp add: numeral_2_eq_2)

theorem bmk_strncpy_stores_witness:
  "bmk_strncpy [120, 120, 120, 120, 97, 0] 0 4 2 = Inr ([97, 0, 0, 120, 97, 0], 0)"
  using bmk_strncpy_stores [of "[120, 120, 120, 120, 97, 0]" 4 "[97]" 0 2]
  by (simp add: apart_def replicate_2)

lemma str_at_store:
  "0 \<notin> set ys \<Longrightarrow> d + length ys < length N \<Longrightarrow> str_at (store N d (ys @ [0])) d ys"
proof (induction ys arbitrary: N d)
  case (Cons y ys)
  then show ?case by (auto simp: nth_store)
qed simp

lemma str_at_nonzero: "str_at M s xs \<Longrightarrow> 0 \<notin> set xs"
  by (induction M s xs rule: str_at.induct) auto

text \<open>
  \<open>bmk_memcpy\<close> between separate ranges copies exactly the \<open>n\<close> bytes, \<open>bmk_memset\<close> fills
  exactly \<open>n\<close> bytes with the low byte of its argument, and \<open>bmk_strcpy\<close> leaves the source
  string, terminator included, at the destination; no other byte changes.
\<close>

lemma copy_fill_correct:
  assumes "d + n \<le> length M" "s + n \<le> length M" "apart d n s n"
  shows "bmk_memcpy M d s n = Inr (store M d (take n (drop s M)), d) \<and>
    bmk_memset M d c n = Inr (store M d (replicate n (of_int c)), d) \<and>
    (\<forall>xs. str_at M s xs \<and> n = Suc (length xs) \<longrightarrow>
      bmk_strcpy M d s = Inr (store M d (xs @ [0]), d) \<and> str_at (store M d (xs @ [0])) d xs)"
proof (intro conjI allI impI)
  show "bmk_memcpy M d s n = Inr (store M d (take n (drop s M)), d)"
    using memcpy_loop_ok [OF assms(3,1,2)] by (simp add: bmk_memcpy_def)
  show "bmk_memset M d c n = Inr (store M d (replicate n (of_int c)), d)"
    using memset_loop_ok [OF assms(1)] by (simp add: bmk_memset_def)
  fix xs assume x: "str_at M s xs \<and> n = Suc (length xs)"
  then show "bmk_strcpy M d s = Inr (store M d (xs @ [0]), d)"
    using strcpy_loop_ok [of M s xs d] assms by (simp add: bmk_strcpy_def)
  show "str_at (store M d (xs @ [0])) d xs"
    using x str_at_nonzero [of M s xs] assms(1) by (intro str_at_store) auto
qed

lemma copy_fill_correct_example:
  "bmk_memcpy [1, 2, 3, 4] 0 2 2 = Inr ([3, 4, 3, 4], 0) \<and>
   bmk_memset [1, 2, 3, 4] 0 258 2 = Inr ([2, 2, 3, 4], 0) \<and>
   bmk_strcpy [1, 2, 3, 0] 0 2 = Inr ([3, 0, 3, 0], 0)"
proof -
  have "bmk_strcpy [1, 2, 3, 0] 0 2 = Inr (store [1, 2, 3, 0] 0 ([3] @ [0]), 0)"
    using copy_fill_correct [of 0 2 "[1, 2, 3, 0]" 2 0, THEN conjunct2, THEN conjunct2, rule_format, of "[3]"]
    by (simp add: apart_def)
  then show ?thesis
    using copy_fill_correct [of 0 2 "[1, 2, 3, 4]" 2 258]
    by (simp add: apart_def replicate_2)
qed

end
