(* ===== verification/Strtoul.thy ===== *)
theory Strtoul
  imports BmkString
begin

text \<open>
  \<open>bmk_strtoul\<close> of \<open>lib/libbmk_core/strtoul.c\<close>, with \<open>unsigned long\<close> as naturals below
  \<open>2 ^ 64\<close>: white space, sign, base prefix, digits with the overflow cut-off, and the end
  pointer. A digit beyond the cut-off ends the scan with the largest value and, because \<open>any\<close>
  is reset to 0 there, with an end pointer that says nothing was converted.
\<close>

abbreviation UINT_MAX :: nat where
  "UINT_MAX \<equiv> 2 ^ 64 - 1"

definition is_space :: "u8 \<Rightarrow> bool" where
  "is_space c \<longleftrightarrow> c = byte CHR '' '' \<or> (9 \<le> c \<and> c \<le> 13)"

text \<open>\<open>do c = *s++; while (white space)\<close>\<close>

function skip_space :: "mem \<Rightarrow> nat \<Rightarrow> (u8 \<times> nat) res" where
  "skip_space M s = bindR (rd M s) (\<lambda>c. if is_space c then skip_space M (Suc s) else Inr (c, Suc s))"
  by pat_completeness auto
termination
  by (relation "measure (\<lambda>(M, s). length M - s)") (auto dest: rd_InrD)

definition digit_of :: "u8 \<Rightarrow> nat option" where
  "digit_of c =
     (if byte CHR ''0'' \<le> c \<and> c \<le> byte CHR ''9'' then Some (unat c - 48)
      else if byte CHR ''a'' \<le> c \<and> c \<le> byte CHR ''z'' then Some (unat c - 97 + 10)
      else if byte CHR ''A'' \<le> c \<and> c \<le> byte CHR ''Z'' then Some (unat c - 65 + 10)
      else None)"

text \<open>The accumulation loop; \<open>any\<close> is never negative, so the test for it is left out.\<close>

function acc_loop :: "mem \<Rightarrow> nat \<Rightarrow> u8 \<Rightarrow> nat \<Rightarrow> nat \<Rightarrow> bool \<Rightarrow> (nat \<times> bool \<times> nat) res" where
  "acc_loop M base c s acc any =
     (case digit_of c of
        None \<Rightarrow> Inr (acc, any, s)
      | Some i \<Rightarrow>
          if i \<ge> base then Inr (acc, any, s)
          else if acc > UINT_MAX div base \<or> (acc = UINT_MAX div base \<and> i > UINT_MAX mod base)
          then Inr (UINT_MAX, False, s)
          else bindR (rd M s) (\<lambda>c. acc_loop M base c (Suc s) (wrap64 (wrap64 (acc * base) + i)) True))"
  by pat_completeness auto
termination
  by (relation "measure (\<lambda>(M, base, c, s, acc, any). length M - s)") (auto dest: rd_InrD)

declare skip_space.simps [simp del] acc_loop.simps [simp del]

definition parse_sign :: "mem \<Rightarrow> u8 \<Rightarrow> nat \<Rightarrow> (bool \<times> u8 \<times> nat) res" where
  "parse_sign M c s =
     (if c = byte CHR ''-'' then bindR (rd M s) (\<lambda>c. Inr (True, c, Suc s))
      else if c = byte CHR ''+'' then bindR (rd M s) (\<lambda>c. Inr (False, c, Suc s))
      else Inr (False, c, s))"

definition parse_base :: "mem \<Rightarrow> nat \<Rightarrow> u8 \<Rightarrow> nat \<Rightarrow> (nat \<times> u8 \<times> nat) res" where
  "parse_base M base c s =
     bindR (if (base = 0 \<or> base = 16) \<and> c = byte CHR ''0'' then
              bindR (rd M s) (\<lambda>x.
                if x = byte CHR ''x'' \<or> x = byte CHR ''X''
                then bindR (rd M (Suc s)) (\<lambda>c. Inr (16, c, s + 2)) else Inr (base, c, s))
            else Inr (base, c, s)) (\<lambda>(base, c, s).
     Inr (if base = 0 then (if c = byte CHR ''0'' then 8 else 10) else base, c, s))"

text \<open>The result is the value and \<open>*endptr\<close>.\<close>

definition bmk_strtoul :: "mem \<Rightarrow> nat \<Rightarrow> nat \<Rightarrow> (nat \<times> nat) res" where
  "bmk_strtoul M nptr base =
     (if base \<noteq> 0 \<and> (base < 2 \<or> base > 36) then Inl (Halt ''invalid base to strtoul'')
      else bindR (skip_space M nptr) (\<lambda>(c, s).
           bindR (parse_sign M c s) (\<lambda>(neg, c, s).
           bindR (parse_base M base c s) (\<lambda>(base, c, s).
           bindR (acc_loop M base c s 0 False) (\<lambda>(acc, any, s).
           Inr (if neg \<and> any then sub64 0 acc else acc, if any then s - 1 else nptr))))))"

end
