(* ===== verification/Prf.thy ===== *)
theory Prf
  imports BmkString
begin

text \<open>
  The formatted output of \<open>lib/libbmk_core/subr_prf.c\<close>: console output with the message ring,
  and \<open>kprintf\<close> with all of its conversions, flags, widths and precisions, writing either to
  the console or to a caller's buffer in byte memory. The variable arguments are the 8-byte
  slots that the amd64 calling convention passes; fetching an \<open>int\<close> reads the low half of a
  slot. Pointers are indices into memory and 0 is the null pointer. \<open>v_putc\<close> and \<open>v_flush\<close>
  belong to the platform: what they are called with is recorded.
\<close>

section \<open>State\<close>

record kst =
  k_mem :: mem
  k_sbuf :: nat
  k_putc :: bool
  k_out :: "u8 list"
  k_flush :: bool
  k_flushed :: nat
  bmk_dmesg :: "u8 list"
  bmk_dmesgoff :: nat

abbreviation BMK_DMESG_SIZE :: nat where
  "BMK_DMESG_SIZE \<equiv> 16384"

abbreviation KPRINTF_BUFSIZE :: nat where
  "KPRINTF_BUFSIZE \<equiv> 23"

text \<open>A null argument installs \<open>nullfun\<close>, which does nothing.\<close>

definition bmk_printf_init :: "kst \<Rightarrow> bool \<Rightarrow> bool \<Rightarrow> kst" where
  "bmk_printf_init st putc flush = st\<lparr>k_putc := putc, k_flush := flush\<rparr>"

definition cons_putchar :: "kst \<Rightarrow> u8 \<Rightarrow> kst res" where
  "cons_putchar st c =
     guardR (bmk_dmesgoff st < length (bmk_dmesg st)) Out_of_bounds
       (let off = Suc (bmk_dmesgoff st);
            st = st\<lparr>bmk_dmesg := (bmk_dmesg st)[bmk_dmesgoff st := c],
                    bmk_dmesgoff := (if off = length (bmk_dmesg st) - 1 then 0 else off)\<rparr>
        in Inr (if k_putc st then st\<lparr>k_out := k_out st @ [c]\<rparr> else st))"

definition bmk_putchar :: "kst \<Rightarrow> u8 \<Rightarrow> kst res" where
  "bmk_putchar st c = cons_putchar st c"

text \<open>
  Where output goes: \<open>TOBUFONLY\<close> with the tail pointer (\<open>None\<close> when \<open>vp\<close> is null) or \<open>TOCONS\<close>.
\<close>

datatype oflags = TOBUFONLY "nat option" | TOCONS

definition KPRINTF_PUTCHAR :: "oflags \<Rightarrow> kst \<Rightarrow> u8 \<Rightarrow> kst res" where
  "KPRINTF_PUTCHAR fl st c =
     (case fl of
        TOBUFONLY tailp \<Rightarrow>
          if k_sbuf st \<noteq> 0 \<and> (case tailp of None \<Rightarrow> True | Some t \<Rightarrow> k_sbuf st < t)
          then bindR (wr (k_mem st) (k_sbuf st) c) (\<lambda>M. Inr (st\<lparr>k_mem := M, k_sbuf := Suc (k_sbuf st)\<rparr>))
          else Inr st
      | TOCONS \<Rightarrow> cons_putchar st c)"

fun kputs :: "oflags \<Rightarrow> kst \<Rightarrow> u8 list \<Rightarrow> kst res" where
  "kputs fl st [] = Inr st"
| "kputs fl st (c # cs) = bindR (KPRINTF_PUTCHAR fl st c) (\<lambda>st. kputs fl st cs)"

text \<open>\<open>for (; size--; cp++) KPRINTF_PUTCHAR(*cp)\<close>: each byte is read when it is its turn.\<close>

fun kputmem :: "oflags \<Rightarrow> kst \<Rightarrow> nat \<Rightarrow> nat \<Rightarrow> kst res" where
  "kputmem fl st cp 0 = Inr st"
| "kputmem fl st cp (Suc sz) =
     bindR (rd (k_mem st) cp) (\<lambda>c.
     bindR (KPRINTF_PUTCHAR fl st c) (\<lambda>st. kputmem fl st (Suc cp) sz))"

section \<open>Arguments and flags\<close>

type_synonym va_list = "u64 list"

definition va_slot :: "va_list \<Rightarrow> (u64 \<times> va_list) res" where
  "va_slot ap = (case ap of [] \<Rightarrow> Inl Out_of_bounds | a # ap \<Rightarrow> Inr (a, ap))"

definition va_int :: "va_list \<Rightarrow> (int \<times> va_list) res" where
  "va_int ap = bindR (va_slot ap) (\<lambda>(a, ap). Inr (sint (ucast a :: u32), ap))"

record kflags =
  f_ALT :: bool
  f_HEXPREFIX :: bool
  f_LADJUST :: bool
  f_LONGINT :: bool
  f_QUADINT :: bool
  f_SHORTINT :: bool
  f_MAXINT :: bool
  f_PTRINT :: bool
  f_SIZEINT :: bool
  f_ZEROPAD :: bool

text \<open>The locals that a directive sets up, and the remaining arguments.\<close>

record kdir =
  d_flags :: kflags
  d_width :: int
  d_prec :: int
  d_sign :: u8
  d_ap :: va_list

definition no_flags :: kflags where
  "no_flags = \<lparr>f_ALT = False, f_HEXPREFIX = False, f_LADJUST = False, f_LONGINT = False,
     f_QUADINT = False, f_SHORTINT = False, f_MAXINT = False, f_PTRINT = False,
     f_SIZEINT = False, f_ZEROPAD = False\<rparr>"

definition new_dir :: "va_list \<Rightarrow> kdir" where
  "new_dir ap = \<lparr>d_flags = no_flags, d_width = 0, d_prec = -1, d_sign = 0, d_ap = ap\<rparr>"

definition is_wide :: "kflags \<Rightarrow> bool" where
  "is_wide f \<longleftrightarrow> f_MAXINT f \<or> f_PTRINT f \<or> f_SIZEINT f \<or> f_QUADINT f \<or> f_LONGINT f"

definition SARG :: "kflags \<Rightarrow> va_list \<Rightarrow> (u64 \<times> va_list) res" where
  "SARG f ap = bindR (va_slot ap) (\<lambda>(a, ap).
     Inr (if is_wide f then a
          else if f_SHORTINT f then scast (ucast a :: u16)
          else scast (ucast a :: u32), ap))"

text \<open>For \<open>SHORTINT\<close> the argument is fetched as an \<open>int\<close> and only widened.\<close>

definition UARG :: "kflags \<Rightarrow> va_list \<Rightarrow> (u64 \<times> va_list) res" where
  "UARG f ap = bindR (va_slot ap) (\<lambda>(a, ap).
     Inr (if is_wide f then a
          else if f_SHORTINT f then scast (ucast a :: u32)
          else ucast (ucast a :: u32), ap))"

section \<open>Parsing a directive\<close>

definition to_digit :: "u8 \<Rightarrow> int" where
  "to_digit c = uint c - 48"

definition is_digit :: "u8 \<Rightarrow> bool" where
  "is_digit c \<longleftrightarrow> byte CHR ''0'' \<le> c \<and> c \<le> byte CHR ''9''"

function scan_digits :: "mem \<Rightarrow> u8 \<Rightarrow> nat \<Rightarrow> int \<Rightarrow> (u8 \<times> nat \<times> int) res" where
  "scan_digits M ch fmt n =
     (if is_digit ch then
        bindR (chk32 (10 * n + to_digit ch)) (\<lambda>n.
        bindR (rd M fmt) (\<lambda>ch. scan_digits M ch (Suc fmt) n))
      else Inr (ch, fmt, n))"
  by pat_completeness auto
termination
  by (relation "measure (\<lambda>(M, ch, fmt, n). length M - fmt)") (auto dest: rd_InrD)

declare scan_digits.simps [simp del]

lemma scan_digits_mono:
  "scan_digits M ch fmt n = Inr (ch', fmt', n') \<Longrightarrow>
     fmt \<le> fmt' \<and> (is_digit ch \<longrightarrow> fmt < fmt' \<and> fmt < length M)"
proof (induction M ch fmt n rule: scan_digits.induct)
  case (1 M ch fmt n)
  show ?case
  proof (cases "is_digit ch")
    case True
    with 1(2) obtain m c where m: "chk32 (10 * n + to_digit ch) = Inr m" "rd M fmt = Inr c"
      "scan_digits M c (Suc fmt) m = Inr (ch', fmt', n')"
      by (subst (asm) scan_digits.simps) (auto simp: bindR_eq_Inr)
    with 1(1) [OF True m(1,2)] rd_InrD [OF m(2)] show ?thesis by simp
  next
    case False
    with 1(2) show ?thesis by (simp add: scan_digits.simps)
  qed
qed

text \<open>The characters that only adjust the directive and go back to \<open>rflag\<close>.\<close>

definition upd_flags :: "(kflags \<Rightarrow> kflags) \<Rightarrow> kdir \<Rightarrow> kdir" where
  "upd_flags f d = d\<lparr>d_flags := f (d_flags d)\<rparr>"

definition rflag_char :: "mem \<Rightarrow> u8 \<Rightarrow> nat \<Rightarrow> kdir \<Rightarrow> (kdir \<times> nat) option res" where
  "rflag_char M ch fmt d =
     (if ch = byte CHR '' '' then
        Inr (Some (if d_sign d = 0 then d\<lparr>d_sign := byte CHR '' ''\<rparr> else d, fmt))
      else if ch = byte CHR ''#'' then Inr (Some (upd_flags (f_ALT_update (\<lambda>_. True)) d, fmt))
      else if ch = byte CHR ''*'' then
        bindR (va_int (d_ap d)) (\<lambda>(w, ap).
          let d = d\<lparr>d_width := w, d_ap := ap\<rparr> in
          if w \<ge> 0 then Inr (Some (d, fmt))
          else bindR (chk32 (- w)) (\<lambda>w.
            Inr (Some (upd_flags (f_LADJUST_update (\<lambda>_. True)) (d\<lparr>d_width := w\<rparr>), fmt))))
      else if ch = byte CHR ''-'' then Inr (Some (upd_flags (f_LADJUST_update (\<lambda>_. True)) d, fmt))
      else if ch = byte CHR ''+'' then Inr (Some (d\<lparr>d_sign := byte CHR ''+''\<rparr>, fmt))
      else if ch = byte CHR ''0'' then Inr (Some (upd_flags (f_ZEROPAD_update (\<lambda>_. True)) d, fmt))
      else if ch = byte CHR ''h'' then Inr (Some (upd_flags (f_SHORTINT_update (\<lambda>_. True)) d, fmt))
      else if ch = byte CHR ''j'' then Inr (Some (upd_flags (f_MAXINT_update (\<lambda>_. True)) d, fmt))
      else if ch = byte CHR ''l'' then
        bindR (rd M fmt) (\<lambda>c.
          if c = byte CHR ''l'' then Inr (Some (upd_flags (f_QUADINT_update (\<lambda>_. True)) d, Suc fmt))
          else Inr (Some (upd_flags (f_LONGINT_update (\<lambda>_. True)) d, fmt)))
      else if ch = byte CHR ''q'' then Inr (Some (upd_flags (f_QUADINT_update (\<lambda>_. True)) d, fmt))
      else if ch = byte CHR ''t'' then Inr (Some (upd_flags (f_PTRINT_update (\<lambda>_. True)) d, fmt))
      else if ch = byte CHR ''z'' then Inr (Some (upd_flags (f_SIZEINT_update (\<lambda>_. True)) d, fmt))
      else Inr None)"

lemma rflag_char_mono: "rflag_char M ch fmt d = Inr (Some (d', fmt')) \<Longrightarrow> fmt \<le> fmt'"
  by (auto simp: rflag_char_def bindR_eq_Inr Let_def split: if_splits)

text \<open>
  \<open>rflag\<close> and \<open>reswitch\<close>: consume flags, width, precision and length modifiers; the result is
  the conversion character, the format position after it, and the directive.
\<close>

function reswitch :: "mem \<Rightarrow> u8 \<Rightarrow> nat \<Rightarrow> kdir \<Rightarrow> (u8 \<times> nat \<times> kdir) res" where
  "reswitch M ch fmt d =
     bindR (rflag_char M ch fmt d) (\<lambda>r. case r of
       Some (d, fmt) \<Rightarrow> bindR (rd M fmt) (\<lambda>ch. reswitch M ch (Suc fmt) d)
     | None \<Rightarrow>
         if ch = byte CHR ''.'' then
           bindR (rd M fmt) (\<lambda>ch.
             if ch = byte CHR ''*'' then
               bindR (va_int (d_ap d)) (\<lambda>(n, ap).
               bindR (rd M (Suc fmt)) (\<lambda>ch.
                 reswitch M ch (Suc (Suc fmt)) (d\<lparr>d_prec := (if n < 0 then -1 else n), d_ap := ap\<rparr>)))
             else
               bindR (scan_digits M ch (Suc fmt) 0) (\<lambda>(ch, fmt, n).
                 reswitch M ch fmt (d\<lparr>d_prec := (if n < 0 then -1 else n)\<rparr>)))
         else if byte CHR ''1'' \<le> ch \<and> ch \<le> byte CHR ''9'' then
           bindR (scan_digits M ch fmt 0) (\<lambda>(ch, fmt, n). reswitch M ch fmt (d\<lparr>d_width := n\<rparr>))
         else Inr (ch, fmt, d))"
  by pat_completeness auto
termination
proof (relation "measure (\<lambda>(M, ch, fmt, d). length M - fmt)", goal_cases)
  case 1 then show ?case by simp
next
  case 2 then show ?case by (auto dest!: rd_InrD)
next
  case (3 M ch fmt d x xa xb xc y xd ya)
  then show ?case using scan_digits_mono [of M xa "Suc fmt" 0 xc xd ya] by (auto dest!: rd_InrD)
next
  case (4 M ch fmt d x xa xb y xc ya)
  have "is_digit ch" using 4(4) order.trans [of "48 :: u8" 49 ch] by (simp add: is_digit_def)
  with 4 show ?case using scan_digits_mono [of M ch fmt 0 xb xc ya] by auto
next
  case (5 M ch fmt d x x2 xa y xb)
  then show ?case using rflag_char_mono [of M ch fmt d xa y] by (auto dest!: rd_InrD)
qed

declare reswitch.simps [simp del]

lemma reswitch_mono: "reswitch M ch fmt d = Inr (ch', fmt', d') \<Longrightarrow> fmt \<le> fmt'"
proof (induction M ch fmt d rule: reswitch.induct)
  case (1 M ch fmt d)
  from 1(5) obtain r where r: "rflag_char M ch fmt d = Inr r"
    by (subst (asm) reswitch.simps) (auto simp: bindR_eq_Inr)
  show ?case
  proof (cases r)
    case (Some x)
    obtain d1 f1 where x: "x = (d1, f1)" by (cases x)
    with 1(5) r Some obtain c where c: "rd M f1 = Inr c" "reswitch M c (Suc f1) d1 = Inr (ch', fmt', d')"
      by (subst (asm) reswitch.simps) (auto simp: bindR_eq_Inr)
    have "Suc f1 \<le> fmt'" by (rule 1(4) [OF r Some x [symmetric] c])
    then show ?thesis using rflag_char_mono [of M ch fmt d d1 f1] r Some x by simp
  next
    case None
    show ?thesis
      using 1(5) r None 1(1-3)
      by (subst (asm) reswitch.simps)
        (fastforce simp: bindR_eq_Inr dest: scan_digits_mono split: if_splits)
  qed
qed

section \<open>Numbers\<close>

text \<open>
  Digits are stored backwards from the end of \<open>bf\<close>; the list holds the bytes from \<open>cp\<close> to the
  end of the array, so that \<open>*--cp = c\<close> is a fault once all of its bytes are used.
\<close>

definition push_digit :: "u8 \<Rightarrow> u8 list \<Rightarrow> u8 list res" where
  "push_digit c cp = guardR (length cp < KPRINTF_BUFSIZE) Out_of_bounds (Inr (c # cp))"

datatype kbase = OCT | DEC | HEX

definition to_char :: "nat \<Rightarrow> u8" where
  "to_char n = of_nat n + byte CHR ''0''"

definition hexdigits :: "u8 list" where
  "hexdigits = bytes ''0123456789abcdef''"

definition HEXDIGITS :: "u8 list" where
  "HEXDIGITS = bytes ''0123456789ABCDEF''"

function oct_digits :: "nat \<Rightarrow> u8 list \<Rightarrow> u8 list res" where
  "oct_digits uquad cp =
     bindR (push_digit (to_char (uquad AND 7)) cp) (\<lambda>cp.
       if drop_bit 3 uquad = 0 then Inr cp else oct_digits (drop_bit 3 uquad) cp)"
  by pat_completeness auto
termination
  by (relation "measure (\<lambda>(uquad, cp). uquad)") (auto simp: drop_bit_eq_div)

fun dec_digits :: "nat \<Rightarrow> u8 list \<Rightarrow> u8 list res" where
  "dec_digits uquad cp =
     (if uquad \<ge> 10 then
        bindR (push_digit (to_char (uquad mod 10)) cp) (\<lambda>cp. dec_digits (uquad div 10) cp)
      else push_digit (to_char uquad) cp)"

function hex_digits :: "u8 list \<Rightarrow> nat \<Rightarrow> u8 list \<Rightarrow> u8 list res" where
  "hex_digits xdigs uquad cp =
     bindR (push_digit (xdigs ! (uquad AND 15)) cp) (\<lambda>cp.
       if drop_bit 4 uquad = 0 then Inr cp else hex_digits xdigs (drop_bit 4 uquad) cp)"
  by pat_completeness auto
termination
  by (relation "measure (\<lambda>(xdigs, uquad, cp). uquad)") (auto simp: drop_bit_eq_div)

declare oct_digits.simps [simp del] dec_digits.simps [simp del] hex_digits.simps [simp del]

section \<open>Conversions\<close>

text \<open>The field to print: bytes of the local buffer or of a literal, or \<open>size\<close> bytes at \<open>cp\<close>.\<close>

datatype kfield = Bytes "u8 list" | Range nat nat

fun field_size :: "kfield \<Rightarrow> int" where
  "field_size (Bytes bs) = int (length bs)"
| "field_size (Range cp sz) = int sz"

text \<open>The code after \<open>number\<close>: precision overrides zero padding, then the digits.\<close>

definition conv_number :: "kbase \<Rightarrow> u8 list \<Rightarrow> u64 \<Rightarrow> kdir \<Rightarrow> (kfield \<times> kdir) res" where
  "conv_number base xdigs uquad d =
     (let d = (if d_prec d \<ge> 0 then upd_flags (f_ZEROPAD_update (\<lambda>_. False)) d else d) in
      bindR (if uquad \<noteq> 0 \<or> d_prec d \<noteq> 0 then
               (case base of
                  OCT \<Rightarrow> bindR (oct_digits (unat uquad) []) (\<lambda>cp.
                    if f_ALT (d_flags d) \<and> hd cp \<noteq> byte CHR ''0'' then push_digit (byte CHR ''0'') cp
                    else Inr cp)
                | DEC \<Rightarrow> dec_digits (unat uquad) []
                | HEX \<Rightarrow> hex_digits xdigs (unat uquad) [])
             else Inr [])
        (\<lambda>cp. Inr (Bytes cp, d)))"

text \<open>The size of a string argument; \<open>M\<close> is the memory or, for a null pointer, the literal.\<close>

definition string_size :: "mem \<Rightarrow> nat \<Rightarrow> int \<Rightarrow> nat res" where
  "string_size M cp prec =
     (if prec \<ge> 0 then
        bindR (bmk_memchr M cp 0 (nat prec)) (\<lambda>p.
          case p of Some p \<Rightarrow> Inr (if p - cp > nat prec then nat prec else p - cp)
          | None \<Rightarrow> Inr (nat prec))
      else bindR (bmk_strlen M cp) (\<lambda>n. bindR (chk32 (int n)) (\<lambda>_. Inr n)))"

fun wr_list :: "mem \<Rightarrow> nat \<Rightarrow> u8 list \<Rightarrow> mem res" where
  "wr_list M p [] = Inr M"
| "wr_list M p (b # bs) = bindR (wr M p b) (\<lambda>M. wr_list M (Suc p) bs)"

definition le_bytes :: "nat \<Rightarrow> u64 \<Rightarrow> u8 list" where
  "le_bytes n w = map (\<lambda>i. ucast (drop_bit (8 * i) w)) [0..<n]"

text \<open>\<open>goto done\<close>, \<open>continue\<close> with the memory and the remaining arguments, or a field to print.\<close>

datatype kresult =
    K_done
  | K_continue mem va_list
  | K_field u8 kfield kdir int

definition number_field :: "u8 \<Rightarrow> kbase \<Rightarrow> u8 list \<Rightarrow> u64 \<Rightarrow> kdir \<Rightarrow> kresult res" where
  "number_field ch base xdigs uquad d =
     bindR (conv_number base xdigs uquad d) (\<lambda>(f, d). Inr (K_field ch f d (d_prec d)))"

definition nosign :: "kdir \<Rightarrow> kdir" where
  "nosign d = d\<lparr>d_sign := 0\<rparr>"

definition conv_int :: "u8 \<Rightarrow> kdir \<Rightarrow> kresult res" where
  "conv_int ch d =
     bindR (SARG (d_flags d) (d_ap d)) (\<lambda>(u, ap).
       let d = d\<lparr>d_ap := ap\<rparr> in
       if sint u < 0 then number_field ch DEC [] (- u) (d\<lparr>d_sign := byte CHR ''-''\<rparr>)
       else number_field ch DEC [] u d)"

definition conv_unsigned :: "u8 \<Rightarrow> kbase \<Rightarrow> u8 list \<Rightarrow> kdir \<Rightarrow> kresult res" where
  "conv_unsigned ch base xdigs d =
     bindR (UARG (d_flags d) (d_ap d)) (\<lambda>(u, ap).
       let d = d\<lparr>d_ap := ap\<rparr>;
           d = (if base = HEX \<and> f_ALT (d_flags d) \<and> u \<noteq> 0
                then upd_flags (f_HEXPREFIX_update (\<lambda>_. True)) d else d)
       in number_field ch base xdigs u (nosign d))"

definition conv_string :: "mem \<Rightarrow> u8 \<Rightarrow> kdir \<Rightarrow> kresult res" where
  "conv_string M ch d =
     bindR (va_slot (d_ap d)) (\<lambda>(a, ap).
       let d = d\<lparr>d_ap := ap\<rparr>; cp = unat a; null = bytes ''(null)'' in
       if cp = 0 then
         bindR (string_size (null @ [0]) 0 (d_prec d)) (\<lambda>n. Inr (K_field ch (Bytes (take n null)) (nosign d) 0))
       else
         bindR (string_size M cp (d_prec d)) (\<lambda>n. Inr (K_field ch (Range cp n) (nosign d) 0)))"

definition conv_n :: "mem \<Rightarrow> int \<Rightarrow> kdir \<Rightarrow> kresult res" where
  "conv_n M ret d =
     bindR (va_slot (d_ap d)) (\<lambda>(a, ap).
     bindR (wr_list M (unat a)
             (le_bytes (if is_wide (d_flags d) then 8 else if f_SHORTINT (d_flags d) then 2 else 4) (of_int ret)))
       (\<lambda>M. Inr (K_continue M ap)))"

text \<open>The rest of the switch: one conversion character.\<close>

definition convert :: "mem \<Rightarrow> int \<Rightarrow> u8 \<Rightarrow> kdir \<Rightarrow> kresult res" where
  "convert M ret ch d =
     (let long = upd_flags (f_LONGINT_update (\<lambda>_. True)) in
      if ch = byte CHR ''c'' then
        bindR (va_int (d_ap d)) (\<lambda>(n, ap). Inr (K_field ch (Bytes [of_int n]) (nosign (d\<lparr>d_ap := ap\<rparr>)) 0))
      else if ch = byte CHR ''D'' then conv_int ch (long d)
      else if ch = byte CHR ''d'' \<or> ch = byte CHR ''i'' then conv_int ch d
      else if ch = byte CHR ''n'' then conv_n M ret d
      else if ch = byte CHR ''O'' then conv_unsigned ch OCT [] (long d)
      else if ch = byte CHR ''o'' then conv_unsigned ch OCT [] d
      else if ch = byte CHR ''p'' then
        bindR (va_slot (d_ap d)) (\<lambda>(a, ap).
          number_field (byte CHR ''x'') HEX hexdigits a
            (nosign (upd_flags (f_HEXPREFIX_update (\<lambda>_. True)) (d\<lparr>d_ap := ap\<rparr>))))
      else if ch = byte CHR ''s'' then conv_string M ch d
      else if ch = byte CHR ''U'' then conv_unsigned ch DEC [] (long d)
      else if ch = byte CHR ''u'' then conv_unsigned ch DEC [] d
      else if ch = byte CHR ''X'' then conv_unsigned ch HEX HEXDIGITS d
      else if ch = byte CHR ''x'' then conv_unsigned ch HEX hexdigits d
      else if ch = 0 then Inr K_done
      else Inr (K_field ch (Bytes [ch]) (nosign d) 0))"

section \<open>Printing a field\<close>

text \<open>\<open>while (n-- > 0) KPRINTF_PUTCHAR(c)\<close>\<close>

definition pad :: "u8 \<Rightarrow> int \<Rightarrow> u8 list" where
  "pad c n = replicate (nat n) c"

definition real_size :: "kfield \<Rightarrow> kdir \<Rightarrow> int \<Rightarrow> int" where
  "real_size f d dprec =
     (let realsz = max dprec (field_size f) in
      if d_sign d \<noteq> 0 then realsz + 1
      else if f_HEXPREFIX (d_flags d) then realsz + 2 else realsz)"

text \<open>
  What goes before the field proper, in the order of the code: blank padding, sign or hex
  prefix, zero padding, and the zeros of the precision; and the padding after it.
\<close>

definition field_prefix :: "u8 \<Rightarrow> kfield \<Rightarrow> kdir \<Rightarrow> int \<Rightarrow> u8 list" where
  "field_prefix ch f d dprec =
     (let fs = d_flags d; n = d_width d - real_size f d dprec in
      (if \<not> f_LADJUST fs \<and> \<not> f_ZEROPAD fs then pad (byte CHR '' '') n else []) @
      (if d_sign d \<noteq> 0 then [d_sign d] else if f_HEXPREFIX fs then [byte CHR ''0'', ch] else []) @
      (if \<not> f_LADJUST fs \<and> f_ZEROPAD fs then pad (byte CHR ''0'') n else []) @
      pad (byte CHR ''0'') (dprec - field_size f))"

definition field_suffix :: "kfield \<Rightarrow> kdir \<Rightarrow> int \<Rightarrow> u8 list" where
  "field_suffix f d dprec =
     (if f_LADJUST (d_flags d) then pad (byte CHR '' '') (d_width d - real_size f d dprec) else [])"

definition emit_field :: "oflags \<Rightarrow> kst \<Rightarrow> int \<Rightarrow> u8 \<Rightarrow> kfield \<Rightarrow> kdir \<Rightarrow> int \<Rightarrow> (kst \<times> int) res" where
  "emit_field fl st ret ch f d dprec =
     bindR (chk32 (ret + max (d_width d) (real_size f d dprec))) (\<lambda>ret.
     bindR (kputs fl st (field_prefix ch f d dprec)) (\<lambda>st.
     bindR (case f of Bytes bs \<Rightarrow> kputs fl st bs | Range cp sz \<Rightarrow> kputmem fl st cp sz) (\<lambda>st.
     bindR (kputs fl st (field_suffix f d dprec)) (\<lambda>st.
     Inr (st, ret)))))"

text \<open>Output never changes the size of memory, so the format position measures the loop.\<close>

lemma cons_putchar_len: "cons_putchar st c = Inr st' \<Longrightarrow> k_mem st' = k_mem st"
  by (auto simp: cons_putchar_def Let_def)

lemma PUTCHAR_len: "KPRINTF_PUTCHAR fl st c = Inr st' \<Longrightarrow> length (k_mem st') = length (k_mem st)"
  by (auto simp: KPRINTF_PUTCHAR_def bindR_eq_Inr dest!: cons_putchar_len wr_InrD
      split: oflags.splits if_splits)

lemma kputs_len: "kputs fl st cs = Inr st' \<Longrightarrow> length (k_mem st') = length (k_mem st)"
  by (induction cs arbitrary: st) (auto simp: bindR_eq_Inr dest!: PUTCHAR_len)

lemma kputmem_len: "kputmem fl st cp n = Inr st' \<Longrightarrow> length (k_mem st') = length (k_mem st)"
  by (induction n arbitrary: st cp) (auto simp: bindR_eq_Inr dest!: PUTCHAR_len)

lemma emit_field_len:
  "emit_field fl st ret ch f d dprec = Inr (st', ret') \<Longrightarrow> length (k_mem st') = length (k_mem st)"
  by (cases f) (auto simp: emit_field_def bindR_eq_Inr dest!: kputs_len kputmem_len)

lemma wr_list_len: "wr_list M p bs = Inr M' \<Longrightarrow> length M' = length M"
  by (induction bs arbitrary: M p) (auto simp: bindR_eq_Inr dest!: wr_InrD)

lemma convert_len:
  assumes "convert M ret ch d = Inr (K_continue M' ap)"
  shows "length M' = length M"
proof -
  have nf: "number_field c b x u d' \<noteq> Inr (K_continue M' ap)" for c b x u d'
    by (auto simp: number_field_def bindR_eq_Inr)
  have "conv_int c d' \<noteq> Inr (K_continue M' ap)" "conv_unsigned c b x d' \<noteq> Inr (K_continue M' ap)"
    "conv_string N c d' \<noteq> Inr (K_continue M' ap)" for c d' b x N
    using nf by (auto simp: conv_int_def conv_unsigned_def conv_string_def bindR_eq_Inr Let_def split: if_splits)
  then show ?thesis
    using assms nf unfolding convert_def Let_def
    by (auto simp: bindR_eq_Inr conv_n_def dest!: wr_list_len split: if_splits)
qed

function kprintf_loop :: "oflags \<Rightarrow> kst \<Rightarrow> nat \<Rightarrow> va_list \<Rightarrow> int \<Rightarrow> (kst \<times> int) res" where
  "kprintf_loop fl st fmt ap ret =
     bindR (rd (k_mem st) fmt) (\<lambda>c.
       if c = 0 then Inr (st, ret)
       else if c \<noteq> byte CHR ''%'' then
         bindR (chk32 (ret + 1)) (\<lambda>ret.
         bindR (KPRINTF_PUTCHAR fl st c) (\<lambda>st. kprintf_loop fl st (Suc fmt) ap ret))
       else
         bindR (rd (k_mem st) (Suc fmt)) (\<lambda>ch.
         bindR (reswitch (k_mem st) ch (Suc (Suc fmt)) (new_dir ap)) (\<lambda>(ch, fmt', d).
         bindR (convert (k_mem st) ret ch d) (\<lambda>r.
           case r of
             K_done \<Rightarrow> Inr (st, ret)
           | K_continue M ap \<Rightarrow> kprintf_loop fl (st\<lparr>k_mem := M\<rparr>) fmt' ap ret
           | K_field ch f d dprec \<Rightarrow>
               bindR (emit_field fl st ret ch f d dprec) (\<lambda>(st, ret).
                 kprintf_loop fl st fmt' (d_ap d) ret)))))"
  by pat_completeness auto
termination
proof (relation "measure (\<lambda>(fl, st, fmt, ap, ret). length (k_mem st) - fmt)", goal_cases)
  case 1 then show ?case by simp
next
  case 2 then show ?case by (auto dest!: rd_InrD PUTCHAR_len)
next
  case 3 then show ?case by (auto dest!: rd_InrD reswitch_mono convert_len)
next
  case 4 then show ?case by (auto dest!: rd_InrD reswitch_mono emit_field_len)
qed

declare kprintf_loop.simps [simp del]

definition kprintf :: "kst \<Rightarrow> nat \<Rightarrow> oflags \<Rightarrow> va_list \<Rightarrow> (kst \<times> int) res" where
  "kprintf st fmt0 fl ap =
     bindR (kprintf_loop fl st fmt0 ap 0) (\<lambda>(st, ret).
       Inr (if k_flush st then st\<lparr>k_flushed := Suc (k_flushed st)\<rparr> else st, ret))"

definition bmk_vprintf :: "kst \<Rightarrow> nat \<Rightarrow> va_list \<Rightarrow> kst res" where
  "bmk_vprintf st fmt ap = bindR (kprintf (st\<lparr>k_sbuf := 0\<rparr>) fmt TOCONS ap) (\<lambda>(st, _). Inr st)"

definition bmk_printf :: "kst \<Rightarrow> nat \<Rightarrow> va_list \<Rightarrow> kst res" where
  "bmk_printf st fmt ap = bindR (kprintf (st\<lparr>k_sbuf := 0\<rparr>) fmt TOCONS ap) (\<lambda>(st, _). Inr st)"

text \<open>Where the text is terminated; the comparison converts \<open>retval\<close> to \<open>unsigned long\<close>.\<close>

definition nul_pos :: "nat \<Rightarrow> int \<Rightarrow> nat" where
  "nul_pos sz retval = (if sz \<le> nat (retval mod 2 ^ 64) then sz - 1 else nat retval)"

definition bmk_vsnprintf :: "kst \<Rightarrow> nat \<Rightarrow> nat \<Rightarrow> nat \<Rightarrow> va_list \<Rightarrow> (kst \<times> int) res" where
  "bmk_vsnprintf st bf sz fmt ap =
     bindR (kprintf (st\<lparr>k_sbuf := bf\<rparr>) fmt (TOBUFONLY (Some (wrap64 (bf + sz)))) ap) (\<lambda>(st, retval).
       if bf \<noteq> 0 \<and> sz > 0 then
         bindR (wr (k_mem st) (bf + nul_pos sz retval) 0)
           (\<lambda>M. Inr (st\<lparr>k_mem := M\<rparr>, retval))
       else Inr (st, retval))"

definition bmk_snprintf :: "kst \<Rightarrow> nat \<Rightarrow> nat \<Rightarrow> nat \<Rightarrow> va_list \<Rightarrow> (kst \<times> int) res" where
  "bmk_snprintf st bf sz fmt ap = bmk_vsnprintf st bf sz fmt ap"

end
