(* ===== verification/PrfCorrect.thy ===== *)
theory PrfCorrect
  imports Prf
begin

text \<open>
  Correctness of the formatted output: the digits of numbers and the size of the conversion
  buffer, the message ring, and the bounds of \<open>bmk_vsnprintf\<close>.
\<close>

section \<open>Digits\<close>

fun digits_of :: "nat \<Rightarrow> nat \<Rightarrow> nat list" where
  "digits_of b n = (if b \<le> 1 \<or> n < b then [n] else digits_of b (n div b) @ [n mod b])"

declare digits_of.simps [simp del]

definition digits_val :: "nat \<Rightarrow> nat list \<Rightarrow> nat" where
  "digits_val b ds = foldl (\<lambda>a d. a * b + d) 0 ds"

lemma digits_val_snoc [simp]: "digits_val b (ds @ [d]) = digits_val b ds * b + d"
  by (simp add: digits_val_def)

lemma digits_val_digits_of: "digits_val b (digits_of b n) = n"
proof (induction b n rule: digits_of.induct)
  case (1 b n)
  show ?case
  proof (cases "b \<le> 1 \<or> n < b")
    case True
    then show ?thesis by (simp add: digits_of.simps digits_val_def)
  next
    case False
    then show ?thesis using 1 by (subst digits_of.simps) simp
  qed
qed

lemma digits_of_less: "1 < b \<Longrightarrow> d \<in> set (digits_of b n) \<Longrightarrow> d < b"
  by (induction b n rule: digits_of.induct) (subst (asm) (2) digits_of.simps, auto split: if_splits)

lemma digits_of_nonempty [simp]: "digits_of b n \<noteq> []"
  by (subst digits_of.simps) simp

lemma length_digits_of: "1 < b \<Longrightarrow> n < b ^ Suc k \<Longrightarrow> length (digits_of b n) \<le> Suc k"
proof (induction k arbitrary: n)
  case 0
  then show ?case by (subst digits_of.simps) simp
next
  case (Suc k)
  have "n div b < b ^ Suc k"
    using Suc.prems by (subst div_less_iff_less_mult) (simp_all add: mult.commute)
  then have "length (digits_of b (n div b)) \<le> Suc k" using Suc by simp
  then show ?case by (subst digits_of.simps) simp
qed

lemma hd_digits_of: "1 < b \<Longrightarrow> hd (digits_of b n) = 0 \<longleftrightarrow> n = 0"
proof (induction b n rule: digits_of.induct)
  case (1 b n)
  show ?case
  proof (cases "b \<le> 1 \<or> n < b")
    case True
    then show ?thesis by (simp add: digits_of.simps)
  next
    case False
    then have "n div b \<noteq> 0" by (simp add: div_eq_0_iff)
    then show ?thesis using 1 False by (subst digits_of.simps) simp
  qed
qed

section \<open>The conversion buffer\<close>

lemma push_digit_ok [simp]: "length cp < KPRINTF_BUFSIZE \<Longrightarrow> push_digit c cp = Inr (c # cp)"
  by (simp add: push_digit_def)

lemma and_low: "(n::nat) AND 7 = n mod 8" "n AND 15 = n mod 16"
  using take_bit_eq_mask [of 3 n] take_bit_eq_mask [of 4 n]
  by (simp_all add: take_bit_eq_mod mask_eq_exp_minus_1)

lemma oct_digits_ok:
  "length (digits_of 8 n) + length cp \<le> KPRINTF_BUFSIZE \<Longrightarrow>
     oct_digits n cp = Inr (map to_char (digits_of 8 n) @ cp)"
proof (induction n cp rule: oct_digits.induct)
  case (1 n cp)
  show ?case
  proof (cases "n < 8")
    case True
    then show ?thesis using 1(2)
      by (subst oct_digits.simps) (simp add: and_low drop_bit_eq_div digits_of.simps)
  next
    case False
    then have d: "digits_of 8 n = digits_of 8 (n div 8) @ [n mod 8]" by (subst digits_of.simps) simp
    have "drop_bit 3 n \<noteq> 0" using False by (simp add: drop_bit_eq_div)
    then show ?thesis using 1(1) [of "to_char (n AND 7) # cp"] 1(2) unfolding d
      by (subst oct_digits.simps) (simp add: and_low drop_bit_eq_div)
  qed
qed

lemma hex_digits_ok:
  "length (digits_of 16 n) + length cp \<le> KPRINTF_BUFSIZE \<Longrightarrow>
     hex_digits xdigs n cp = Inr (map (nth xdigs) (digits_of 16 n) @ cp)"
proof (induction xdigs n cp rule: hex_digits.induct)
  case (1 xdigs n cp)
  show ?case
  proof (cases "n < 16")
    case True
    then show ?thesis using 1(2)
      by (subst hex_digits.simps) (simp add: and_low drop_bit_eq_div digits_of.simps)
  next
    case False
    then have d: "digits_of 16 n = digits_of 16 (n div 16) @ [n mod 16]" by (subst digits_of.simps) simp
    have "drop_bit 4 n \<noteq> 0" using False by (simp add: drop_bit_eq_div)
    then show ?thesis using 1(1) [of "xdigs ! (n AND 15) # cp"] 1(2) unfolding d
      by (subst hex_digits.simps) (simp add: and_low drop_bit_eq_div)
  qed
qed

lemma dec_digits_ok:
  "length (digits_of 10 n) + length cp \<le> KPRINTF_BUFSIZE \<Longrightarrow>
     dec_digits n cp = Inr (map to_char (digits_of 10 n) @ cp)"
proof (induction n cp rule: dec_digits.induct)
  case (1 n cp)
  show ?case
  proof (cases "n < 10")
    case True
    then show ?thesis using 1(2) by (subst dec_digits.simps) (simp add: digits_of.simps)
  next
    case False
    then have d: "digits_of 10 n = digits_of 10 (n div 10) @ [n mod 10]" by (subst digits_of.simps) simp
    show ?thesis using 1(1) [of "to_char (n mod 10) # cp"] 1(2) False unfolding d
      by (subst dec_digits.simps) simp
  qed
qed

text \<open>The text of a number: digits, most significant first, with the leading zero of \<open>%#o\<close>.\<close>

definition number_text :: "kbase \<Rightarrow> u8 list \<Rightarrow> bool \<Rightarrow> nat \<Rightarrow> u8 list" where
  "number_text base xdigs alt n =
     (case base of
        OCT \<Rightarrow> (if alt \<and> n \<noteq> 0 then [byte CHR ''0''] else []) @ map to_char (digits_of 8 n)
      | DEC \<Rightarrow> map to_char (digits_of 10 n)
      | HEX \<Rightarrow> map (nth xdigs) (digits_of 16 n))"

lemma u64_digits:
  fixes u :: u64
  shows "length (digits_of 8 (unat u)) \<le> 22" "length (digits_of 10 (unat u)) \<le> 20"
    "length (digits_of 16 (unat u)) \<le> 16"
proof -
  have u: "unat u < 2 ^ 64" using unsigned_less [of u] by simp
  show "length (digits_of 8 (unat u)) \<le> 22" using u length_digits_of [of 8 "unat u" 21] by simp
  show "length (digits_of 10 (unat u)) \<le> 20" using u length_digits_of [of 10 "unat u" 19] by simp
  show "length (digits_of 16 (unat u)) \<le> 16" using u length_digits_of [of 16 "unat u" 15] by simp
qed

lemma to_char_inj: "d < 208 \<Longrightarrow> to_char d = 48 \<longleftrightarrow> d = 0"
  by (auto simp: to_char_def of_nat_eq_0_iff word_of_nat_eq_0_iff dest: dvd_imp_le)

lemma conv_number_ok:
  "conv_number base xdigs u d =
     Inr (Bytes (if u = 0 \<and> d_prec d = 0 then []
                 else number_text base xdigs (f_ALT (d_flags d)) (unat u)),
          if d_prec d \<ge> 0 then upd_flags (f_ZEROPAD_update (\<lambda>_. False)) d else d)"
proof -
  note L = u64_digits [of u]
  define d' where "d' = (if d_prec d \<ge> 0 then upd_flags (f_ZEROPAD_update (\<lambda>_. False)) d else d)"
  have d': "d_prec d' = d_prec d" "f_ALT (d_flags d') = f_ALT (d_flags d)"
    by (auto simp: d'_def upd_flags_def)
  have hd: "hd (map to_char (digits_of 8 (unat u))) = 48 \<longleftrightarrow> u = 0"
    using hd_digits_of [of 8 "unat u"] digits_of_less [of 8 "hd (digits_of 8 (unat u))" "unat u"]
    by (simp add: hd_map to_char_inj unat_eq_zero)
  have "(case base of
      OCT \<Rightarrow> bindR (oct_digits (unat u) []) (\<lambda>cp.
        if f_ALT (d_flags d) \<and> hd cp \<noteq> byte CHR ''0'' then push_digit (byte CHR ''0'') cp else Inr cp)
    | DEC \<Rightarrow> dec_digits (unat u) []
    | HEX \<Rightarrow> hex_digits xdigs (unat u) []) = Inr (number_text base xdigs (f_ALT (d_flags d)) (unat u))"
    using L hd
    by (cases base) (simp_all add: number_text_def oct_digits_ok dec_digits_ok hex_digits_ok unat_eq_zero)
  then show ?thesis
    unfolding conv_number_def Let_def d'_def [symmetric] d' by (cases "u \<noteq> 0 \<or> d_prec d \<noteq> 0") auto
qed

lemma number_text_fits: "length (number_text base xdigs alt (unat (u :: u64))) \<le> KPRINTF_BUFSIZE"
  using u64_digits [of u] by (cases base) (simp_all add: number_text_def)

text \<open>
  C32. Every 64-bit number in every base is converted without overrunning the 23-byte buffer,
  whose last byte is used exactly by the leading zero of the largest octal numbers; the text
  is the digits of the number, most significant first, and a zero with an explicit precision
  of zero has no digits.
\<close>

theorem conv_number_correct:
  "conv_number base xdigs u d =
     Inr (Bytes (if u = 0 \<and> d_prec d = 0 then []
                 else number_text base xdigs (f_ALT (d_flags d)) (unat u)),
          if d_prec d \<ge> 0 then upd_flags (f_ZEROPAD_update (\<lambda>_. False)) d else d) \<and>
   length (number_text base xdigs alt (unat u)) \<le> KPRINTF_BUFSIZE \<and>
   digits_val 8 (digits_of 8 (unat u)) = unat u \<and> digits_val 10 (digits_of 10 (unat u)) = unat u \<and>
   digits_val 16 (digits_of 16 (unat u)) = unat u"
  by (simp add: conv_number_ok number_text_fits digits_val_digits_of)

section \<open>The message ring\<close>

definition ring_ok :: "kst \<Rightarrow> bool" where
  "ring_ok st \<longleftrightarrow> length (bmk_dmesg st) = BMK_DMESG_SIZE \<and> bmk_dmesgoff st < BMK_DMESG_SIZE - 1"

lemma cons_putchar_ok:
  assumes "ring_ok st"
  obtains st' where "cons_putchar st c = Inr st'" "ring_ok st'"
    "bmk_dmesg st' = (bmk_dmesg st)[bmk_dmesgoff st := c]"
    "bmk_dmesgoff st' = (bmk_dmesgoff st + 1) mod (BMK_DMESG_SIZE - 1)"
    "k_out st' = (if k_putc st then k_out st @ [c] else k_out st)" "k_putc st' = k_putc st"
    "k_mem st' = k_mem st" "k_sbuf st' = k_sbuf st"
  using assms by (auto simp: cons_putchar_def ring_ok_def Let_def)

lemma kputs_append: "kputs fl st (xs @ ys) = bindR (kputs fl st xs) (\<lambda>st. kputs fl st ys)"
proof (induction xs arbitrary: st)
  case (Cons x xs)
  then show ?case by (cases "KPRINTF_PUTCHAR fl st x") simp_all
qed simp

lemma mod_window:
  fixes a i j N :: nat
  assumes "i < j" "j < i + N"
  shows "(a + i) mod N \<noteq> (a + j) mod N"
proof
  assume "(a + i) mod N = (a + j) mod N"
  then have "N dvd (a + j) - (a + i)" using assms(1) by (intro mod_eq_dvd_iff_nat [THEN iffD1]) simp_all
  then have "N dvd j - i" by simp
  moreover have "0 < j - i" "j - i < N" using assms by simp_all
  ultimately show False using nat_dvd_not_less by blast
qed

lemma kputs_ring:
  assumes "ring_ok st"
  shows "\<exists>st'. kputs TOCONS st cs = Inr st' \<and> ring_ok st' \<and> k_putc st' = k_putc st \<and>
    k_out st' = k_out st @ (if k_putc st then cs else []) \<and>
    bmk_dmesgoff st' = (bmk_dmesgoff st + length cs) mod (BMK_DMESG_SIZE - 1) \<and>
    (\<forall>i < length cs. length cs \<le> i + (BMK_DMESG_SIZE - 1) \<longrightarrow>
       bmk_dmesg st' ! ((bmk_dmesgoff st + i) mod (BMK_DMESG_SIZE - 1)) = cs ! i)"
proof (induction cs rule: rev_induct)
  case Nil
  then show ?case using assms by (auto simp: ring_ok_def)
next
  case (snoc c cs)
  define N where "N = BMK_DMESG_SIZE - 1"
  let ?o = "bmk_dmesgoff st"
  from snoc obtain s1 where s1: "kputs TOCONS st cs = Inr s1" "ring_ok s1" "k_putc s1 = k_putc st"
    "k_out s1 = k_out st @ (if k_putc st then cs else [])" "bmk_dmesgoff s1 = (?o + length cs) mod N"
    "\<And>i. i < length cs \<Longrightarrow> length cs \<le> i + N \<Longrightarrow> bmk_dmesg s1 ! ((?o + i) mod N) = cs ! i"
    unfolding N_def by blast
  obtain s2 where s2: "cons_putchar s1 c = Inr s2" "ring_ok s2"
    "bmk_dmesg s2 = (bmk_dmesg s1)[bmk_dmesgoff s1 := c]" "bmk_dmesgoff s2 = (bmk_dmesgoff s1 + 1) mod N"
    "k_out s2 = (if k_putc s1 then k_out s1 @ [c] else k_out s1)" "k_putc s2 = k_putc s1"
    using cons_putchar_ok [OF s1(2)] unfolding N_def by blast
  have len: "bmk_dmesgoff s1 < length (bmk_dmesg s1)" using s1(2) by (simp add: ring_ok_def)
  have "bmk_dmesg s2 ! ((?o + i) mod N) = (cs @ [c]) ! i"
    if "i < Suc (length cs)" "Suc (length cs) \<le> i + N" for i
  proof (cases "i = length cs")
    case True
    then show ?thesis using s2(3) s1(5) len by simp
  next
    case False
    then have "i < length cs" "(?o + i) mod N \<noteq> bmk_dmesgoff s1"
      using that mod_window [of i "length cs" N ?o] s1(5) by auto
    then show ?thesis using s2(3) s1(6) [of i] that by (simp add: nth_append)
  qed
  moreover have "bmk_dmesgoff s2 = (?o + length (cs @ [c])) mod N"
    unfolding s2(4) s1(5) by (simp add: mod_Suc_eq)
  moreover have "kputs TOCONS st (cs @ [c]) = Inr s2"
    using s1(1) s2(1) by (simp add: kputs_append KPRINTF_PUTCHAR_def)
  ultimately show ?case using s1(3,4) s2(2,5,6) unfolding N_def by auto
qed

text \<open>
  C33. Console output from a valid ring never faults, however long it is: every character goes
  to the platform's \<open>putc\<close> in order, and the ring holds the last 16383 characters, the one
  printed as number \<open>i\<close> at position \<open>off + i\<close> modulo 16383.
\<close>

theorem dmesg_ring:
  assumes "ring_ok st"
  shows "\<exists>st'. kputs TOCONS st cs = Inr st' \<and> ring_ok st' \<and>
    k_out st' = k_out st @ (if k_putc st then cs else []) \<and>
    bmk_dmesgoff st' = (bmk_dmesgoff st + length cs) mod (BMK_DMESG_SIZE - 1) \<and>
    (\<forall>i < length cs. length cs \<le> i + (BMK_DMESG_SIZE - 1) \<longrightarrow>
       bmk_dmesg st' ! ((bmk_dmesgoff st + i) mod (BMK_DMESG_SIZE - 1)) = cs ! i)"
  using kputs_ring [OF assms, of cs] by blast

definition prf_st0 :: "mem \<Rightarrow> kst" where
  "prf_st0 M = \<lparr>k_mem = M, k_sbuf = 0, k_putc = True, k_out = [], k_flush = False, k_flushed = 0,
     bmk_dmesg = replicate BMK_DMESG_SIZE 0, bmk_dmesgoff = 0\<rparr>"

lemma ring_ok_st0: "ring_ok (prf_st0 M)"
  by (simp add: ring_ok_def prf_st0_def)

theorem dmesg_ring_witness:
  "\<exists>st'. kputs TOCONS (prf_st0 []) (bytes ''hi'') = Inr st' \<and> ring_ok st' \<and> k_out st' = bytes ''hi'' \<and>
    bmk_dmesgoff st' = 2 \<and> bmk_dmesg st' ! 1 = byte CHR ''i''"
  using dmesg_ring [OF ring_ok_st0, of "[]" "bytes ''hi''"] by (auto simp: prf_st0_def)

end
