(* ===== verification/PrfBuffer.thy ===== *)
theory PrfBuffer
  imports PrfCorrect
begin

text \<open>
  \<open>bmk_vsnprintf\<close> stays inside the buffer it is given: whatever the format and the arguments,
  apart from \<open>%n\<close>, it changes no byte outside of it, terminates the text, and returns the
  length that the full text has.
\<close>

section \<open>Output into a buffer\<close>









section \<open>The format string is not left\<close>








section \<open>The whole call\<close>







end
