(* ===== verification/StrtoulCorrect.thy ===== *)
theory StrtoulCorrect
  imports Strtoul PrfBuffer
begin

text \<open>
  Parsing numbers: the value and the end pointer of \<open>bmk_strtoul\<close> on digit strings, its
  overflow behaviour, and the round trip through \<open>bmk_vsnprintf\<close>.
\<close>

section \<open>Accumulation\<close>

text \<open>The character \<open>c\<close> and the bytes from \<open>s\<close> on are the digits \<open>ds\<close>, followed by a non-digit.\<close>

fun dig_str :: "mem \<Rightarrow> nat \<Rightarrow> u8 \<Rightarrow> nat \<Rightarrow> nat list \<Rightarrow> bool" where
  "dig_str M b c s [] \<longleftrightarrow> (case digit_of c of None \<Rightarrow> True | Some i \<Rightarrow> b \<le> i)"
| "dig_str M b c s (d # ds) \<longleftrightarrow>
     digit_of c = Some d \<and> d < b \<and> s < length M \<and> dig_str M b (M ! s) (Suc s) ds"

definition accum :: "nat \<Rightarrow> nat \<Rightarrow> nat list \<Rightarrow> nat" where
  "accum b acc ds = foldl (\<lambda>a d. a * b + d) acc ds"

lemma accum_simps [simp]: "accum b acc [] = acc" "accum b acc (d # ds) = accum b (acc * b + d) ds"
  by (simp_all add: accum_def)

lemma accum_ge: "0 < b \<Longrightarrow> acc \<le> accum b acc ds"
proof (induction ds arbitrary: acc)
  case (Cons d ds)
  have "acc \<le> acc * b + d" using Cons.prems by (cases b) simp_all
  also have "\<dots> \<le> accum b (acc * b + d) ds" by (rule Cons.IH [OF Cons.prems])
  finally show ?case by simp
qed simp

lemma cutoff_iff:
  fixes b acc i m :: nat
  assumes "0 < b" "i < b"
  shows "(acc > m div b \<or> (acc = m div b \<and> i > m mod b)) \<longleftrightarrow> acc * b + i > m"
proof -
  have m: "m = m div b * b + m mod b" by simp
  consider "acc < m div b" | "acc = m div b" | "acc > m div b" by linarith
  then show ?thesis
  proof cases
    case 1
    then have "(acc + 1) * b \<le> m div b * b" by (intro mult_le_mono1) simp
    then have "(acc + 1) * b \<le> m" using div_times_less_eq_dividend [of m b] by (rule order.trans)
    moreover have "acc * b + i < (acc + 1) * b" using assms(2) by (simp add: add_mult_distrib)
    ultimately have "\<not> m < acc * b + i" by linarith
    then show ?thesis using 1 by simp
  next
    case 2
    have "m mod b < i \<longleftrightarrow> m < m div b * b + i" by (rule iffI; use m in linarith)
    then show ?thesis using 2 by simp
  next
    case 3
    then have "(m div b + 1) * b \<le> acc * b" by (intro mult_le_mono1) simp
    moreover have "m mod b < b" using assms(1) by simp
    ultimately have "m < acc * b + i" using m unfolding add_mult_distrib by linarith
    then show ?thesis using 3 by simp
  qed
qed

lemma acc_loop_ok:
  assumes "0 < b"
  shows "dig_str M b c s ds \<Longrightarrow> accum b acc ds \<le> UINT_MAX \<Longrightarrow>
    acc_loop M b c s acc any = Inr (accum b acc ds, any \<or> ds \<noteq> [], s + length ds)"
proof (induction ds arbitrary: c s acc any)
  case Nil
  then show ?case by (subst acc_loop.simps) (auto split: option.splits)
next
  case (Cons d ds)
  let ?v = "acc * b + d"
  have le: "?v \<le> UINT_MAX" using accum_ge [OF assms, of ?v ds] Cons.prems(2) by simp
  then have "\<not> (acc > UINT_MAX div b \<or> (acc = UINT_MAX div b \<and> d > UINT_MAX mod b))"
    using cutoff_iff [OF assms, where i = d and acc = acc and m = UINT_MAX] Cons.prems(1) by simp
  moreover have "wrap64 (wrap64 (acc * b) + d) = ?v" using le by (simp add: wrap64_def mod_simps)
  ultimately show ?case
    using Cons.prems Cons.IH [of "M ! s" "Suc s" ?v True] by (subst acc_loop.simps) simp
qed

lemma acc_loop_overflow:
  assumes "0 < b"
  shows "dig_str M b c s ds \<Longrightarrow> UINT_MAX < accum b acc ds \<Longrightarrow> acc \<le> UINT_MAX \<Longrightarrow>
    \<exists>s'. acc_loop M b c s acc any = Inr (UINT_MAX, False, s')"
proof (induction ds arbitrary: c s acc any)
  case (Cons d ds)
  let ?v = "acc * b + d"
  have cut: "(acc > UINT_MAX div b \<or> (acc = UINT_MAX div b \<and> d > UINT_MAX mod b)) \<longleftrightarrow> ?v > UINT_MAX"
    using cutoff_iff [OF assms, where i = d and acc = acc and m = UINT_MAX] Cons.prems(1) by simp
  show ?case
  proof (cases "?v > UINT_MAX")
    case True
    then show ?thesis using Cons.prems cut by (subst acc_loop.simps) simp
  next
    case False
    moreover have "wrap64 (wrap64 (acc * b) + d) = ?v" using False by (simp add: wrap64_def mod_simps)
    ultimately show ?thesis
      using Cons.prems cut Cons.IH [of "M ! s" "Suc s" ?v True] by (subst acc_loop.simps) simp
  qed
qed simp

section \<open>Decimal strings\<close>

lemma strtoul_decimal:
  assumes "p < length M" "dig_str M 10 (M ! p) (Suc p) ds" "ds \<noteq> []"
  shows "bmk_strtoul M p 10 =
    Inr (if digits_val 10 ds \<le> UINT_MAX then (digits_val 10 ds, p + length ds) else (UINT_MAX, p))"
proof -
  obtain d ds' where ds: "ds = d # ds'" using assms(3) by (cases ds) auto
  then have "digit_of (M ! p) = Some d" "d < 10" using assms(2) by simp_all
  then have "\<not> is_space (M ! p)" "M ! p \<noteq> byte CHR ''-''" "M ! p \<noteq> byte CHR ''+''"
    by (auto simp: digit_of_def is_space_def word_le_nat_alt split: if_splits)
  then have pre: "skip_space M p = Inr (M ! p, Suc p)"
    "parse_sign M (M ! p) (Suc p) = Inr (False, M ! p, Suc p)"
    "parse_base M 10 (M ! p) (Suc p) = Inr (10, M ! p, Suc p)"
    using assms(1) by (simp_all add: skip_space.simps parse_sign_def parse_base_def)
  have v: "accum 10 0 ds = digits_val 10 ds" by (simp add: accum_def digits_val_def)
  show ?thesis
  proof (cases "digits_val 10 ds \<le> UINT_MAX")
    case True
    then show ?thesis
      using acc_loop_ok [OF _ assms(2), of 0 False] pre assms(3) v by (simp add: bmk_strtoul_def)
  next
    case False
    then obtain s' where "acc_loop M 10 (M ! p) (Suc p) 0 False = Inr (UINT_MAX, False, s')"
      using acc_loop_overflow [OF _ assms(2), of 0 False] v by auto
    with False pre show ?thesis by (simp add: bmk_strtoul_def)
  qed
qed

text \<open>
  C34. \<open>bmk_strtoul\<close> in base ten on a digit string that is followed by a non-digit: the value
  and a pointer behind the digits if the value fits in \<open>unsigned long\<close>; otherwise the largest
  value, with an end pointer to the start of the string.
\<close>

theorem bmk_strtoul_decimal:
  assumes "p < length M" "dig_str M 10 (M ! p) (Suc p) ds" "ds \<noteq> []"
  shows "bmk_strtoul M p 10 =
    Inr (if digits_val 10 ds \<le> UINT_MAX then (digits_val 10 ds, p + length ds) else (UINT_MAX, p))"
  by (rule strtoul_decimal [OF assms])

theorem bmk_strtoul_decimal_witness:
  "bmk_strtoul (bytes ''420'' @ [0]) 0 10 = Inr (420, 3)"
  using bmk_strtoul_decimal [of 0 "bytes ''420'' @ [0]" "[4, 2, 0]"]
  by (simp add: digit_of_def digits_val_def)

section \<open>Round trip\<close>

lemma kputs_buf_store:
  "k_sbuf st = p \<Longrightarrow> 0 < p \<Longrightarrow> p + length cs \<le> t \<Longrightarrow> t \<le> length (k_mem st) \<Longrightarrow>
     kputs (TOBUFONLY (Some t)) st cs = Inr (st\<lparr>k_mem := store (k_mem st) p cs, k_sbuf := p + length cs\<rparr>)"
  by (induction cs arbitrary: st p) (simp_all add: KPRINTF_PUTCHAR_def)

lemma digit_of_to_char: "d < 10 \<Longrightarrow> digit_of (to_char d) = Some d"
proof -
  assume d: "d < 10"
  have "unat (to_char d) = d + 48"
    unfolding to_char_def using d by (simp add: unat_word_ariths unat_of_nat)
  moreover have "byte CHR ''0'' \<le> to_char d" "to_char d \<le> byte CHR ''9''"
    using d calculation by (simp_all add: word_le_nat_alt)
  ultimately show ?thesis by (simp add: digit_of_def)
qed

lemma dig_str_store:
  assumes "M ! (s + length ds) = 0" "s + length ds < length M" "\<And>d. d \<in> set ds \<Longrightarrow> d < 10"
    "\<And>i. i < length ds \<Longrightarrow> M ! (s + i) = to_char (ds ! i)"
  shows "dig_str M 10 (M ! s) (Suc s) ds"
  using assms
proof (induction ds arbitrary: s)
  case Nil
  then show ?case by (simp add: digit_of_def)
next
  case (Cons d ds)
  have "M ! s = to_char d" using Cons.prems(4) [of 0] by simp
  moreover have "dig_str M 10 (M ! Suc s) (Suc (Suc s)) ds"
  proof (rule Cons.IH)
    fix i assume "i < length ds"
    then show "M ! (Suc s + i) = to_char (ds ! i)" using Cons.prems(4) [of "Suc i"] by simp
  qed (use Cons.prems in auto)
  ultimately show ?case using Cons.prems(2,3) by (simp add: digit_of_to_char)
qed

text \<open>The format \<open>%lu\<close>.\<close>

lemma kprintf_lu:
  fixes u :: u64
  defines "tx \<equiv> map to_char (digits_of 10 (unat u))"
  assumes f: "str_at (k_mem st) fmt (bytes ''%lu'')" and b: "0 < bf" "k_sbuf st = bf"
    and t: "bf + length tx \<le> t" "t \<le> length (k_mem st)" and sep: "apart bf (length tx) fmt 4"
  shows "kprintf_loop (TOBUFONLY (Some t)) st fmt [u] 0 =
    Inr (st\<lparr>k_mem := store (k_mem st) bf tx, k_sbuf := bf + length tx\<rparr>, int (length tx))"
proof -
  let ?M = "k_mem st" and ?fl = "TOBUFONLY (Some t)"
  define d where "d = (new_dir [u])\<lparr>d_flags := no_flags\<lparr>f_LONGINT := True\<rparr>\<rparr>"
  have m: "Suc (Suc (Suc fmt)) < length ?M" "?M ! fmt = byte CHR ''%''" "?M ! Suc fmt = byte CHR ''l''"
    "?M ! Suc (Suc fmt) = byte CHR ''u''" "?M ! Suc (Suc (Suc fmt)) = 0"
    using f by simp_all
  have r: "reswitch ?M (byte CHR ''l'') (Suc (Suc fmt)) (new_dir [u]) = Inr (byte CHR ''u'', Suc (Suc (Suc fmt)), d)"
    using m by (subst reswitch.simps, simp add: rflag_char_def upd_flags_def new_dir_def d_def)
      (subst reswitch.simps, simp add: rflag_char_def)
  have len: "length tx \<le> 20" using u64_digits(2) by (simp add: tx_def)
  have c: "convert ?M 0 (byte CHR ''u'') d = Inr (K_field (byte CHR ''u'') (Bytes tx) (d\<lparr>d_ap := []\<rparr>) (- 1))"
    by (simp add: convert_def conv_unsigned_def UARG_def va_slot_def d_def new_dir_def no_flags_def is_wide_def
        number_field_def conv_number_ok nosign_def number_text_def tx_def)
  have "kputs ?fl st tx = Inr (st\<lparr>k_mem := store ?M bf tx, k_sbuf := bf + length tx\<rparr>)"
    using b t by (intro kputs_buf_store) simp_all
  then have e: "emit_field ?fl st 0 (byte CHR ''u'') (Bytes tx) (d\<lparr>d_ap := []\<rparr>) (- 1) =
      Inr (st\<lparr>k_mem := store ?M bf tx, k_sbuf := bf + length tx\<rparr>, int (length tx))"
    using len by (simp add: emit_field_def field_prefix_def field_suffix_def real_size_def pad_def d_def
        new_dir_def no_flags_def max_def Let_def)
  have "store ?M bf tx ! Suc (Suc (Suc fmt)) = 0"
    using m(5) sep t by (subst nth_store) (auto simp: apart_def)
  then have z: "kprintf_loop ?fl (st\<lparr>k_mem := store ?M bf tx, k_sbuf := bf + length tx\<rparr>)
      (Suc (Suc (Suc fmt))) [] (int (length tx)) =
      Inr (st\<lparr>k_mem := store ?M bf tx, k_sbuf := bf + length tx\<rparr>, int (length tx))"
    using m(1) by (subst kprintf_loop.simps) simp
  show ?thesis
    using m r c e z by (subst kprintf_loop.simps) simp
qed

lemma vsnprintf_lu:
  fixes u :: u64
  defines "ds \<equiv> digits_of 10 (unat u)"
  assumes "str_at (k_mem st) fmt (bytes ''%lu'')" "apart bf sz fmt 4" "0 < bf" "21 \<le> sz"
    "bf + sz \<le> length (k_mem st)" "bf + sz < 2 ^ 64"
  obtains st' where "bmk_vsnprintf st bf sz fmt [u] = Inr (st', int (length ds))"
    "k_mem st' = (store (k_mem st) bf (map to_char ds))[bf + length ds := 0]"
proof -
  define tx where "tx = map to_char ds"
  have len: "length ds \<le> 20" using u64_digits(2) by (simp add: ds_def)
  have sep: "apart bf (length ds) fmt 4" using assms(3,5) len by (auto simp: apart_def)
  have loop: "kprintf_loop (TOBUFONLY (Some (bf + sz))) (st\<lparr>k_sbuf := bf\<rparr>) fmt [u] 0 =
      Inr (st\<lparr>k_mem := store (k_mem st) bf tx, k_sbuf := bf + length tx\<rparr>, int (length tx))"
    using kprintf_lu [of "st\<lparr>k_sbuf := bf\<rparr>" fmt bf u "bf + sz"] assms(2-7) len sep
    by (simp add: tx_def ds_def [symmetric])
  have nul: "nul_pos sz (int (length tx)) = length ds"
    using len assms(5) by (simp add: nul_pos_def tx_def)
  have w: "wrap64 (bf + sz) = bf + sz" using assms(7) by (simp add: wrap64_def)
  show ?thesis
    using that loop assms(4,5,6) len unfolding bmk_vsnprintf_def kprintf_def w
    by (simp add: nul) (auto simp: tx_def)
qed

text \<open>
  C31. Round trip: what \<open>bmk_vsnprintf\<close> prints for any \<open>unsigned long\<close> with the format \<open>%lu\<close>
  into a large enough buffer, \<open>bmk_strtoul\<close> reads back as the same number, and it stops at the
  terminator.
\<close>

theorem print_parse_unsigned_long:
  assumes "str_at (k_mem st) fmt (bytes ''%lu'')" "apart bf sz fmt 4" "0 < bf" "21 \<le> sz"
    "bf + sz \<le> length (k_mem st)" "bf + sz < 2 ^ 64"
  shows "\<exists>st' r. bmk_vsnprintf st bf sz fmt [u] = Inr (st', r) \<and>
    bmk_strtoul (k_mem st') bf 10 = Inr (unat u, bf + nat r)"
proof -
  define ds where "ds = digits_of 10 (unat u)"
  have len: "length ds \<le> 20" "ds \<noteq> []" using u64_digits(2) by (simp_all add: ds_def)
  let ?M = "(store (k_mem st) bf (map to_char ds))[bf + length ds := 0]"
  obtain st' where st': "bmk_vsnprintf st bf sz fmt [u] = Inr (st', int (length ds))" "k_mem st' = ?M"
    using vsnprintf_lu [OF assms] unfolding ds_def by blast
  have "dig_str ?M 10 (?M ! bf) (Suc bf) ds"
    using len assms(4,5) digits_of_less [of 10 _ "unat u"]
    by (intro dig_str_store) (auto simp: nth_store ds_def)
  moreover have "digits_val 10 ds = unat u" by (simp add: ds_def digits_val_digits_of)
  moreover have "unat u < 2 ^ 64" using unsigned_less [of u] by simp
  ultimately have "bmk_strtoul ?M bf 10 = Inr (unat u, bf + length ds)"
    using strtoul_decimal [of bf ?M ds] len(2) assms(4,5) by simp
  then show ?thesis using st' by auto
qed

definition lu_st :: kst where
  "lu_st = prf_st0 (0 # bytes ''%lu'' @ [0] @ replicate 30 7)"

theorem print_parse_unsigned_long_witness:
  "\<exists>st' r. bmk_vsnprintf lu_st 5 25 1 [2 ^ 64 - 1] = Inr (st', r) \<and>
    bmk_strtoul (k_mem st') 5 10 = Inr (2 ^ 64 - 1, 5 + nat r)"
  using print_parse_unsigned_long [of lu_st 1 5 25 "2 ^ 64 - 1"]
  by (simp add: lu_st_def prf_st0_def apart_def)


end
