(* ===== verification/Jsmn.thy ===== *)
theory Jsmn
  imports BmkPrelude
begin

text \<open>
  The JSON tokeniser, \<open>lib/libbmk_core/jsmn.c\<close>, in the configuration it is built in: neither
  \<open>JSMN_STRICT\<close> nor \<open>JSMN_PARENT_LINKS\<close>. The text is byte memory, the token array a list, or
  None for the null pointer of a counting pass. Positions are \<open>unsigned int\<close> and wrap around at
  \<open>2 ^ 32\<close>; they are stored in tokens as \<open>int\<close>. Since a position that wraps lets the loops run
  forever, each loop is given one more round than the text has bytes.
\<close>

section \<open>Types\<close>

datatype jsmntype = JSMN_PRIMITIVE | JSMN_OBJECT | JSMN_ARRAY | JSMN_STRING

abbreviation JSMN_ERROR_NOMEM :: int where "JSMN_ERROR_NOMEM \<equiv> - 1"
abbreviation JSMN_ERROR_INVAL :: int where "JSMN_ERROR_INVAL \<equiv> - 2"
abbreviation JSMN_ERROR_PART :: int where "JSMN_ERROR_PART \<equiv> - 3"

record jsmntok =
  jt_type :: jsmntype
  jt_start :: int
  jt_end :: int
  jt_size :: int

record jsmn_parser =
  pos :: nat
  toknext :: nat
  toksuper :: int

text \<open>Unsigned 32-bit steps, and the conversion to \<open>int\<close>.\<close>

definition inc32 :: "nat \<Rightarrow> nat" where
  "inc32 n = (n + 1) mod 2 ^ 32"

definition dec32 :: "nat \<Rightarrow> nat" where
  "dec32 n = (n + (2 ^ 32 - 1)) mod 2 ^ 32"

definition to_int32 :: "nat \<Rightarrow> int" where
  "to_int32 n = (let k = n mod 2 ^ 32 in if k < 2 ^ 31 then int k else int k - 2 ^ 32)"

text \<open>Access to the token array.\<close>

definition tok_at :: "jsmntok list \<Rightarrow> int \<Rightarrow> jsmntok res" where
  "tok_at ts i = guardR (0 \<le> i \<and> nat i < length ts) Out_of_bounds (Inr (ts ! nat i))"

definition tok_grow :: "jsmntok list \<Rightarrow> int \<Rightarrow> jsmntok list res" where
  "tok_grow ts i = bindR (tok_at ts i) (\<lambda>t. Inr (ts[nat i := t\<lparr>jt_size := jt_size t + 1\<rparr>]))"

definition is_open :: "jsmntok \<Rightarrow> bool" where
  "is_open t \<longleftrightarrow> jt_start t \<noteq> - 1 \<and> jt_end t = - 1"

definition is_container :: "jsmntype \<Rightarrow> bool" where
  "is_container ty \<longleftrightarrow> ty = JSMN_ARRAY \<or> ty = JSMN_OBJECT"

section \<open>Tokens\<close>

definition jsmn_alloc_token ::
  "jsmn_parser \<Rightarrow> jsmntok list \<Rightarrow> nat \<Rightarrow> (nat option \<times> jsmn_parser \<times> jsmntok list) res" where
  "jsmn_alloc_token parser tokens num_tokens =
     (if toknext parser \<ge> num_tokens then Inr (None, parser, tokens)
      else let i = toknext parser in
        bindR (tok_at tokens (int i)) (\<lambda>tok.
          Inr (Some i, parser\<lparr>toknext := inc32 i\<rparr>,
               tokens[i := tok\<lparr>jt_start := - 1, jt_end := - 1, jt_size := 0\<rparr>])))"

definition jsmn_fill_token :: "jsmntok \<Rightarrow> jsmntype \<Rightarrow> int \<Rightarrow> int \<Rightarrow> jsmntok" where
  "jsmn_fill_token token type start e =
     token\<lparr>jt_type := type, jt_start := start, jt_end := e, jt_size := 0\<rparr>"

section \<open>Primitives\<close>

definition prim_delim :: "u8 \<Rightarrow> bool" where
  "prim_delim c \<longleftrightarrow> c \<in> {byte CHR '':'', 9, 13, 10, 32, byte CHR '','', byte CHR '']'', byte CHR ''}''}"

text \<open>The scan of \<open>jsmn_parse_primitive\<close>: whether it found an end, and where.\<close>

fun prim_scan :: "nat \<Rightarrow> mem \<Rightarrow> nat \<Rightarrow> nat \<Rightarrow> (bool \<times> nat) res" where
  "prim_scan 0 js len p = Inl Out_of_fuel"
| "prim_scan (Suc n) js len p =
     (if p < len then
        bindR (rd js p) (\<lambda>c.
          if c = 0 \<or> prim_delim c then Inr (True, p)
          else if c < 32 \<or> 127 \<le> c then Inr (False, p)
          else prim_scan n js len (inc32 p))
      else Inr (True, p))"

text \<open>A token for the text from \<open>start\<close> to \<open>e\<close>, or none in a counting pass; then the new position.\<close>

definition new_token ::
  "jsmntype \<Rightarrow> nat \<Rightarrow> nat \<Rightarrow> nat \<Rightarrow> jsmn_parser \<Rightarrow> jsmntok list option \<Rightarrow> nat \<Rightarrow>
     (int \<times> jsmn_parser \<times> jsmntok list option) res" where
  "new_token type start e newpos parser tokens num_tokens =
     (case tokens of
        None \<Rightarrow> Inr (0, parser\<lparr>pos := newpos\<rparr>, None)
      | Some ts \<Rightarrow>
          bindR (jsmn_alloc_token parser ts num_tokens) (\<lambda>(token, parser, ts). case token of
              None \<Rightarrow> Inr (JSMN_ERROR_NOMEM, parser, Some ts)
            | Some i \<Rightarrow> Inr (0, parser\<lparr>pos := newpos\<rparr>,
                Some (ts[i := jsmn_fill_token (ts ! i) type (to_int32 start) (to_int32 e)]))))"

definition jsmn_parse_primitive ::
  "jsmn_parser \<Rightarrow> mem \<Rightarrow> nat \<Rightarrow> jsmntok list option \<Rightarrow> nat \<Rightarrow> (int \<times> jsmn_parser \<times> jsmntok list option) res" where
  "jsmn_parse_primitive parser js len tokens num_tokens =
     bindR (prim_scan (Suc len) js len (pos parser)) (\<lambda>(found, p).
       if found then new_token JSMN_PRIMITIVE (pos parser) p (dec32 p) parser tokens num_tokens
       else Inr (JSMN_ERROR_INVAL, parser, tokens))"

section \<open>Strings\<close>

definition is_hex :: "u8 \<Rightarrow> bool" where
  "is_hex c \<longleftrightarrow> 48 \<le> c \<and> c \<le> 57 \<or> 65 \<le> c \<and> c \<le> 70 \<or> 97 \<le> c \<and> c \<le> 102"

text \<open>The digits after a backslash and \<open>u\<close>, at most \<open>k\<close> of them; None for an invalid one.\<close>

fun hex_scan :: "nat \<Rightarrow> mem \<Rightarrow> nat \<Rightarrow> nat \<Rightarrow> nat option res" where
  "hex_scan 0 js len p = Inr (Some p)"
| "hex_scan (Suc k) js len p =
     (if p < len then
        bindR (rd js p) (\<lambda>c.
          if c = 0 then Inr (Some p)
          else if \<not> is_hex c then Inr None
          else hex_scan k js len (inc32 p))
      else Inr (Some p))"

datatype str_end = Str_quote nat | Str_inval | Str_part

definition simple_escape :: "u8 \<Rightarrow> bool" where
  "simple_escape c \<longleftrightarrow> c \<in> {0x22, byte CHR ''/'', 0x5C, byte CHR ''b'', byte CHR ''f'', byte CHR ''r'',
     byte CHR ''n'', byte CHR ''t''}"

fun str_scan :: "nat \<Rightarrow> mem \<Rightarrow> nat \<Rightarrow> nat \<Rightarrow> str_end res" where
  "str_scan 0 js len p = Inl Out_of_fuel"
| "str_scan (Suc n) js len p =
     (if p < len then
        bindR (rd js p) (\<lambda>c.
          if c = 0 then Inr Str_part
          else if c = 0x22 then Inr (Str_quote p)
          else if c = 0x5C \<and> inc32 p < len then
            bindR (rd js (inc32 p)) (\<lambda>e.
              if simple_escape e then str_scan n js len (inc32 (inc32 p))
              else if e = byte CHR ''u'' then
                bindR (hex_scan 4 js len (inc32 (inc32 p))) (\<lambda>h. case h of
                    None \<Rightarrow> Inr Str_inval
                  | Some q \<Rightarrow> str_scan n js len (inc32 (dec32 q)))
              else Inr Str_inval)
          else str_scan n js len (inc32 p))
      else Inr Str_part)"

definition jsmn_parse_string ::
  "jsmn_parser \<Rightarrow> mem \<Rightarrow> nat \<Rightarrow> jsmntok list option \<Rightarrow> nat \<Rightarrow> (int \<times> jsmn_parser \<times> jsmntok list option) res" where
  "jsmn_parse_string parser js len tokens num_tokens =
     bindR (str_scan (Suc len) js len (inc32 (pos parser))) (\<lambda>r. case r of
         Str_quote p \<Rightarrow> new_token JSMN_STRING (pos parser + 1) p p parser tokens num_tokens
       | Str_inval \<Rightarrow> Inr (JSMN_ERROR_INVAL, parser, tokens)
       | Str_part \<Rightarrow> Inr (JSMN_ERROR_PART, parser, tokens))"

section \<open>The parser\<close>

text \<open>The backward searches for a token that has been opened and not closed.\<close>

fun find_open :: "jsmntok list \<Rightarrow> nat \<Rightarrow> nat option res" where
  "find_open ts 0 = Inr None"
| "find_open ts (Suc i) =
     bindR (tok_at ts (int i)) (\<lambda>token. if is_open token then Inr (Some i) else find_open ts i)"

fun find_open_container :: "jsmntok list \<Rightarrow> nat \<Rightarrow> nat option res" where
  "find_open_container ts 0 = Inr None"
| "find_open_container ts (Suc i) =
     bindR (tok_at ts (int i)) (\<lambda>token.
       if is_container (jt_type token) \<and> is_open token then Inr (Some i) else find_open_container ts i)"

text \<open>
  One character of \<open>jsmn_parse\<close>. The first component is the value to return, None to go on.
  The backward loops count in \<open>int\<close>, for which the number of tokens must be small enough.
\<close>

type_synonym jsmn_state = "jsmn_parser \<times> jsmntok list option \<times> int"

definition jsmn_opening :: "u8 \<Rightarrow> nat \<Rightarrow> jsmn_state \<Rightarrow> (int option \<times> jsmn_state) res" where
  "jsmn_opening c num_tokens st =
     (let (parser, tokens, count) = st; count = count + 1 in
      case tokens of
        None \<Rightarrow> Inr (None, parser, None, count)
      | Some ts \<Rightarrow>
          bindR (jsmn_alloc_token parser ts num_tokens) (\<lambda>(token, parser, ts). case token of
              None \<Rightarrow> Inr (Some JSMN_ERROR_NOMEM, parser, Some ts, count)
            | Some i \<Rightarrow>
                bindR (if toksuper parser \<noteq> - 1 then tok_grow ts (toksuper parser) else Inr ts) (\<lambda>ts.
                  Inr (None, parser\<lparr>toksuper := to_int32 (dec32 (toknext parser))\<rparr>,
                    Some (ts[i := (ts ! i)\<lparr>jt_type := (if c = byte CHR ''{'' then JSMN_OBJECT else JSMN_ARRAY),
                                           jt_start := to_int32 (pos parser)\<rparr>]), count))))"

definition jsmn_closing :: "u8 \<Rightarrow> jsmn_state \<Rightarrow> (int option \<times> jsmn_state) res" where
  "jsmn_closing c st =
     (let (parser, tokens, count) = st in
      case tokens of
        None \<Rightarrow> Inr (None, parser, None, count)
      | Some ts \<Rightarrow>
          guardR (toknext parser \<le> 2 ^ 31) Int_overflow
          (bindR (find_open ts (toknext parser)) (\<lambda>m. case m of
              None \<Rightarrow> Inr (Some JSMN_ERROR_INVAL, parser, Some ts, count)
            | Some i \<Rightarrow>
                if jt_type (ts ! i) \<noteq> (if c = byte CHR ''}'' then JSMN_OBJECT else JSMN_ARRAY)
                then Inr (Some JSMN_ERROR_INVAL, parser, Some ts, count)
                else
                  let ts = ts[i := (ts ! i)\<lparr>jt_end := to_int32 (inc32 (pos parser))\<rparr>] in
                  bindR (find_open ts (Suc i)) (\<lambda>k.
                    Inr (None, parser\<lparr>toksuper := (case k of None \<Rightarrow> - 1 | Some k \<Rightarrow> int k)\<rparr>, Some ts, count)))))"

definition jsmn_comma :: "jsmn_state \<Rightarrow> (int option \<times> jsmn_state) res" where
  "jsmn_comma st =
     (let (parser, tokens, count) = st in
      case tokens of
        None \<Rightarrow> Inr (None, st)
      | Some ts \<Rightarrow>
          bindR (tok_at ts (toksuper parser)) (\<lambda>super.
            if is_container (jt_type super) then Inr (None, st)
            else
              guardR (toknext parser \<le> 2 ^ 31) Int_overflow
              (bindR (find_open_container ts (toknext parser)) (\<lambda>k.
                Inr (None, parser\<lparr>toksuper := (case k of None \<Rightarrow> toksuper parser | Some k \<Rightarrow> int k)\<rparr>,
                     tokens, count)))))"

text \<open>After a string or a primitive: an error is returned, a value counts for its superior token.\<close>

definition jsmn_value ::
  "(int \<times> jsmn_parser \<times> jsmntok list option) res \<Rightarrow> int \<Rightarrow> (int option \<times> jsmn_state) res" where
  "jsmn_value r count =
     bindR r (\<lambda>(r, parser, tokens).
       if r < 0 then Inr (Some r, parser, tokens, count)
       else case tokens of
           None \<Rightarrow> Inr (None, parser, None, count + 1)
         | Some ts \<Rightarrow>
             bindR (if toksuper parser \<noteq> - 1 then tok_grow ts (toksuper parser) else Inr ts) (\<lambda>ts.
               Inr (None, parser, Some ts, count + 1)))"

definition jsmn_char :: "mem \<Rightarrow> nat \<Rightarrow> nat \<Rightarrow> u8 \<Rightarrow> jsmn_state \<Rightarrow> (int option \<times> jsmn_state) res" where
  "jsmn_char js len num_tokens c st =
     (let (parser, tokens, count) = st in
      if c = byte CHR ''{'' \<or> c = byte CHR ''['' then jsmn_opening c num_tokens st
      else if c = byte CHR ''}'' \<or> c = byte CHR '']'' then jsmn_closing c st
      else if c = 0x22 then jsmn_value (jsmn_parse_string parser js len tokens num_tokens) count
      else if c \<in> {9, 13, 10, 32} then Inr (None, st)
      else if c = byte CHR '':'' then
        Inr (None, parser\<lparr>toksuper := to_int32 (dec32 (toknext parser))\<rparr>, tokens, count)
      else if c = byte CHR '','' then jsmn_comma st
      else jsmn_value (jsmn_parse_primitive parser js len tokens num_tokens) count)"

text \<open>After the loop: a token that is still open makes the text incomplete.\<close>

definition jsmn_finish :: "jsmn_state \<Rightarrow> (int \<times> jsmn_parser \<times> jsmntok list option) res" where
  "jsmn_finish st =
     (let (parser, tokens, count) = st in
      guardR (toknext parser \<le> 2 ^ 31) Int_overflow
      (case tokens of
         None \<Rightarrow> guardR (toknext parser = 0) Null_deref (Inr (count, parser, None))
       | Some ts \<Rightarrow>
           bindR (find_open ts (toknext parser)) (\<lambda>m.
             Inr (if m = None then count else JSMN_ERROR_PART, parser, tokens))))"

fun jsmn_loop :: "nat \<Rightarrow> mem \<Rightarrow> nat \<Rightarrow> nat \<Rightarrow> jsmn_state \<Rightarrow> (int \<times> jsmn_parser \<times> jsmntok list option) res" where
  "jsmn_loop 0 js len num_tokens st = Inl Out_of_fuel"
| "jsmn_loop (Suc n) js len num_tokens st =
     (if pos (fst st) < len then
        bindR (rd js (pos (fst st))) (\<lambda>c.
          if c = 0 then jsmn_finish st
          else bindR (jsmn_char js len num_tokens c st) (\<lambda>(ret, parser, tokens, count). case ret of
              Some r \<Rightarrow> Inr (r, parser, tokens)
            | None \<Rightarrow> jsmn_loop n js len num_tokens (parser\<lparr>pos := inc32 (pos parser)\<rparr>, tokens, count)))
      else jsmn_finish st)"

definition jsmn_parse ::
  "jsmn_parser \<Rightarrow> mem \<Rightarrow> nat \<Rightarrow> jsmntok list option \<Rightarrow> nat \<Rightarrow> (int \<times> jsmn_parser \<times> jsmntok list option) res" where
  "jsmn_parse parser js len tokens num_tokens = jsmn_loop (Suc len) js len num_tokens (parser, tokens, 0)"

definition jsmn_init :: jsmn_parser where
  "jsmn_init = \<lparr>pos = 0, toknext = 0, toksuper = - 1\<rparr>"

end
