(* ===== verification/JsmnCorrect.thy ===== *)
theory JsmnCorrect
  imports Jsmn
begin

text \<open>
  What the tokeniser guarantees: it ends, it stays inside the text and the token array except
  for one read that is characterised exactly, its tokens delimit what their types say, and the
  counting pass predicts the number of tokens.
\<close>

section \<open>Positions below two gigabytes\<close>

lemma inc32_small [simp]: "n < 2147483648 \<Longrightarrow> inc32 n = Suc n"
  by (simp add: inc32_def)

lemma dec32_small [simp]: "0 < n \<Longrightarrow> n \<le> 2147483648 \<Longrightarrow> dec32 n = n - 1"
  by (simp add: dec32_def mod_if)

lemma to_int32_small [simp]: "n < 2147483648 \<Longrightarrow> to_int32 n = int n"
  by (simp add: to_int32_def)

lemma to_int32_pred: "n \<le> 2147483648 \<Longrightarrow> to_int32 (dec32 n) = int n - 1"
  by (cases "n = 0") (auto simp: to_int32_def dec32_def mod_if of_nat_diff Let_def)

section \<open>The scans\<close>

abbreviation text_ok :: "mem \<Rightarrow> nat \<Rightarrow> bool" where
  "text_ok js len \<equiv> len \<le> length js \<and> len < 2147483648"

lemma prim_scan_ok:
  assumes tx: "text_ok js len" and p: "p \<le> len" "len - p < n"
  obtains f q where "prim_scan n js len p = Inr (f, q)" "p \<le> q" "q \<le> len"
    "p < len \<Longrightarrow> js ! p \<noteq> 0 \<Longrightarrow> \<not> prim_delim (js ! p) \<Longrightarrow> f \<Longrightarrow> p < q"
proof -
  have readable: "len \<le> length js" and small: "len < 2147483648" using tx by simp_all
  have "\<exists>f q. prim_scan n js len p = Inr (f, q) \<and> p \<le> q \<and> q \<le> len \<and>
    (p < len \<and> js ! p \<noteq> 0 \<and> \<not> prim_delim (js ! p) \<and> f \<longrightarrow> p < q)"
    using p
  proof (induction n arbitrary: p)
    case (Suc n)
    show ?case
    proof (cases "p < len \<and> js ! p \<noteq> 0 \<and> \<not> prim_delim (js ! p) \<and> \<not> (js ! p < 32 \<or> 127 \<le> js ! p)")
      case True
      then have "inc32 p = Suc p" using small by simp
      moreover obtain f q where "prim_scan n js len (Suc p) = Inr (f, q)" "Suc p \<le> q" "q \<le> len"
        using Suc.IH [of "Suc p"] Suc.prems True by (auto simp: less_diff_conv2)
      ultimately show ?thesis using True readable by auto
    next
      case False
      then show ?thesis using Suc.prems readable by auto
    qed
  qed simp
  then show thesis using that by blast
qed

lemma hex_scan_ok:
  assumes tx: "text_ok js len" and p: "p \<le> len"
  obtains h where "hex_scan k js len p = Inr h" "\<forall>q. h = Some q \<longrightarrow> p \<le> q \<and> q \<le> len"
proof -
  have readable: "len \<le> length js" and small: "len < 2147483648" using tx by simp_all
  have "\<exists>h. hex_scan k js len p = Inr h \<and> (\<forall>q. h = Some q \<longrightarrow> p \<le> q \<and> q \<le> len)"
    using p
  proof (induction k arbitrary: p)
    case (Suc k)
    show ?case
    proof (cases "p < len \<and> js ! p \<noteq> 0 \<and> is_hex (js ! p)")
      case True
      then have "inc32 p = Suc p" using small by simp
      moreover obtain h where "hex_scan k js len (Suc p) = Inr h" "\<forall>q. h = Some q \<longrightarrow> Suc p \<le> q \<and> q \<le> len"
        using Suc.IH [of "Suc p"] True by auto
      ultimately show ?thesis using True readable by auto
    next
      case False
      then show ?thesis using Suc.prems readable by auto
    qed
  qed simp
  then show thesis using that by blast
qed

lemma str_scan_ok:
  assumes tx: "text_ok js len" and p: "p \<le> len" "len - p < n"
  obtains r where "str_scan n js len p = Inr r" "\<forall>q. r = Str_quote q \<longrightarrow> p \<le> q \<and> q < len \<and> js ! q = 0x22"
proof -
  have readable: "len \<le> length js" and small: "len < 2147483648" using tx by simp_all
  have "\<exists>r. str_scan n js len p = Inr r \<and> (\<forall>q. r = Str_quote q \<longrightarrow> p \<le> q \<and> q < len \<and> js ! q = 0x22)"
    using p
  proof (induction n arbitrary: p)
    case (Suc n)
    have IH: "\<exists>r. str_scan n js len q = Inr r \<and> (\<forall>k. r = Str_quote k \<longrightarrow> p \<le> k \<and> k < len \<and> js ! k = 0x22)"
      if "p < q" "q \<le> len" for q
      using Suc.IH [of q] Suc.prems that by fastforce
    show ?case
    proof (cases "p < len")
      case True
      then have i1: "inc32 p = Suc p" using small by simp
      have i2: "inc32 (Suc p) = Suc (Suc p)" if "Suc p < len" using that small by simp
      show ?thesis
      proof (cases "js ! p \<noteq> 0 \<and> js ! p \<noteq> 0x22 \<and> js ! p = 0x5C \<and> Suc p < len \<and> \<not> simple_escape (js ! Suc p) \<and> js ! Suc p = byte CHR ''u''")
        case True
        then have sp: "Suc (Suc p) \<le> len" by simp
        obtain h where h: "hex_scan 4 js len (Suc (Suc p)) = Inr h" "\<forall>q. h = Some q \<longrightarrow> Suc (Suc p) \<le> q \<and> q \<le> len"
          by (rule hex_scan_ok [OF tx sp, of 4])
        show ?thesis
        proof (cases h)
          case None
          then show ?thesis using True \<open>p < len\<close> readable i1 i2 h(1) by auto
        next
          case (Some q)
          then have q: "Suc (Suc p) \<le> q" "q \<le> len" using h(2) by simp_all
          then have "inc32 (dec32 q) = q" using small by (cases q) simp_all
          then show ?thesis using True \<open>p < len\<close> readable i1 i2 h(1) Some IH [of q] q by auto
        qed
      next
        case False
        then show ?thesis using \<open>p < len\<close> readable i1 i2 IH [of "Suc p"] IH [of "Suc (Suc p)"] by auto
      qed
    next
      case False
      then show ?thesis by simp
    qed
  qed simp
  then show thesis using that by blast
qed

text \<open>A scan that ends before position \<open>k\<close> does so as well in the text cut off there.\<close>

lemma prim_scan_range:
  assumes "prim_scan n js len p = Inr (f, q)" "p \<le> len" "len < 2147483648"
  shows "p \<le> q \<and> q \<le> len"
  using assms
proof (induction n arbitrary: p)
  case (Suc n)
  show ?case
  proof (cases "p < len")
    case True
    then obtain c where c: "rd js p = Inr c" using Suc.prems(1) by (cases "rd js p") simp_all
    have "inc32 p = Suc p" using True Suc.prems(3) by simp
    then show ?thesis using Suc.prems Suc.IH [of "Suc p"] c True by (auto split: if_splits)
  qed (use Suc.prems in simp)
qed simp

lemma prim_scan_cut:
  assumes "prim_scan n js len p = Inr (True, q)" "q \<le> k" "k \<le> len" "len < 2147483648" "p \<le> k" "k - p < n'"
  shows "prim_scan n' js k p = Inr (True, q)"
  using assms
proof (induction n arbitrary: p n')
  case (Suc n)
  obtain m where m: "n' = Suc m" using Suc.prems(6) by (cases n') simp_all
  show ?case
  proof (cases "p < k")
    case True
    then have pl: "p < len" "inc32 p = Suc p" using Suc.prems(3,4) by simp_all
    obtain c where c: "rd js p = Inr c" using Suc.prems(1) pl by (cases "rd js p") simp_all
    have "prim_scan m js k (Suc p) = Inr (True, q)" if "prim_scan n js len (Suc p) = Inr (True, q)"
      by (rule Suc.IH [OF that]) (use Suc.prems True m in simp_all)
    then show ?thesis using Suc.prems(1) pl True c by (auto simp: m split: if_splits)
  next
    case False
    then have "p = k" using Suc.prems(5) by simp
    moreover have "p \<le> q" using prim_scan_range [OF Suc.prems(1)] Suc.prems(3-5) by simp
    ultimately show ?thesis using Suc.prems(2) by (simp add: m)
  qed
qed simp

lemma hex_scan_range:
  assumes "hex_scan m js len p = Inr (Some q)" "p \<le> len" "len < 2147483648"
  shows "p \<le> q \<and> q \<le> len"
  using assms
proof (induction m arbitrary: p)
  case (Suc m)
  show ?case
  proof (cases "p < len")
    case True
    then obtain c where c: "rd js p = Inr c" using Suc.prems(1) by (cases "rd js p") simp_all
    have "inc32 p = Suc p" using True Suc.prems(3) by simp
    then show ?thesis using Suc.prems Suc.IH [of "Suc p"] c True by (auto split: if_splits)
  qed (use Suc.prems in simp)
qed simp

lemma hex_scan_cut:
  assumes "hex_scan m js len p = Inr (Some q)" "q < k" "k \<le> len" "len < 2147483648" "p \<le> len"
  shows "hex_scan m js k p = Inr (Some q)"
  using assms
proof (induction m arbitrary: p)
  case (Suc m)
  show ?case
  proof (cases "p < len")
    case True
    then obtain c where c: "rd js p = Inr c" using Suc.prems(1) by (cases "rd js p") simp_all
    have "inc32 p = Suc p" using True Suc.prems(4) by simp
    moreover have "p < k" using hex_scan_range [OF Suc.prems(1,5,4)] Suc.prems(2) by simp
    ultimately show ?thesis using Suc.prems Suc.IH [of "Suc p"] c True by (auto split: if_splits)
  qed (use Suc.prems in simp)
qed simp

lemma str_scan_cut:
  assumes "str_scan n js len p = Inr (Str_quote q)" "q < k" "k \<le> len" "len < 2147483648" "p \<le> len" "k - p < n'"
  shows "p \<le> q \<and> str_scan n' js k p = Inr (Str_quote q)"
  using assms
proof (induction n arbitrary: p n')
  case (Suc n)
  obtain m where m: "n' = Suc m" using Suc.prems(6) by (cases n') simp_all
  show ?case
  proof (cases "p < len")
    case True
    then obtain c where c: "rd js p = Inr c" using Suc.prems(1) by (cases "rd js p") simp_all
    have i1: "inc32 p = Suc p" using True Suc.prems(4) by simp
    have i2: "inc32 (Suc p) = Suc (Suc p)" if "Suc p < len" using that Suc.prems(4) by simp
    have IH: "p < q \<and> r \<le> q \<and> str_scan m js k r = Inr (Str_quote q)"
      if "str_scan n js len r = Inr (Str_quote q)" "p < r" "r \<le> len" for r
    proof -
      have "r \<le> q \<and> str_scan m' js k r = Inr (Str_quote q)" if "k - r < m'" for m'
        by (rule Suc.IH [OF \<open>str_scan n js len r = _\<close>]) (use Suc.prems that \<open>r \<le> len\<close> in simp_all)
      from this [of "Suc (k - r)"] have "r \<le> q" by simp
      have "k - r < m" using Suc.prems(2,6) m \<open>p < r\<close> \<open>r \<le> q\<close> by simp
      then have "str_scan m js k r = Inr (Str_quote q)" using \<open>\<And>m'. k - r < m' \<Longrightarrow> _\<close> by blast
      moreover have "p < q" using \<open>p < r\<close> \<open>r \<le> q\<close> by simp
      ultimately show ?thesis using \<open>r \<le> q\<close> by blast
    qed
    show ?thesis
    proof (cases "c = 0 \<or> c = 0x22 \<or> \<not> (c = 0x5C \<and> Suc p < len)")
      case True
      have "str_scan n js len (Suc p) = Inr (Str_quote q)" if "c \<noteq> 0x22"
        using Suc.prems(1) \<open>p < len\<close> c i1 that True by (auto split: if_splits)
      then show ?thesis using Suc.prems \<open>p < len\<close> c i1 IH [of "Suc p"] True m by (auto split: if_splits)
    next
      case False
      then obtain e where e: "rd js (Suc p) = Inr e" using Suc.prems(1) \<open>p < len\<close> c i1 by (cases "rd js (Suc p)") simp_all
      have base: "str_scan (Suc n) js len p = (if simple_escape e then str_scan n js len (Suc (Suc p))
          else if e = byte CHR ''u'' then bindR (hex_scan 4 js len (Suc (Suc p))) (\<lambda>h. case h of
              None \<Rightarrow> Inr Str_inval | Some q \<Rightarrow> str_scan n js len (inc32 (dec32 q)))
          else Inr Str_inval)"
        using False \<open>p < len\<close> c i1 i2 e by simp
      have cut: "str_scan (Suc m) js k p = (if simple_escape e then str_scan m js k (Suc (Suc p))
          else if e = byte CHR ''u'' then bindR (hex_scan 4 js k (Suc (Suc p))) (\<lambda>h. case h of
              None \<Rightarrow> Inr Str_inval | Some q \<Rightarrow> str_scan m js k (inc32 (dec32 q)))
          else Inr Str_inval)" if "Suc p < k"
        using False that c i1 i2 e by simp
      show ?thesis
      proof (cases "simple_escape e")
        case True
        then have "str_scan n js len (Suc (Suc p)) = Inr (Str_quote q)" using Suc.prems(1) base by simp
        from IH [OF this] show ?thesis using False Suc.prems(2) True cut by (simp add: m)
      next
        case ne: False
        then have u: "e = byte CHR ''u''" using Suc.prems(1) base by (auto split: if_splits)
        obtain h where h: "hex_scan 4 js len (Suc (Suc p)) = Inr (Some h)" "str_scan n js len (inc32 (dec32 h)) = Inr (Str_quote q)"
        proof -
          have "bindR (hex_scan 4 js len (Suc (Suc p))) (\<lambda>h. case h of
              None \<Rightarrow> Inr Str_inval | Some q \<Rightarrow> str_scan n js len (inc32 (dec32 q))) = Inr (Str_quote q)"
            using Suc.prems(1) unfolding base using ne u by simp
          then show thesis using that by (auto simp: bindR_eq_Inr split: option.splits)
        qed
        have hr: "Suc (Suc p) \<le> h" "h \<le> len" using hex_scan_range [OF h(1)] False Suc.prems(4) by simp_all
        then have hd: "inc32 (dec32 h) = h" using Suc.prems(4) by (cases h) simp_all
        have r: "p < q" "h \<le> q" "str_scan m js k h = Inr (Str_quote q)"
          using IH [of h] h(2) hr by (simp_all add: hd)
        then have "hex_scan 4 js k (Suc (Suc p)) = Inr (Some h)"
          using hex_scan_cut [OF h(1), of k] Suc.prems(2-4) False by simp
        moreover have "Suc p < k" using hr(1) r(2) Suc.prems(2) by simp
        ultimately show ?thesis using r ne u cut by (simp add: m hd)
      qed
    qed
  qed (use Suc.prems in simp)
qed simp

section \<open>Tokens\<close>

text \<open>What a token says about the text in front of position \<open>e\<close>.\<close>

definition span_ok :: "mem \<Rightarrow> nat \<Rightarrow> u8 \<Rightarrow> u8 \<Rightarrow> jsmntok \<Rightarrow> bool" where
  "span_ok js e l r t \<longleftrightarrow> 0 \<le> jt_start t \<and> jt_start t < int e \<and> js ! nat (jt_start t) = l \<and>
     (jt_end t = - 1 \<or> jt_start t < jt_end t \<and> jt_end t \<le> int e \<and> js ! nat (jt_end t - 1) = r)"

definition tok_ok :: "mem \<Rightarrow> nat \<Rightarrow> jsmntok \<Rightarrow> bool" where
  "tok_ok js e t \<longleftrightarrow> (case jt_type t of
       JSMN_PRIMITIVE \<Rightarrow> 0 \<le> jt_start t \<and> jt_start t < jt_end t \<and> jt_end t \<le> int e
     | JSMN_STRING \<Rightarrow> 1 \<le> jt_start t \<and> jt_start t \<le> jt_end t \<and> jt_end t < int e \<and>
         js ! nat (jt_start t - 1) = 0x22 \<and> js ! nat (jt_end t) = 0x22
     | JSMN_OBJECT \<Rightarrow> span_ok js e (byte CHR ''{'') (byte CHR ''}'') t
     | JSMN_ARRAY \<Rightarrow> span_ok js e (byte CHR ''['') (byte CHR '']'') t)"

lemma tok_ok_mono: "tok_ok js e t \<Longrightarrow> e \<le> e' \<Longrightarrow> tok_ok js e' t"
  unfolding tok_ok_def span_ok_def by (cases "jt_type t") auto

lemma tok_ok_size [simp]: "tok_ok js e (t\<lparr>jt_size := n\<rparr>) = tok_ok js e t" "is_open (t\<lparr>jt_size := n\<rparr>) = is_open t"
  by (cases "jt_type t"; simp add: tok_ok_def span_ok_def is_open_def)+

definition jinv :: "mem \<Rightarrow> nat \<Rightarrow> nat \<Rightarrow> jsmn_parser \<Rightarrow> jsmntok list \<Rightarrow> bool" where
  "jinv js e num p ts \<longleftrightarrow> toknext p \<le> num \<and> num \<le> length ts \<and> toknext p \<le> e \<and>
     - 1 \<le> toksuper p \<and> toksuper p < int (toknext p) \<and> (\<forall>i < toknext p. tok_ok js e (ts ! i)) \<and>
     (toksuper p = - 1 \<longrightarrow> (\<forall>i < toknext p. \<not> is_open (ts ! i)))"

lemma jinvD:
  assumes "jinv js e num p ts"
  shows "toknext p \<le> num" "num \<le> length ts" "toknext p \<le> e" "- 1 \<le> toksuper p" "toksuper p < int (toknext p)"
    "\<And>i. i < toknext p \<Longrightarrow> tok_ok js e (ts ! i)"
    "\<And>i. toksuper p = - 1 \<Longrightarrow> i < toknext p \<Longrightarrow> \<not> is_open (ts ! i)"
  using assms by (simp_all add: jinv_def)

lemma jinv_pos [simp]: "jinv js e num (p\<lparr>pos := q\<rparr>) ts = jinv js e num p ts"
  by (simp add: jinv_def)

lemma jinv_mono: "jinv js e num p ts \<Longrightarrow> e \<le> e' \<Longrightarrow> jinv js e' num p ts"
  unfolding jinv_def using tok_ok_mono by (meson order_trans)

lemma find_open_ok:
  assumes "n \<le> length ts"
  obtains m where "find_open ts n = Inr m" "m = None \<longrightarrow> (\<forall>i < n. \<not> is_open (ts ! i))"
    "\<forall>k. m = Some k \<longrightarrow> k < n \<and> is_open (ts ! k) \<and> (\<forall>i. k < i \<and> i < n \<longrightarrow> \<not> is_open (ts ! i))"
proof -
  have "\<exists>m. find_open ts n = Inr m \<and> (m = None \<longrightarrow> (\<forall>i < n. \<not> is_open (ts ! i))) \<and>
    (\<forall>k. m = Some k \<longrightarrow> k < n \<and> is_open (ts ! k) \<and> (\<forall>i. k < i \<and> i < n \<longrightarrow> \<not> is_open (ts ! i)))"
    using assms
  proof (induction n)
    case (Suc n)
    then have "tok_at ts (int n) = Inr (ts ! n)" by (simp add: tok_at_def)
    then show ?case using Suc by (cases "is_open (ts ! n)") (auto simp: less_Suc_eq)
  qed simp
  then show thesis using that by blast
qed

lemma find_open_container_ok:
  assumes "n \<le> length ts"
  obtains m where "find_open_container ts n = Inr m" "\<forall>k. m = Some k \<longrightarrow> k < n"
proof -
  have "\<exists>m. find_open_container ts n = Inr m \<and> (\<forall>k. m = Some k \<longrightarrow> k < n)" using assms
  proof (induction n)
    case (Suc n)
    then have "tok_at ts (int n) = Inr (ts ! n)" by (simp add: tok_at_def)
    then show ?case using Suc by auto
  qed simp
  then show thesis using that by blast
qed

lemma grow_ok:
  assumes inv: "jinv js e num p ts"
  shows "\<exists>ts'. (if toksuper p \<noteq> - 1 then tok_grow ts (toksuper p) else Inr ts) = Inr ts' \<and> length ts' = length ts \<and>
    jinv js e num p ts' \<and> (\<forall>i. i \<ge> toknext p \<longrightarrow> ts' ! i = ts ! i)"
proof (cases "toksuper p = - 1")
  case False
  define i where "i = nat (toksuper p)"
  have i: "0 \<le> toksuper p" "i < toknext p" "i < length ts" using False jinvD(1-5) [OF inv] by (auto simp: i_def)
  define ts' where "ts' = ts[i := (ts ! i)\<lparr>jt_size := jt_size (ts ! i) + 1\<rparr>]"
  have "tok_grow ts (toksuper p) = Inr ts'" using i by (simp add: tok_grow_def tok_at_def ts'_def i_def)
  moreover have "tok_ok js e (ts' ! j)" if "j < toknext p" for j
    using jinvD(6) [OF inv that] by (cases "j = i") (simp_all add: ts'_def nth_list_update i(3))
  moreover have "length ts' = length ts" "\<forall>j \<ge> toknext p. ts' ! j = ts ! j" using i by (simp_all add: ts'_def)
  ultimately show ?thesis using False inv by (simp add: jinv_def)
qed (use inv in simp)

lemma alloc_ok:
  assumes inv: "jinv js e num p ts" and n: "toknext p < 2147483648"
  shows "jsmn_alloc_token p ts num = (if num \<le> toknext p then Inr (None, p, ts)
    else Inr (Some (toknext p), p\<lparr>toknext := Suc (toknext p)\<rparr>,
      ts[toknext p := (ts ! toknext p)\<lparr>jt_start := - 1, jt_end := - 1, jt_size := 0\<rparr>]))"
  using jinvD(1,2) [OF inv] n by (simp add: jsmn_alloc_token_def tok_at_def Let_def)

text \<open>A token that is appended, closed or an opened container that becomes the superior one.\<close>

lemma jinv_append:
  assumes inv: "jinv js e num p ts" and n: "toknext p < num" and e': "e < e'"
    and t: "tok_ok js e' t" "ts' ! toknext p = t" "\<forall>i < toknext p. ts' ! i = ts ! i" "length ts' = length ts"
    and s: "x = toksuper p \<and> \<not> is_open t \<or> x = int (toknext p)"
  shows "jinv js e' num (p\<lparr>toknext := Suc (toknext p), toksuper := x\<rparr>) ts'"
proof -
  have "tok_ok js e' (ts' ! i)" if "i < Suc (toknext p)" for i
    using that t tok_ok_mono [OF jinvD(6) [OF inv], of i e'] e' by (cases "i = toknext p") simp_all
  moreover have "\<not> is_open (ts' ! i)" if "i < Suc (toknext p)" "x = - 1" for i
    using that t s jinvD(7) [OF inv, of i] by (cases "i = toknext p") auto
  ultimately show ?thesis using jinvD(1-5) [OF inv] n e' t(4) s by (auto simp: jinv_def)
qed

lemma new_token_ok:
  assumes inv: "jinv js e num p ts" and small: "e' < 2147483648" "e < e'"
    and t: "a < 2147483648" "b < 2147483648" "\<And>t. tok_ok js e' (jsmn_fill_token t ty (int a) (int b))" "0 < b"
  shows "(num \<le> toknext p \<and> new_token ty a b q p (Some ts) num = Inr (JSMN_ERROR_NOMEM, p, Some ts)) \<or>
    (\<exists>ts'. new_token ty a b q p (Some ts) num = Inr (0, p\<lparr>toknext := Suc (toknext p), pos := q\<rparr>, Some ts') \<and>
       length ts' = length ts \<and> jinv js e' num (p\<lparr>toknext := Suc (toknext p), pos := q\<rparr>) ts')"
proof -
  have n: "toknext p < 2147483648" using jinvD(3) [OF inv] small by simp
  show ?thesis
  proof (cases "num \<le> toknext p")
    case True
    then show ?thesis by (simp add: new_token_def alloc_ok [OF inv n])
  next
    case False
    define ts' where "ts' = ts[toknext p := jsmn_fill_token ((ts ! toknext p)\<lparr>jt_start := - 1, jt_end := - 1, jt_size := 0\<rparr>) ty (int a) (int b)]"
    have l: "toknext p < length ts" using False jinvD(2) [OF inv] by simp
    have "new_token ty a b q p (Some ts) num = Inr (0, p\<lparr>toknext := Suc (toknext p), pos := q\<rparr>, Some ts')"
      using False t(1,2) l by (simp add: new_token_def alloc_ok [OF inv n] ts'_def)
    moreover have "jinv js e' num (p\<lparr>toknext := Suc (toknext p), toksuper := toksuper p\<rparr>) ts'"
      by (rule jinv_append [OF inv _ small(2) t(3)])
        (use False l t(4) in \<open>simp_all add: ts'_def is_open_def jsmn_fill_token_def\<close>)
    ultimately show ?thesis by (simp add: ts'_def)
  qed
qed

text \<open>After a string or a primitive.\<close>

lemma value_ok:
  assumes "r = Inr (0, p, Some ts)" "jinv js e num p ts"
  shows "\<exists>ts'. jsmn_value r c = Inr (None, p, Some ts', c + 1) \<and> length ts' = length ts \<and> jinv js e num p ts'"
  using grow_ok [OF assms(2)] assms(1) by (auto simp: jsmn_value_def)

section \<open>One character\<close>

text \<open>
  One step of the parser in front of position \<open>len\<close>: the read in front of the token array, an
  error, or on to the next character with the invariant.
\<close>

definition step_ok :: "mem \<Rightarrow> nat \<Rightarrow> nat \<Rightarrow> jsmn_parser \<Rightarrow> jsmntok list \<Rightarrow> int \<Rightarrow> (int option \<times> jsmn_state) res \<Rightarrow> bool" where
  "step_ok js len num p ts c r \<longleftrightarrow>
     r = Inl Out_of_bounds \<and> js ! pos p = byte CHR '','' \<and> toksuper p = - 1 \<or>
     (\<exists>v p' ts' c'. r = Inr (Some v, p', Some ts', c') \<and> length ts' = length ts \<and>
        (v = JSMN_ERROR_INVAL \<or> v = JSMN_ERROR_PART \<or> v = JSMN_ERROR_NOMEM \<and> num \<le> toknext p)) \<or>
     (\<exists>p' ts' c'. r = Inr (None, p', Some ts', c') \<and> length ts' = length ts \<and> jinv js (Suc (pos p')) num p' ts' \<and>
        pos p \<le> pos p' \<and> pos p' < len \<and> c' - int (toknext p') = c - int (toknext p))"

lemma step_okI:
  assumes "r = Inr (None, p', Some ts', c')" "length ts' = length ts" "jinv js (Suc (pos p')) num p' ts'"
    "pos p \<le> pos p'" "pos p' < len" "c' - int (toknext p') = c - int (toknext p)"
  shows "step_ok js len num p ts c r"
  using assms unfolding step_ok_def by blast

lemma step_ok_errI:
  assumes "r = Inr (Some v, p', Some ts', c')" "length ts' = length ts"
    "v = JSMN_ERROR_INVAL \<or> v = JSMN_ERROR_PART \<or> v = JSMN_ERROR_NOMEM \<and> num \<le> toknext p"
  shows "step_ok js len num p ts c r"
  using assms unfolding step_ok_def by blast

lemma opening_ok:
  assumes inv: "jinv js (pos p) num p ts" and p: "pos p < len" "len < 2147483648" and ch: "ch = js ! pos p"
    "ch = byte CHR ''{'' \<or> ch = byte CHR ''[''"
  shows "step_ok js len num p ts c (jsmn_opening ch num (p, Some ts, c))"
proof -
  have n: "toknext p < 2147483648" using jinvD(3) [OF inv] p by simp
  show ?thesis
  proof (cases "num \<le> toknext p")
    case True
    then have "jsmn_opening ch num (p, Some ts, c) = Inr (Some JSMN_ERROR_NOMEM, p, Some ts, c + 1)"
      by (simp add: jsmn_opening_def alloc_ok [OF inv n])
    then show ?thesis by (rule step_ok_errI) (use True in simp_all)
  next
    case False
    define p1 where "p1 = p\<lparr>toknext := Suc (toknext p)\<rparr>"
    define ts1 where "ts1 = ts[toknext p := (ts ! toknext p)\<lparr>jt_start := - 1, jt_end := - 1, jt_size := 0\<rparr>]"
    have l: "toknext p < length ts" using False jinvD(2) [OF inv] by simp
    have inv1: "jinv js (pos p) num p ts1"
      using inv l by (simp add: jinv_def ts1_def)
    obtain ts2 where ts2: "(if toksuper p \<noteq> - 1 then tok_grow ts1 (toksuper p) else Inr ts1) = Inr ts2"
      "length ts2 = length ts1" "jinv js (pos p) num p ts2" "ts2 ! toknext p = ts1 ! toknext p"
      using grow_ok [OF inv1] by auto
    define t where "t = (ts2 ! toknext p)\<lparr>jt_type := (if ch = byte CHR ''{'' then JSMN_OBJECT else JSMN_ARRAY), jt_start := int (pos p)\<rparr>"
    have t: "tok_ok js (Suc (pos p)) t"
      using ch p l by (auto simp: t_def tok_ok_def span_ok_def ts2(4) ts1_def)
    have st: "to_int32 (pos p) = int (pos p)" using p by simp
    have ts: "to_int32 (dec32 (toknext p1)) = int (toknext p)" using n by (simp add: p1_def to_int32_pred)
    have "jsmn_opening ch num (p, Some ts, c) = bindR (if toksuper p \<noteq> - 1 then tok_grow ts1 (toksuper p) else Inr ts1)
      (\<lambda>ts. Inr (None, p1\<lparr>toksuper := to_int32 (dec32 (toknext p1))\<rparr>, Some (ts[toknext p := (ts ! toknext p)
        \<lparr>jt_type := (if ch = byte CHR ''{'' then JSMN_OBJECT else JSMN_ARRAY), jt_start := to_int32 (pos p)\<rparr>]), c + 1))"
      using False by (simp add: jsmn_opening_def alloc_ok [OF inv n] ts1_def p1_def)
    then have r: "jsmn_opening ch num (p, Some ts, c) =
      Inr (None, p1\<lparr>toksuper := int (toknext p)\<rparr>, Some (ts2[toknext p := t]), c + 1)"
      unfolding ts2(1) ts st by (simp add: t_def)
    have "jinv js (Suc (pos p)) num (p\<lparr>toknext := Suc (toknext p), toksuper := int (toknext p)\<rparr>) (ts2[toknext p := t])"
      by (rule jinv_append [OF ts2(3) _ _ t]) (use False l ts2(2) in \<open>simp_all add: ts1_def\<close>)
    then show ?thesis by (intro step_okI [OF r]) (use p(1) ts2(2) in \<open>simp_all add: p1_def ts1_def\<close>)
  qed
qed

lemma closing_ok:
  assumes inv: "jinv js (pos p) num p ts" and p: "pos p < len" "len < 2147483648" and ch: "ch = js ! pos p"
    "ch = byte CHR ''}'' \<or> ch = byte CHR '']''"
  shows "step_ok js len num p ts c (jsmn_closing ch (p, Some ts, c))"
proof -
  let ?ty = "if ch = byte CHR ''}'' then JSMN_OBJECT else JSMN_ARRAY"
  have n: "toknext p \<le> 2147483648" "toknext p \<le> length ts" using jinvD(1-3) [OF inv] p by simp_all
  obtain m where m: "find_open ts (toknext p) = Inr m" "m = None \<longrightarrow> (\<forall>i < toknext p. \<not> is_open (ts ! i))"
    "\<forall>k. m = Some k \<longrightarrow> k < toknext p \<and> is_open (ts ! k) \<and> (\<forall>i. k < i \<and> i < toknext p \<longrightarrow> \<not> is_open (ts ! i))"
    by (rule find_open_ok [OF n(2)])
  show ?thesis
  proof (cases "\<exists>i. m = Some i \<and> jt_type (ts ! i) = ?ty")
    case False
    then have "jsmn_closing ch (p, Some ts, c) = Inr (Some JSMN_ERROR_INVAL, p, Some ts, c)"
      using m(1) n(1) by (cases m) (simp_all add: jsmn_closing_def)
    then show ?thesis by (rule step_ok_errI) simp_all
  next
    case True
    then obtain i where i: "m = Some i" "jt_type (ts ! i) = ?ty" by blast
    have im: "i < toknext p" "is_open (ts ! i)" "\<And>k. i < k \<Longrightarrow> k < toknext p \<Longrightarrow> \<not> is_open (ts ! k)"
      using m(3) i(1) by blast+
    have il: "i < length ts" using im(1) n(2) by simp
    define ts1 where "ts1 = ts[i := (ts ! i)\<lparr>jt_end := int (Suc (pos p))\<rparr>]"
    have l1: "Suc i \<le> length ts1" using il by (simp add: ts1_def)
    obtain k where k: "find_open ts1 (Suc i) = Inr k" "k = None \<longrightarrow> (\<forall>j < Suc i. \<not> is_open (ts1 ! j))"
      "\<forall>j. k = Some j \<longrightarrow> j < Suc i \<and> is_open (ts1 ! j) \<and> (\<forall>l. j < l \<and> l < Suc i \<longrightarrow> \<not> is_open (ts1 ! l))"
      by (rule find_open_ok [OF l1])
    define p' where "p' = p\<lparr>toksuper := (case k of None \<Rightarrow> - 1 | Some k \<Rightarrow> int k)\<rparr>"
    have st: "to_int32 (inc32 (pos p)) = int (Suc (pos p))" using p by simp
    have "jsmn_closing ch (p, Some ts, c) = bindR (find_open ts1 (Suc i)) (\<lambda>k.
        Inr (None, p\<lparr>toksuper := (case k of None \<Rightarrow> - 1 | Some k \<Rightarrow> int k)\<rparr>, Some ts1, c))"
      using m(1) i n(1) unfolding jsmn_closing_def ts1_def st [symmetric] by (simp add: Let_def del: find_open.simps)
    then have r: "jsmn_closing ch (p, Some ts, c) = Inr (None, p', Some ts1, c)"
      unfolding k(1) p'_def by simp
    have "tok_ok js (pos p) (ts ! i)" by (rule jinvD(6) [OF inv im(1)])
    then have ti: "tok_ok js (Suc (pos p)) (ts1 ! i)"
      using i(2) ch il by (auto simp: ts1_def tok_ok_def span_ok_def split: if_splits)
    have "tok_ok js (Suc (pos p)) (ts1 ! j)" if "j < toknext p" for j
      using ti tok_ok_mono [OF jinvD(6) [OF inv that], of "Suc (pos p)"] by (cases "j = i") (simp_all add: ts1_def)
    moreover have "\<not> is_open (ts1 ! j)" if "toksuper p' = - 1" "j < toknext p" for j
    proof -
      have "k = None" using that(1) by (cases k) (simp_all add: p'_def)
      then show ?thesis using k(2) im(3) [of j] that(2) by (cases "j < Suc i") (simp_all add: ts1_def)
    qed
    moreover have "- 1 \<le> toksuper p'" "toksuper p' < int (toknext p)"
      using k(3) im(1) by (auto simp: p'_def split: option.splits)
    ultimately have "jinv js (Suc (pos p)) num p' ts1"
      using jinvD(1-3) [OF inv] by (simp add: jinv_def ts1_def) (simp add: p'_def)
    then show ?thesis by (intro step_okI [OF r]) (use p(1) in \<open>simp_all add: ts1_def p'_def\<close>)
  qed
qed

lemma value_step:
  assumes r: "r = Inr (JSMN_ERROR_INVAL, p, Some ts) \<or> r = Inr (JSMN_ERROR_PART, p, Some ts) \<or>
      num \<le> toknext p \<and> r = Inr (JSMN_ERROR_NOMEM, p, Some ts) \<or>
      (\<exists>ts1. r = Inr (0, p\<lparr>toknext := Suc (toknext p), pos := q\<rparr>, Some ts1) \<and> length ts1 = length ts \<and>
         jinv js (Suc q) num (p\<lparr>toknext := Suc (toknext p), pos := q\<rparr>) ts1)"
    and q: "pos p \<le> q" "q < len"
  shows "step_ok js len num p ts c (jsmn_value r c)"
  using r
proof (elim disjE exE conjE)
  fix ts1 assume a: "r = Inr (0, p\<lparr>toknext := Suc (toknext p), pos := q\<rparr>, Some ts1)" "length ts1 = length ts"
    "jinv js (Suc q) num (p\<lparr>toknext := Suc (toknext p), pos := q\<rparr>) ts1"
  from value_ok [OF a(1,3), of c] obtain ts' where ts':
    "jsmn_value r c = Inr (None, p\<lparr>toknext := Suc (toknext p), pos := q\<rparr>, Some ts', c + 1)" "length ts' = length ts1"
    "jinv js (Suc q) num (p\<lparr>toknext := Suc (toknext p), pos := q\<rparr>) ts'" by blast
  show ?thesis by (rule step_okI [OF ts'(1)]) (use ts' a q in simp_all)
qed (auto simp: jsmn_value_def intro!: step_ok_errI)

lemma string_ok:
  assumes tx: "text_ok js len" and inv: "jinv js (pos p) num p ts" and p: "pos p < len" "js ! pos p = 0x22"
  shows "step_ok js len num p ts c (jsmn_value (jsmn_parse_string p js len (Some ts) num) c)"
proof -
  have i: "inc32 (pos p) = Suc (pos p)" "Suc (pos p) \<le> len" "len - Suc (pos p) < Suc len" using tx p by simp_all
  obtain r where r: "str_scan (Suc len) js len (Suc (pos p)) = Inr r"
    "\<forall>q. r = Str_quote q \<longrightarrow> Suc (pos p) \<le> q \<and> q < len \<and> js ! q = 0x22"
    by (rule str_scan_ok [OF tx i(2,3)])
  show ?thesis
  proof (cases r)
    case (Str_quote q)
    then have q: "pos p < q" "q < len" "js ! q = 0x22" using r(2) by auto
    have t: "tok_ok js (Suc q) (jsmn_fill_token t JSMN_STRING (int (pos p + 1)) (int q))" for t
      using q p(2) by (simp add: jsmn_fill_token_def tok_ok_def)
    have b: "Suc q < 2147483648" "pos p < Suc q" "pos p + 1 < 2147483648" "q < 2147483648" "0 < q" using tx q by simp_all
    have e: "jsmn_parse_string p js len (Some ts) num = new_token JSMN_STRING (pos p + 1) q q p (Some ts) num"
      by (simp add: jsmn_parse_string_def i r(1) Str_quote del: str_scan.simps)
    show ?thesis unfolding e using new_token_ok [OF inv b(1-4) t b(5), of q] q by (intro value_step) auto
  qed (rule value_step [where q = "pos p"], use p in \<open>simp_all add: jsmn_parse_string_def i r(1) del: str_scan.simps\<close>)+
qed

lemma primitive_ok:
  assumes tx: "text_ok js len" and inv: "jinv js (pos p) num p ts" and p: "pos p < len" "js ! pos p \<noteq> 0" "\<not> prim_delim (js ! pos p)"
  shows "step_ok js len num p ts c (jsmn_value (jsmn_parse_primitive p js len (Some ts) num) c)"
proof -
  have i: "pos p \<le> len" "len - pos p < Suc len" using p by simp_all
  obtain f q where q: "prim_scan (Suc len) js len (pos p) = Inr (f, q)" "pos p \<le> q" "q \<le> len" "f \<Longrightarrow> pos p < q"
    using prim_scan_ok [OF tx i] p by metis
  show ?thesis
  proof (cases f)
    case True
    have t: "tok_ok js q (jsmn_fill_token t JSMN_PRIMITIVE (int (pos p)) (int q))" for t
      using q True by (simp add: jsmn_fill_token_def tok_ok_def)
    have b: "q < 2147483648" "pos p < q" "pos p < 2147483648" "0 < q" "dec32 q = q - 1" using tx q True by auto
    obtain k where k: "q = Suc k" using b(4) by (cases q) simp_all
    have e: "jsmn_parse_primitive p js len (Some ts) num = new_token JSMN_PRIMITIVE (pos p) q k p (Some ts) num"
      using q(1) True b by (simp add: jsmn_parse_primitive_def k del: prim_scan.simps)
    show ?thesis unfolding e using new_token_ok [OF inv b(1-3,1) t b(4), of k] b q(3)
      by (intro value_step [where q = k]) (auto simp: k)
  next
    case False
    then show ?thesis using q(1) p(1)
      by (intro value_step [where q = "pos p"]) (simp_all add: jsmn_parse_primitive_def del: prim_scan.simps)
  qed
qed

lemma comma_ok:
  assumes inv: "jinv js (pos p) num p ts" and p: "pos p < len" "len < 2147483648" and ch: "js ! pos p = byte CHR '',''"
  shows "step_ok js len num p ts c (jsmn_comma (p, Some ts, c))"
proof (cases "toksuper p = - 1")
  case True
  then show ?thesis using ch by (simp add: step_ok_def jsmn_comma_def tok_at_def)
next
  case False
  have n: "toknext p \<le> 2147483648" "toknext p \<le> length ts" "0 \<le> toksuper p" "nat (toksuper p) < length ts"
    using False jinvD(1-5) [OF inv] p by simp_all
  obtain m where m: "find_open_container ts (toknext p) = Inr m" "\<forall>k. m = Some k \<longrightarrow> k < toknext p"
    by (rule find_open_container_ok [OF n(2)])
  define p' where "p' = (if is_container (jt_type (ts ! nat (toksuper p))) then p
    else p\<lparr>toksuper := (case m of None \<Rightarrow> toksuper p | Some k \<Rightarrow> int k)\<rparr>)"
  have r: "jsmn_comma (p, Some ts, c) = Inr (None, p', Some ts, c)"
    using n m(1) by (simp add: jsmn_comma_def tok_at_def p'_def)
  have p': "pos p' = pos p" "toknext p' = toknext p" by (simp_all add: p'_def)
  have "0 \<le> toksuper p'" "toksuper p' < int (toknext p)"
    using n(3) m(2) jinvD(5) [OF inv] by (auto simp: p'_def split: option.splits)
  then have "jinv js (pos p) num p' ts" using inv by (simp add: jinv_def p')
  then have "jinv js (Suc (pos p)) num p' ts" by (rule jinv_mono) simp
  then show ?thesis by (intro step_okI [OF r]) (use p in \<open>simp_all add: p'\<close>)
qed

lemma char_ok:
  assumes tx: "text_ok js len" and inv: "jinv js (pos p) num p ts" and p: "pos p < len" "js ! pos p \<noteq> 0"
  shows "step_ok js len num p ts c (jsmn_char js len num (js ! pos p) (p, Some ts, c))"
proof -
  let ?c = "js ! pos p"
  have sm: "len < 2147483648" "toknext p \<le> 2147483648" using tx jinvD(3) [OF inv] p by simp_all
  have i1: "jinv js (Suc (pos p)) num p ts" using inv by (rule jinv_mono) simp
  have colon: "jinv js (Suc (pos p)) num (p\<lparr>toksuper := int (toknext p) - 1\<rparr>) ts"
    using i1 by (auto simp: jinv_def)
  consider "?c = byte CHR ''{'' \<or> ?c = byte CHR ''[''" | "?c = byte CHR ''}'' \<or> ?c = byte CHR '']''" | "?c = 0x22"
    | "?c \<in> {9, 13, 10, 32}" | "?c = byte CHR '':''" | "?c = byte CHR '',''" | "\<not> prim_delim ?c" "?c \<noteq> 0x22" "?c \<noteq> byte CHR ''{''" "?c \<noteq> byte CHR ''[''"
    by (auto simp: prim_delim_def)
  then show ?thesis
  proof cases
    case 1
    then show ?thesis using opening_ok [OF inv p(1) sm(1) refl 1] by (simp add: jsmn_char_def)
  next
    case 2
    then show ?thesis using closing_ok [OF inv p(1) sm(1) refl 2] by (auto simp: jsmn_char_def)
  next
    case 3
    then show ?thesis using string_ok [OF tx inv p(1) 3] by (simp add: jsmn_char_def)
  next
    case 4
    then have "jsmn_char js len num ?c (p, Some ts, c) = Inr (None, p, Some ts, c)" by (auto simp: jsmn_char_def)
    then show ?thesis by (rule step_okI) (use p i1 in simp_all)
  next
    case 5
    then have "jsmn_char js len num ?c (p, Some ts, c) = Inr (None, p\<lparr>toksuper := int (toknext p) - 1\<rparr>, Some ts, c)"
      using sm(2) by (simp add: jsmn_char_def to_int32_pred)
    then show ?thesis by (rule step_okI) (use p colon in simp_all)
  next
    case 6
    then show ?thesis using comma_ok [OF inv p(1) sm(1) 6] by (simp add: jsmn_char_def)
  next
    case 7
    then show ?thesis using primitive_ok [OF tx inv p 7(1)] by (simp add: jsmn_char_def prim_delim_def)
  qed
qed

section \<open>The text cut off\<close>

lemma new_token_pos:
  assumes "new_token ty a b q p tk num = Inr (v, p', tk')" "0 \<le> v"
  shows "pos p' = q"
  using assms by (auto simp: new_token_def bindR_eq_Inr split: option.splits)

lemma value_pos:
  assumes "jsmn_value r c = Inr (None, p', tk, c')"
  obtains v tk' where "r = Inr (v, p', tk')" "0 \<le> v"
  using assms by (auto simp: jsmn_value_def bindR_eq_Inr split: if_splits option.splits)

lemma string_cut:
  assumes "jsmn_parse_string p js len tk num = Inr (v, p', tk')" "0 \<le> v" "pos p' < k" "k \<le> len" "len < 2147483648" "pos p < k"
  shows "jsmn_parse_string p js k tk num = Inr (v, p', tk')"
proof -
  obtain r where r: "str_scan (Suc len) js len (inc32 (pos p)) = Inr r"
    using assms(1) by (auto simp: jsmn_parse_string_def bindR_eq_Inr simp del: str_scan.simps)
  then obtain q where q: "r = Str_quote q" "new_token JSMN_STRING (pos p + 1) q q p tk num = Inr (v, p', tk')"
    using assms(1,2) by (cases r) (auto simp: jsmn_parse_string_def simp del: str_scan.simps)
  have "q < k" using new_token_pos [OF q(2) assms(2)] assms(3) by simp
  moreover have "inc32 (pos p) \<le> len" "k - inc32 (pos p) < Suc k" using assms(4-6) by simp_all
  ultimately have "str_scan (Suc k) js k (inc32 (pos p)) = Inr (Str_quote q)"
    using str_scan_cut [OF r [unfolded q(1)]] assms(4,5) by blast
  then show ?thesis using q(2) by (simp add: jsmn_parse_string_def del: str_scan.simps)
qed

lemma primitive_cut:
  assumes "jsmn_parse_primitive p js len tk num = Inr (v, p', tk')" "0 \<le> v" "pos p' < k" "k \<le> len" "len < 2147483648" "pos p < k"
  shows "jsmn_parse_primitive p js k tk num = Inr (v, p', tk')"
proof -
  obtain f q where r: "prim_scan (Suc len) js len (pos p) = Inr (f, q)"
    using assms(1) by (cases "prim_scan (Suc len) js len (pos p)") (auto simp: jsmn_parse_primitive_def simp del: prim_scan.simps)
  then have "(if f then new_token JSMN_PRIMITIVE (pos p) q (dec32 q) p tk num else Inr (JSMN_ERROR_INVAL, p, tk)) = Inr (v, p', tk')"
    using assms(1) by (simp add: jsmn_parse_primitive_def del: prim_scan.simps)
  then have q: f "new_token JSMN_PRIMITIVE (pos p) q (dec32 q) p tk num = Inr (v, p', tk')"
    using assms(2) by (simp_all split: if_splits)
  have ql: "pos p \<le> q" "q \<le> len" using prim_scan_range [OF r] assms(4-6) by simp_all
  have d: "dec32 q < k" using new_token_pos [OF q(2) assms(2)] assms(3) by simp
  have "q \<le> k"
  proof (cases q)
    case (Suc m)
    then show ?thesis using d ql assms(4,5) by simp
  qed simp
  then have "prim_scan (Suc k) js k (pos p) = Inr (True, q)"
    using prim_scan_cut [of "Suc len" js len "pos p" q k "Suc k"] r q(1) assms(4-6) by (simp del: prim_scan.simps)
  then show ?thesis using q by (simp add: jsmn_parse_primitive_def del: prim_scan.simps)
qed

lemma value_cut:
  assumes v: "jsmn_value r c = Inr (None, p', tk, c')"
    and r: "\<And>v tk'. r = Inr (v, p', tk') \<Longrightarrow> 0 \<le> v \<Longrightarrow> r' = Inr (v, p', tk')"
  shows "jsmn_value r' c = Inr (None, p', tk, c')"
proof -
  obtain v tk' where "r = Inr (v, p', tk')" "0 \<le> v" by (rule value_pos [OF v])
  then show ?thesis using r v by metis
qed

text \<open>The dispatch on the character, for comparing two of them.\<close>

lemma if_chain:
  assumes "(if b1 then x1 else if b2 then x2 else if b3 then x3 else if b4 then x4 else if b5 then x5 else if b6 then x6 else x7) = w"
    and "x1 = w \<Longrightarrow> G y1" "x2 = w \<Longrightarrow> G y2" "x3 = w \<Longrightarrow> G y3" "x4 = w \<Longrightarrow> G y4" "x5 = w \<Longrightarrow> G y5" "x6 = w \<Longrightarrow> G y6"
      "x7 = w \<Longrightarrow> G y7"
  shows "G (if b1 then y1 else if b2 then y2 else if b3 then y3 else if b4 then y4 else if b5 then y5 else if b6 then y6 else y7)"
  using assms by presburger

lemma char_cut:
  assumes r: "jsmn_char js len num ch (p, tk, c) = Inr (None, p', tk', c')"
    and k: "pos p' < k" "k \<le> len" "len < 2147483648" "pos p < k"
  shows "jsmn_char js k num ch (p, tk, c) = Inr (None, p', tk', c')"
proof -
  have "jsmn_value (jsmn_parse_string p js k tk num) c = Inr (None, p', tk', c')"
    if "jsmn_value (jsmn_parse_string p js len tk num) c = Inr (None, p', tk', c')"
    by (rule value_cut [OF that]) (rule string_cut [OF _ _ k])
  moreover have "jsmn_value (jsmn_parse_primitive p js k tk num) c = Inr (None, p', tk', c')"
    if "jsmn_value (jsmn_parse_primitive p js len tk num) c = Inr (None, p', tk', c')"
    by (rule value_cut [OF that]) (rule primitive_cut [OF _ _ k])
  ultimately show ?thesis
    using r unfolding jsmn_char_def Let_def prod.case by (intro if_chain [where G = "\<lambda>x. x = Inr (None, p', tk', c')"])
qed

section \<open>The whole text\<close>

definition tokens_ok :: "mem \<Rightarrow> nat \<Rightarrow> jsmn_parser \<Rightarrow> jsmntok list \<Rightarrow> bool" where
  "tokens_ok js len p ts \<longleftrightarrow> (\<forall>i < toknext p. tok_ok js len (ts ! i) \<and> \<not> is_open (ts ! i))"

definition jsmn_result ::
  "mem \<Rightarrow> nat \<Rightarrow> nat \<Rightarrow> jsmntok list \<Rightarrow> (int \<times> jsmn_parser \<times> jsmntok list option) res \<Rightarrow> bool" where
  "jsmn_result js len num ts r \<longleftrightarrow> (\<exists>v p ts'. r = Inr (v, p, Some ts') \<and> length ts' = length ts \<and>
     (v \<in> {JSMN_ERROR_NOMEM, JSMN_ERROR_INVAL, JSMN_ERROR_PART} \<or>
      v = int (toknext p) \<and> toknext p \<le> num \<and> tokens_ok js len p ts'))"

lemma finish_ok:
  assumes "jinv js e num p ts" "e \<le> len" "len < 2147483648"
  shows "jsmn_result js len num ts (jsmn_finish (p, Some ts, int (toknext p)))"
    "toksuper p = - 1 \<Longrightarrow> jsmn_finish (p, Some ts, c) = Inr (c, p, Some ts)"
proof -
  have n: "toknext p \<le> length ts" "toknext p \<le> 2147483648" using jinvD(1-3) [OF assms(1)] assms(2,3) by simp_all
  obtain m where m: "find_open ts (toknext p) = Inr m" "m = None \<longrightarrow> (\<forall>i < toknext p. \<not> is_open (ts ! i))"
    "\<forall>k. m = Some k \<longrightarrow> k < toknext p \<and> is_open (ts ! k) \<and> (\<forall>i. k < i \<and> i < toknext p \<longrightarrow> \<not> is_open (ts ! i))"
    by (rule find_open_ok [OF n(1)])
  have r: "jsmn_finish (p, Some ts, c) = Inr (if m = None then c else JSMN_ERROR_PART, p, Some ts)" for c
    using m(1) n(2) by (simp add: jsmn_finish_def)
  have "tok_ok js len (ts ! i)" if "i < toknext p" for i
    using tok_ok_mono [OF jinvD(6) [OF assms(1) that] assms(2)] .
  then show "jsmn_result js len num ts (jsmn_finish (p, Some ts, int (toknext p)))"
    using m(2) jinvD(1) [OF assms(1)] unfolding r jsmn_result_def tokens_ok_def by auto
  show "jsmn_finish (p, Some ts, c) = Inr (c, p, Some ts)" if "toksuper p = - 1"
    using m(3) jinvD(7) [OF assms(1) that] unfolding r by (cases m) auto
qed

text \<open>The loop: a result as above, or the read in front of the array at a comma after complete text.\<close>

definition comma_fault :: "mem \<Rightarrow> nat \<Rightarrow> nat \<Rightarrow> jsmn_state \<Rightarrow> bool" where
  "comma_fault js len num st \<longleftrightarrow> (\<exists>k. pos (fst st) \<le> k \<and> k < len \<and> js ! k = byte CHR '','' \<and>
     (\<forall>n. k - pos (fst st) < n \<longrightarrow> (\<exists>v p' tk'. jsmn_loop n js k num st = Inr (v, p', tk') \<and> 0 \<le> v)))"

lemma comma_fault_back:
  assumes cf: "comma_fault js len num (p'\<lparr>pos := Suc (pos p')\<rparr>, tk', c')" and rdp: "rd js (pos p) = Inr ch" "ch \<noteq> 0"
    and r: "jsmn_char js len num ch (p, tk, c) = Inr (None, p', tk', c')" and le: "pos p \<le> pos p'" "len < 2147483648"
  shows "comma_fault js len num (p, tk, c)"
proof -
  let ?p2 = "p'\<lparr>pos := Suc (pos p')\<rparr>"
  obtain k where k: "Suc (pos p') \<le> k" "k < len" "js ! k = byte CHR '',''"
    "\<forall>n. k - Suc (pos p') < n \<longrightarrow> (\<exists>v q tq. jsmn_loop n js k num (?p2, tk', c') = Inr (v, q, tq) \<and> 0 \<le> v)"
    using cf by (auto simp: comma_fault_def)
  have lt: "pos p' < k" "pos p < k" "inc32 (pos p') = Suc (pos p')" using k(1,2) le by simp_all
  have rk: "jsmn_char js k num ch (p, tk, c) = Inr (None, p', tk', c')"
    by (rule char_cut [OF r lt(1) _ le(2) lt(2)]) (use k(2) in simp)
  have "\<exists>v q tq. jsmn_loop n js k num (p, tk, c) = Inr (v, q, tq) \<and> 0 \<le> v" if "k - pos p < n" for n
  proof -
    obtain n0 where n0: "n = Suc n0" using \<open>k - pos p < n\<close> by (cases n) simp_all
    have "jsmn_loop n js k num (p, tk, c) = jsmn_loop n0 js k num (?p2, tk', c')"
      using lt rdp rk by (simp add: n0)
    moreover have "k - Suc (pos p') < n0" using that lt le(1) by (simp add: n0)
    ultimately show ?thesis using k(4) by simp
  qed
  then show ?thesis using k(2,3) lt unfolding comma_fault_def by (intro exI [of _ k]) simp
qed

lemma loop_ok:
  assumes "text_ok js len" "jinv js (pos p) num p ts" "pos p \<le> len" "len - pos p < n"
  shows "jsmn_result js len num ts (jsmn_loop n js len num (p, Some ts, int (toknext p))) \<or>
    jsmn_loop n js len num (p, Some ts, int (toknext p)) = Inl Out_of_bounds \<and>
    comma_fault js len num (p, Some ts, int (toknext p))"
  using assms(2-)
proof (induction n arbitrary: p ts)
  case (Suc n)
  note tx = assms(1)
  let ?st = "(p, Some ts, int (toknext p))"
  show ?case
  proof (cases "pos p < len \<and> js ! pos p \<noteq> 0")
    case False
    then have "jsmn_loop (Suc n) js len num ?st = jsmn_finish ?st" using tx by auto
    then show ?thesis using finish_ok(1) [OF Suc.prems(1,2)] tx by auto
  next
    case True
    have rdp: "rd js (pos p) = Inr (js ! pos p)" using True tx by simp
    let ?r = "jsmn_char js len num (js ! pos p) ?st"
    have unf: "jsmn_loop (Suc n) js len num ?st = bindR ?r (\<lambda>(ret, parser, tokens, count). case ret of
        Some r \<Rightarrow> Inr (r, parser, tokens)
      | None \<Rightarrow> jsmn_loop n js len num (parser\<lparr>pos := inc32 (pos parser)\<rparr>, tokens, count))"
      using True rdp by simp
    have "step_ok js len num p ts (int (toknext p)) ?r" using tx Suc.prems(1) True by (intro char_ok) simp_all
    then show ?thesis unfolding step_ok_def
    proof (elim disjE exE conjE)
      assume f: "?r = Inl Out_of_bounds" "js ! pos p = byte CHR '',''" "toksuper p = - 1"
      have "\<exists>v p' tk'. jsmn_loop n' js (pos p) num ?st = Inr (v, p', tk') \<and> 0 \<le> v" if "0 < n'" for n'
      proof -
        obtain n0 where "n' = Suc n0" using \<open>0 < n'\<close> by (cases n') simp_all
        then show ?thesis using finish_ok(2) [OF Suc.prems(1,2) _ f(3)] tx by simp
      qed
      then have "comma_fault js len num ?st" using f(2) True unfolding comma_fault_def by auto
      then show ?thesis using f(1) unf by simp
    next
      fix v p' ts' c' assume r: "?r = Inr (Some v, p', Some ts', c')" "length ts' = length ts" and
        v: "v = JSMN_ERROR_INVAL"
      show ?thesis unfolding unf r(1) by (simp add: jsmn_result_def r(2) v)
    next
      fix v p' ts' c' assume r: "?r = Inr (Some v, p', Some ts', c')" "length ts' = length ts" and
        v: "v = JSMN_ERROR_PART"
      show ?thesis unfolding unf r(1) by (simp add: jsmn_result_def r(2) v)
    next
      fix v p' ts' c' assume r: "?r = Inr (Some v, p', Some ts', c')" "length ts' = length ts" and
        v: "v = JSMN_ERROR_NOMEM"
      show ?thesis unfolding unf r(1) by (simp add: jsmn_result_def r(2) v)
    next
      fix p' ts' c' assume r: "?r = Inr (None, p', Some ts', c')" "length ts' = length ts"
        "jinv js (Suc (pos p')) num p' ts'" "pos p \<le> pos p'" "pos p' < len"
        "c' - int (toknext p') = int (toknext p) - int (toknext p)"
      define p2 where "p2 = p'\<lparr>pos := Suc (pos p')\<rparr>"
      have p2: "jinv js (pos p2) num p2 ts'" "pos p2 \<le> len" "len - pos p2 < n" "c' = int (toknext p2)" "inc32 (pos p') = pos p2"
        using r(3-6) Suc.prems(3) tx by (simp_all add: p2_def)
      have e: "jsmn_loop (Suc n) js len num ?st = jsmn_loop n js len num (p2, Some ts', int (toknext p2))"
        unfolding unf r(1) using p2(4,5) by (simp add: p2_def)
      have "comma_fault js len num ?st" if "comma_fault js len num (p2, Some ts', int (toknext p2))"
      proof (rule comma_fault_back [OF _ rdp _ r(1,4)])
        show "comma_fault js len num (p'\<lparr>pos := Suc (pos p')\<rparr>, Some ts', c')" using that p2(4) by (simp add: p2_def)
      qed (use True tx in simp_all)
      then show ?thesis using Suc.IH [OF p2(1-3)] r(2) unfolding e by (auto simp: jsmn_result_def)
    qed
  qed
qed simp

section \<open>The counting pass\<close>

lemma count_string:
  assumes "jsmn_parse_string p js len None num = Inr (v, p', tk')"
  shows "tk' = None \<and> toknext p' = toknext p \<and> v \<le> 0"
proof -
  obtain r where r: "str_scan (Suc len) js len (inc32 (pos p)) = Inr r"
    using assms by (auto simp: jsmn_parse_string_def bindR_eq_Inr simp del: str_scan.simps)
  then show ?thesis using assms
    by (cases r) (auto simp: jsmn_parse_string_def new_token_def simp del: str_scan.simps)
qed

lemma count_primitive:
  assumes "jsmn_parse_primitive p js len None num = Inr (v, p', tk')"
  shows "tk' = None \<and> toknext p' = toknext p \<and> v \<le> 0"
  using assms by (auto simp: jsmn_parse_primitive_def new_token_def bindR_eq_Inr simp del: prim_scan.simps split: if_split_asm)

lemma count_value:
  assumes "jsmn_value r c = Inr (ret, p', tk', c')" "\<And>v q t. r = Inr (v, q, t) \<Longrightarrow> t = None \<and> toknext q = n \<and> v \<le> 0"
  shows "tk' = None \<and> toknext p' = n \<and> c \<le> c' \<and> (\<forall>v. ret = Some v \<longrightarrow> v < 0)"
proof -
  obtain v q t where r: "r = Inr (v, q, t)" using assms(1) by (cases r) (auto simp: jsmn_value_def)
  then have "t = None" "toknext q = n" "v \<le> 0" using assms(2) by auto
  then show ?thesis using assms(1) unfolding r by (auto simp: jsmn_value_def split: if_splits)
qed

lemma count_char:
  assumes "jsmn_char js len num ch (p, None, c) = Inr (ret, p', tk', c')"
  shows "tk' = None \<and> toknext p' = toknext p \<and> c \<le> c' \<and> (\<forall>v. ret = Some v \<longrightarrow> v < 0)"
proof -
  have s: ?thesis if "jsmn_value (jsmn_parse_string p js len None num) c = Inr (ret, p', tk', c')"
    by (rule count_value [OF that]) (rule count_string)
  have v: ?thesis if "jsmn_value (jsmn_parse_primitive p js len None num) c = Inr (ret, p', tk', c')"
    by (rule count_value [OF that]) (rule count_primitive)
  show ?thesis using assms s v unfolding jsmn_char_def Let_def prod.case
    by (auto simp: jsmn_opening_def jsmn_closing_def jsmn_comma_def split: if_splits)
qed

lemma count_mono:
  assumes "jsmn_loop n js len num (p, None, c) = Inr (k, q, tk)" "0 \<le> k"
  shows "c \<le> k"
  using assms(1)
proof (induction n arbitrary: p c)
  case (Suc n)
  show ?case
  proof (cases "pos p < len \<and> js ! pos p \<noteq> 0 \<and> pos p < length js")
    case True
    then obtain ret p' tk' c' where r: "jsmn_char js len num (js ! pos p) (p, None, c) = Inr (ret, p', tk', c')"
      using Suc.prems by (cases "jsmn_char js len num (js ! pos p) (p, None, c)") auto
    note cc = count_char [OF r]
    have "c' \<le> k"
    proof (cases ret)
      case None
      then show ?thesis using Suc.prems True r cc Suc.IH by simp
    next
      case (Some v)
      then show ?thesis using Suc.prems True r cc assms(2) by simp
    qed
    then show ?thesis using cc by simp
  next
    case False
    then show ?thesis using Suc.prems by (auto simp: jsmn_finish_def rd_def guardR_def split: if_splits)
  qed
qed simp

text \<open>
  A character in the second pass, seen from the counting pass: when the second pass goes on, or
  when it has no token left, the counting pass goes on, at the same position and with the same
  count, or one more.
\<close>

lemma new_token_count:
  assumes "new_token ty a b q p (Some ts) num = Inr (v, p', tk')" "0 \<le> v \<or> v = JSMN_ERROR_NOMEM"
  shows "\<exists>ts'. tk' = Some ts' \<and> (0 \<le> v \<longrightarrow> pos p' = q) \<and> new_token ty a b q p0 None num0 = Inr (0, p0\<lparr>pos := q\<rparr>, None)"
  using assms by (auto simp: new_token_def bindR_eq_Inr split: option.splits)

lemma value_count:
  assumes r: "\<And>v q t. r = Inr (v, q, t) \<Longrightarrow> 0 \<le> v \<or> v = JSMN_ERROR_NOMEM \<Longrightarrow>
      \<exists>x ts. t = Some ts \<and> (0 \<le> v \<longrightarrow> pos q = x) \<and> r0 = Inr (0, p0\<lparr>pos := x\<rparr>, None)"
    and v: "jsmn_value r c = Inr (ret, p', tk', c')" "ret = None \<or> ret = Some JSMN_ERROR_NOMEM"
  shows "\<exists>p0'. jsmn_value r0 c = Inr (None, p0', None, c + 1) \<and> (ret = None \<longrightarrow> pos p0' = pos p' \<and> c' = c + 1)"
proof -
  obtain v q t where e: "r = Inr (v, q, t)" using v(1) by (cases r) (auto simp: jsmn_value_def)
  have "0 \<le> v \<or> v = JSMN_ERROR_NOMEM" using v unfolding e by (auto simp: jsmn_value_def split: if_splits)
  from r [OF e this] obtain x ts where x: "t = Some ts" "0 \<le> v \<longrightarrow> pos q = x" "r0 = Inr (0, p0\<lparr>pos := x\<rparr>, None)" by blast
  have "jsmn_value r0 c = Inr (None, p0\<lparr>pos := x\<rparr>, None, c + 1)" unfolding x(3) by (simp add: jsmn_value_def)
  moreover have "pos q = x \<and> p' = q \<and> c' = c + 1" if "ret = None"
    using v(1) x(1,2) that unfolding e by (auto simp: jsmn_value_def bindR_eq_Inr split: if_splits)
  ultimately show ?thesis by simp
qed

lemma string_count:
  assumes "jsmn_parse_string p js len (Some ts) num = Inr (v, p', tk')" "0 \<le> v \<or> v = JSMN_ERROR_NOMEM" "pos p0 = pos p"
  shows "\<exists>x ts. tk' = Some ts \<and> (0 \<le> v \<longrightarrow> pos p' = x) \<and> jsmn_parse_string p0 js len None num0 = Inr (0, p0\<lparr>pos := x\<rparr>, None)"
proof -
  obtain r where r: "str_scan (Suc len) js len (inc32 (pos p)) = Inr r"
    using assms(1) by (auto simp: jsmn_parse_string_def bindR_eq_Inr simp del: str_scan.simps)
  then obtain q where q: "r = Str_quote q" "new_token JSMN_STRING (pos p + 1) q q p (Some ts) num = Inr (v, p', tk')"
    using assms(1,2) by (cases r) (auto simp: jsmn_parse_string_def simp del: str_scan.simps)
  show ?thesis using new_token_count [OF q(2) assms(2), of p0 num0] r q(1) assms(3)
    by (auto simp: jsmn_parse_string_def simp del: str_scan.simps)
qed

lemma primitive_count:
  assumes "jsmn_parse_primitive p js len (Some ts) num = Inr (v, p', tk')" "0 \<le> v \<or> v = JSMN_ERROR_NOMEM" "pos p0 = pos p"
  shows "\<exists>x ts. tk' = Some ts \<and> (0 \<le> v \<longrightarrow> pos p' = x) \<and> jsmn_parse_primitive p0 js len None num0 = Inr (0, p0\<lparr>pos := x\<rparr>, None)"
proof -
  obtain f q where r: "prim_scan (Suc len) js len (pos p) = Inr (f, q)"
    using assms(1) by (cases "prim_scan (Suc len) js len (pos p)") (auto simp: jsmn_parse_primitive_def simp del: prim_scan.simps)
  then have "(if f then new_token JSMN_PRIMITIVE (pos p) q (dec32 q) p (Some ts) num else Inr (JSMN_ERROR_INVAL, p, Some ts)) = Inr (v, p', tk')"
    using assms(1) by (simp add: jsmn_parse_primitive_def del: prim_scan.simps)
  then have q: f "new_token JSMN_PRIMITIVE (pos p) q (dec32 q) p (Some ts) num = Inr (v, p', tk')"
    using assms(2) by (auto split: if_splits)
  show ?thesis using new_token_count [OF q(2) assms(2), of p0 num0] r q(1) assms(3)
    by (auto simp: jsmn_parse_primitive_def simp del: prim_scan.simps)
qed

lemma char_count:
  assumes r: "jsmn_char js len num ch (p, Some ts, c) = Inr (ret, p', tk', c')" "ret = None \<or> ret = Some JSMN_ERROR_NOMEM"
    and p0: "pos p0 = pos p"
  shows "\<exists>p0' c0. jsmn_char js len num0 ch (p0, None, c) = Inr (None, p0', None, c0) \<and>
    (ret = None \<longrightarrow> pos p0' = pos p' \<and> c0 = c') \<and> (ret \<noteq> None \<longrightarrow> c0 = c + 1)"
proof -
  let ?G = "\<lambda>x. \<exists>p0' c0. x = Inr (None, p0', None :: jsmntok list option, c0) \<and>
    (ret = None \<longrightarrow> pos p0' = pos p' \<and> c0 = c') \<and> (ret \<noteq> None \<longrightarrow> c0 = c + 1)"
  have s: "?G (jsmn_value (jsmn_parse_string p0 js len None num0) c)"
    if "jsmn_value (jsmn_parse_string p js len (Some ts) num) c = Inr (ret, p', tk', c')"
  proof -
    have "\<exists>p0'. jsmn_value (jsmn_parse_string p0 js len None num0) c = Inr (None, p0', None, c + 1) \<and>
      (ret = None \<longrightarrow> pos p0' = pos p' \<and> c' = c + 1)"
      by (rule value_count [OF _ that r(2)]) (rule string_count [OF _ _ p0])
    then show ?thesis by blast
  qed
  have v: "?G (jsmn_value (jsmn_parse_primitive p0 js len None num0) c)"
    if "jsmn_value (jsmn_parse_primitive p js len (Some ts) num) c = Inr (ret, p', tk', c')"
  proof -
    have "\<exists>p0'. jsmn_value (jsmn_parse_primitive p0 js len None num0) c = Inr (None, p0', None, c + 1) \<and>
      (ret = None \<longrightarrow> pos p0' = pos p' \<and> c' = c + 1)"
      by (rule value_count [OF _ that r(2)]) (rule primitive_count [OF _ _ p0])
    then show ?thesis by blast
  qed
  have o: "?G (jsmn_opening ch num0 (p0, None, c))" if "jsmn_opening ch num (p, Some ts, c) = Inr (ret, p', tk', c')"
    using that p0 by (auto simp: jsmn_opening_def jsmn_alloc_token_def bindR_eq_Inr Let_def split: if_split_asm)
  have cl: "?G (jsmn_closing ch (p0, None, c))" if h: "jsmn_closing ch (p, Some ts, c) = Inr (ret, p', tk', c')"
  proof -
    obtain m where m: "find_open ts (toknext p) = Inr m"
      using h by (cases "find_open ts (toknext p)") (auto simp: jsmn_closing_def guardR_def split: if_split_asm)
    show ?thesis
    proof (cases m)
      case None
      then show ?thesis using that m r(2) by (auto simp: jsmn_closing_def guardR_def split: if_split_asm)
    next
      case (Some i)
      then have "ret = None \<longrightarrow> pos p' = pos p \<and> c' = c" "ret \<noteq> Some JSMN_ERROR_NOMEM"
        using that m by (auto simp: jsmn_closing_def guardR_def bindR_eq_Inr Let_def simp del: find_open.simps split: if_split_asm)
      then show ?thesis using p0 r(2) by (auto simp: jsmn_closing_def)
    qed
  qed
  have cm: "?G (jsmn_comma (p0, None, c))" if "jsmn_comma (p, Some ts, c) = Inr (ret, p', tk', c')"
    using that p0 by (auto simp: jsmn_comma_def bindR_eq_Inr split: if_splits)
  have triv: "?G (Inr (None, p0, None, c))" if "Inr (None, p, Some ts, c) = (Inr (ret, p', tk', c') :: (int option \<times> jsmn_state) res)"
    using that p0 by auto
  have colon: "?G (Inr (None, p0\<lparr>toksuper := x\<rparr>, None, c))"
    if "Inr (None, p\<lparr>toksuper := y\<rparr>, Some ts, c) = (Inr (ret, p', tk', c') :: (int option \<times> jsmn_state) res)" for x y
    using that p0 by auto
  show ?thesis
    using r(1) unfolding jsmn_char_def Let_def prod.case
    by (rule if_chain [where G = ?G, OF _ o cl s triv colon cm v])
qed

lemma two_pass_loop:
  assumes tx: "text_ok js len" and inv: "jinv js (pos p) num p ts" "pos p \<le> len"
    and p0: "pos p0 = pos p" "toknext p0 = 0"
    and k: "jsmn_loop n js len num0 (p0, None, int (toknext p)) = Inr (k, q, tk)" "0 \<le> k" "k \<le> int num"
  shows "case jsmn_loop n js len num (p, Some ts, int (toknext p)) of
      Inl e \<Rightarrow> e = Out_of_bounds | Inr (v, _) \<Rightarrow> v \<in> {k, JSMN_ERROR_INVAL, JSMN_ERROR_PART}"
  using inv p0 k(1)
proof (induction n arbitrary: p p0 ts)
  case (Suc n)
  let ?c = "int (toknext p)" let ?st = "(p, Some ts, ?c)"
  show ?case
  proof (cases "pos p < len \<and> js ! pos p \<noteq> 0")
    case False
    then have f: "jsmn_loop (Suc n) js len num ?st = jsmn_finish ?st" "jsmn_loop (Suc n) js len num0 (p0, None, ?c) = jsmn_finish (p0, None, ?c)"
      using tx Suc.prems(3) by auto
    have "k = ?c" using Suc.prems(4,5) unfolding f(2) by (simp add: jsmn_finish_def)
    moreover have n: "toknext p \<le> length ts" "toknext p \<le> 2147483648" using jinvD(1-3) [OF Suc.prems(1)] Suc.prems(2) tx by simp_all
    moreover obtain m where "find_open ts (toknext p) = Inr m" using find_open_ok [OF n(1)] by metis
    ultimately show ?thesis unfolding f(1) by (simp add: jsmn_finish_def)
  next
    case True
    have rdp: "rd js (pos p) = Inr (js ! pos p)" using True tx by simp
    let ?r = "jsmn_char js len num (js ! pos p) ?st"
    have unf: "jsmn_loop (Suc n) js len num ?st = bindR ?r (\<lambda>(ret, parser, tokens, count). case ret of
        Some r \<Rightarrow> Inr (r, parser, tokens)
      | None \<Rightarrow> jsmn_loop n js len num (parser\<lparr>pos := inc32 (pos parser)\<rparr>, tokens, count))"
      using True rdp by simp
    have "step_ok js len num p ts ?c ?r" using tx Suc.prems(1) True by (intro char_ok) simp_all
    then show ?thesis unfolding step_ok_def
    proof (elim disjE exE conjE)
      fix v p' ts' c' assume r: "?r = Inr (Some v, p', Some ts', c')" and v: "v = JSMN_ERROR_NOMEM" "num \<le> toknext p"
      obtain p1 where "jsmn_char js len num0 (js ! pos p) (p0, None, ?c) = Inr (None, p1, None, ?c + 1)"
        using char_count [OF r, of p0 num0] v(1) Suc.prems(3) by auto
      then have "jsmn_loop n js len num0 (p1\<lparr>pos := inc32 (pos p1)\<rparr>, None, ?c + 1) = Inr (k, q, tk)"
        using Suc.prems(3,5) True rdp by simp
      from count_mono [OF this k(2)] show ?thesis using v(2) k(3) by simp
    next
      fix p' ts' c' assume r: "?r = Inr (None, p', Some ts', c')" "length ts' = length ts"
        "jinv js (Suc (pos p')) num p' ts'" "pos p \<le> pos p'" "pos p' < len" "c' - int (toknext p') = ?c - ?c"
      define p2 where "p2 = p'\<lparr>pos := Suc (pos p')\<rparr>"
      have p2: "jinv js (pos p2) num p2 ts'" "pos p2 \<le> len" "c' = int (toknext p2)" "inc32 (pos p') = pos p2"
        using r(3-6) tx by (simp_all add: p2_def)
      obtain p1 where p1: "jsmn_char js len num0 (js ! pos p) (p0, None, ?c) = Inr (None, p1, None, c')" "pos p1 = pos p'"
        using char_count [OF r(1), of p0 num0] Suc.prems(3) by auto
      define p3 where "p3 = p1\<lparr>pos := Suc (pos p')\<rparr>"
      have p3: "pos p3 = pos p2" "toknext p3 = 0"
        using count_char [OF p1(1)] Suc.prems(4) by (simp_all add: p3_def p2_def)
      have "jsmn_loop n js len num0 (p3, None, int (toknext p2)) = Inr (k, q, tk)"
        using Suc.prems(3,5) True rdp p1 p2(3,4) by (simp add: p3_def p2_def)
      from Suc.IH [OF p2(1,2) p3 this] show ?thesis unfolding unf r(1) using p2(3,4) by (simp add: p2_def)
    qed (simp_all add: unf del: jsmn_loop.simps)
  qed
qed simp

section \<open>The entry point\<close>

lemma jinv_init:
  assumes "num \<le> length ts"
  shows "jinv js 0 num jsmn_init ts"
  using assms by (simp add: jinv_def jsmn_init_def)

text \<open>
  C13. \<open>jsmn_parse\<close> on a text below two gigabytes ends, and accesses neither the text nor the token
  array out of bounds, with one exception: it reads the element in front of the array exactly
  at a comma after text that is complete in itself. When it returns a non-negative number,
  this is the number of tokens it has filled, and every one of them delimits what its type
  says: a string lies between quotation marks, an object begins and ends with braces and an
  array with brackets, all within the text.
\<close>

theorem jsmn_parse_correct:
  assumes "len \<le> length js" "len < 2 ^ 31" "num \<le> length ts"
  shows "case jsmn_parse jsmn_init js len (Some ts) num of
      Inl e \<Rightarrow> e = Out_of_bounds \<and> (\<exists>k < len. js ! k = byte CHR '','' \<and>
        (\<exists>v p' tk'. jsmn_parse jsmn_init js k (Some ts) num = Inr (v, p', tk') \<and> 0 \<le> v))
    | Inr (v, p, tk) \<Rightarrow> (\<exists>ts'. tk = Some ts' \<and> length ts' = length ts \<and>
        (0 \<le> v \<longrightarrow> v = int (toknext p) \<and> toknext p \<le> num \<and>
          (\<forall>i < toknext p. tok_ok js len (ts' ! i) \<and> jt_end (ts' ! i) \<noteq> - 1)))"
proof -
  have tx: "text_ok js len" using assms by simp
  have i: "pos jsmn_init = 0" "toknext jsmn_init = 0" by (simp_all add: jsmn_init_def)
  have "jsmn_result js len num ts (jsmn_parse jsmn_init js len (Some ts) num) \<or>
    jsmn_parse jsmn_init js len (Some ts) num = Inl Out_of_bounds \<and> comma_fault js len num (jsmn_init, Some ts, 0)"
    using loop_ok [OF tx, of jsmn_init num ts "Suc len"] jinv_init [OF assms(3), of js] i
    by (simp add: jsmn_parse_def del: jsmn_loop.simps)
  then show ?thesis
  proof (elim disjE conjE)
    assume "jsmn_result js len num ts (jsmn_parse jsmn_init js len (Some ts) num)"
    then obtain v p ts' where r: "jsmn_parse jsmn_init js len (Some ts) num = Inr (v, p, Some ts')" "length ts' = length ts"
      "v < 0 \<or> v = int (toknext p) \<and> toknext p \<le> num \<and> tokens_ok js len p ts'" by (auto simp: jsmn_result_def)
    have "jt_end (ts' ! i) \<noteq> - 1" if "tok_ok js len (ts' ! i)" "\<not> is_open (ts' ! i)" for i
      using that by (auto simp: tok_ok_def span_ok_def is_open_def split: jsmntype.splits)
    then show ?thesis using r by (auto simp: tokens_ok_def)
  next
    assume "jsmn_parse jsmn_init js len (Some ts) num = Inl Out_of_bounds" "comma_fault js len num (jsmn_init, Some ts, 0)"
    then show ?thesis using i by (auto simp: comma_fault_def jsmn_parse_def simp del: jsmn_loop.simps)
  qed
qed

text \<open>
  C25. The two passes of \<open>rumprun_config\<close>: when the counting pass, without a token array, returns
  a number, then a second pass over the same text with at least as many tokens does not run
  out of them, and returns the same number unless the brackets do not match.
\<close>

theorem jsmn_two_passes:
  assumes "len \<le> length js" "len < 2 ^ 31"
    and "jsmn_parse jsmn_init js len None 0 = Inr (k, q, tk)" "0 \<le> k" "k \<le> int num" "num \<le> length ts"
  shows "case jsmn_parse jsmn_init js len (Some ts) num of
      Inl e \<Rightarrow> e = Out_of_bounds | Inr (v, _) \<Rightarrow> v \<in> {k, JSMN_ERROR_INVAL, JSMN_ERROR_PART}"
  using two_pass_loop [of len js jsmn_init num ts jsmn_init "Suc len" 0 k q tk] jinv_init [OF assms(6), of js] assms
  by (simp add: jsmn_parse_def jsmn_init_def del: jsmn_loop.simps)

section \<open>Examples\<close>

definition ex_text :: mem where
  "ex_text = bytes ''[1]''"

definition ex_tokens :: "jsmntok list" where
  "ex_tokens = (let t = \<lparr>jt_type = JSMN_PRIMITIVE, jt_start = 0, jt_end = 0, jt_size = 0\<rparr> in [t, t])"

lemma ex_text_bytes: "ex_text = [91, 49, 93]"
  by (simp add: ex_text_def)

lemmas ex_simps = jsmn_parse_def jsmn_init_def ex_text_bytes ex_tokens_def jsmn_char_def jsmn_opening_def jsmn_closing_def
  jsmn_value_def jsmn_parse_primitive_def new_token_def prim_delim_def jsmn_finish_def jsmn_alloc_token_def tok_at_def
  jsmn_fill_token_def tok_grow_def is_open_def Let_def to_int32_pred

lemma ex_count: "\<exists>q. jsmn_parse jsmn_init ex_text (Suc (Suc (Suc 0))) None 0 = Inr (2, q, None)"
  by (simp add: ex_simps)

lemma ex_pass:
  "\<exists>p ts. jsmn_parse jsmn_init ex_text (Suc (Suc (Suc 0))) (Some ex_tokens) (Suc (Suc 0)) = Inr (2, p, Some ts) \<and>
     map jt_type ts = [JSMN_ARRAY, JSMN_PRIMITIVE] \<and> map jt_start ts = [0, 1] \<and> map jt_end ts = [3, 2] \<and> map jt_size ts = [1, 0]"
  by (simp add: ex_simps)

theorem jsmn_parse_correct_witness:
  "\<exists>p ts. jsmn_parse jsmn_init ex_text (Suc (Suc (Suc 0))) (Some ex_tokens) (Suc (Suc 0)) = Inr (2, p, Some ts) \<and>
     toknext p = 2 \<and> tok_ok ex_text 3 (ts ! 0) \<and> tok_ok ex_text 3 (ts ! 1)"
proof -
  obtain p ts where r: "jsmn_parse jsmn_init ex_text (Suc (Suc (Suc 0))) (Some ex_tokens) (Suc (Suc 0)) = Inr (2, p, Some ts)"
    using ex_pass by blast
  have "toknext p = 2 \<and> (\<forall>i < toknext p. tok_ok ex_text (Suc (Suc (Suc 0))) (ts ! i))"
    using jsmn_parse_correct [of "Suc (Suc (Suc 0))" ex_text "Suc (Suc 0)" ex_tokens] unfolding r
    by (simp add: ex_text_bytes ex_tokens_def Let_def)
  then show ?thesis using r by (simp add: numeral_3_eq_3)
qed

theorem jsmn_two_passes_witness:
  "(\<exists>q. jsmn_parse jsmn_init ex_text (Suc (Suc (Suc 0))) None 0 = Inr (2, q, None)) \<and>
   (case jsmn_parse jsmn_init ex_text (Suc (Suc (Suc 0))) (Some ex_tokens) (Suc (Suc 0)) of
      Inl e \<Rightarrow> False | Inr (v, _) \<Rightarrow> v = 2)"
proof -
  obtain q where q: "jsmn_parse jsmn_init ex_text (Suc (Suc (Suc 0))) None 0 = Inr (2, q, None)" using ex_count by blast
  obtain p ts where "jsmn_parse jsmn_init ex_text (Suc (Suc (Suc 0))) (Some ex_tokens) (Suc (Suc 0)) = Inr (2, p, Some ts)"
    using ex_pass by blast
  then show ?thesis
    using jsmn_two_passes [OF _ _ q, of "Suc (Suc 0)" ex_tokens] q by (simp add: ex_text_bytes ex_tokens_def Let_def)
qed

text \<open>The exception: a comma at the beginning of the text.\<close>

lemma jsmn_leading_comma:
  "0 < len \<Longrightarrow> jsmn_parse jsmn_init (byte CHR '','' # js) len (Some ts) num = Inl Out_of_bounds"
  by (simp add: jsmn_parse_def jsmn_init_def jsmn_char_def jsmn_comma_def tok_at_def)

end
