(* ===== verification/Parseargs.thy ===== *)
theory Parseargs
  imports BmkPrelude
begin

text \<open>
  The command line splitter \<open>rumprun_parseargs\<close> of \<open>lib/librumprun_base/parseargs.c\<close>. It runs over
  a text in memory and, when it is given an array, rewrites the text in place: each argument
  becomes a string of its own, without its quotes and backslashes, and the array is filled with
  their addresses. Without an array it only counts. The theory shows that both passes agree
  with a splitter on lists, and that arguments survive quoting and splitting.
\<close>

section \<open>The program\<close>

record pargs =
  pa_mem :: mem
  pa_out :: "nat option"
  pa_quote :: int
  pa_nargs :: int
  pa_array :: "nat list option"

abbreviation BACKSLASH :: u8 where "BACKSLASH \<equiv> 92"
abbreviation SQUOTE :: u8 where "SQUOTE \<equiv> 39"
abbreviation DQUOTE :: u8 where "DQUOTE \<equiv> 34"

definition is_delim :: "u8 \<Rightarrow> bool" where
  "is_delim c \<longleftrightarrow> c = 32 \<or> c = 10 \<or> c = 9"

text \<open>\<open>if (out) *out++ = c\<close>\<close>

definition put_out :: "pargs \<Rightarrow> u8 \<Rightarrow> pargs res" where
  "put_out st c =
     (case pa_out st of
        None \<Rightarrow> Inr st
      | Some p \<Rightarrow> bindR (wr (pa_mem st) p c) (\<lambda>M. Inr (st\<lparr>pa_mem := M, pa_out := Some (p + 1)\<rparr>)))"

definition start_arg :: "pargs \<Rightarrow> nat \<Rightarrow> pargs res" where
  "start_arg st p =
     bindR (case pa_array st of
        None \<Rightarrow> Inr st
      | Some a \<Rightarrow>
          guardR (0 \<le> pa_nargs st \<and> pa_nargs st < int (length a)) Out_of_bounds
            (Inr (st\<lparr>pa_array := Some (a[nat (pa_nargs st) := p]), pa_out := Some p\<rparr>))) (\<lambda>st.
     bindR (chk32 (pa_nargs st + 1)) (\<lambda>n. Inr (st\<lparr>pa_nargs := n, pa_quote := 0\<rparr>)))"

text \<open>One round of the loop, once \<open>ac\<close> and \<open>rc\<close> are read and \<open>p\<close> is behind them.\<close>

definition parse_round :: "pargs \<Rightarrow> u8 \<Rightarrow> u8 \<Rightarrow> nat \<Rightarrow> (bool \<times> pargs) res" where
  "parse_round st ac rc p =
     bindR (if (rc = 0 \<or> is_delim ac) \<and> (rc = 0 \<or> pa_quote st = 0)
            then bindR (put_out st 0) (\<lambda>st. Inr (st\<lparr>pa_quote := - 1\<rparr>)) else Inr st) (\<lambda>st.
     if rc = 0 then Inr (True, st)
     else if is_delim ac \<and> pa_quote st < 0 then Inr (False, st)
     else
       bindR (if pa_quote st < 0 then start_arg st (p - 1) else Inr st) (\<lambda>st.
       if pa_quote st > 0 \<and> sint ac = pa_quote st then Inr (False, st\<lparr>pa_quote := 0\<rparr>)
       else if ac = SQUOTE \<or> ac = DQUOTE then Inr (False, st\<lparr>pa_quote := sint ac\<rparr>)
       else bindR (put_out st rc) (\<lambda>st. Inr (False, st))))"

lemma put_out_length: "put_out st c = Inr st' \<Longrightarrow> length (pa_mem st') = length (pa_mem st)"
  by (auto simp: put_out_def bindR_eq_Inr wr_def split: option.splits)

lemma start_arg_length: "start_arg st p = Inr st' \<Longrightarrow> pa_mem st' = pa_mem st"
  by (auto simp: start_arg_def bindR_eq_Inr split: option.splits)

lemma parse_round_length: "parse_round st ac rc p = Inr (b, st') \<Longrightarrow> length (pa_mem st') = length (pa_mem st)"
  by (auto simp: parse_round_def bindR_eq_Inr dest!: put_out_length start_arg_length split: if_splits)

function parse_loop :: "pargs \<Rightarrow> nat \<Rightarrow> pargs res" where
  "parse_loop st p =
     bindR (rd (pa_mem st) p) (\<lambda>ac.
     bindR (if ac = BACKSLASH then bindR (rd (pa_mem st) (p + 1)) (\<lambda>rc. Inr (rc, p + 2)) else Inr (ac, p + 1)) (\<lambda>(rc, p).
     bindR (parse_round st ac rc p) (\<lambda>(quit, st). if quit then Inr st else parse_loop st p)))"
  by pat_completeness auto
termination
  by (relation "measure (\<lambda>(st, p). length (pa_mem st) - p)")
    (auto dest!: parse_round_length rd_InrD simp: bindR_eq_Inr split: if_splits)

declare parse_loop.simps [simp del]

definition rumprun_parseargs :: "mem \<Rightarrow> nat \<Rightarrow> nat list option \<Rightarrow> (int \<times> mem \<times> nat list option) res" where
  "rumprun_parseargs M p outarray =
     bindR (parse_loop \<lparr>pa_mem = M, pa_out = None, pa_quote = - 1, pa_nargs = 0, pa_array = outarray\<rparr> p) (\<lambda>st.
       Inr (pa_nargs st, pa_mem st, pa_array st))"

section \<open>The splitter on lists\<close>

definition add_char :: "u8 list list \<Rightarrow> u8 \<Rightarrow> u8 list list" where
  "add_char args c = butlast args @ [last args @ [c]]"

definition split_char :: "int \<Rightarrow> u8 list list \<Rightarrow> u8 \<Rightarrow> u8 \<Rightarrow> int \<times> u8 list list" where
  "split_char q args ac rc =
     (if is_delim ac \<and> q \<le> 0 then (- 1, args)
      else
        let args = (if q < 0 then args @ [[]] else args); q = max q 0
        in if q > 0 \<and> sint ac = q then (0, args)
           else if ac = SQUOTE \<or> ac = DQUOTE then (sint ac, args)
           else (q, add_char args rc))"

fun split_text :: "int \<Rightarrow> u8 list list \<Rightarrow> u8 list \<Rightarrow> u8 list list" where
  "split_text q args [] = args"
| "split_text q args (ac # s) =
     (if ac = BACKSLASH
      then (case s of [] \<Rightarrow> args | rc # s' \<Rightarrow> (let (q, args) = split_char q args ac rc in split_text q args s'))
      else (let (q, args) = split_char q args ac ac in split_text q args s))"

definition arguments :: "u8 list \<Rightarrow> u8 list list" where
  "arguments s = split_text (- 1) [] s"

lemma split_char_open:
  assumes "split_char q args ac rc = (q', args')" "q < 0 \<or> args \<noteq> []"
  shows "q' < 0 \<or> args' \<noteq> []" "length args \<le> length args'"
  using assms by (auto simp: split_char_def add_char_def Let_def split: if_splits)

lemma split_text_length: "q < 0 \<or> args \<noteq> [] \<Longrightarrow> length args \<le> length (split_text q args s)"
proof (induction q args s rule: split_text.induct)
  case (2 q args ac s)
  show ?case
  proof (cases "ac = BACKSLASH")
    case False
    obtain q' args' where s: "split_char q args ac ac = (q', args')" by (cases "split_char q args ac ac")
    then have "split_text q args (ac # s) = split_text q' args' s" using False by simp
    then show ?thesis
      using 2(2) [OF False s [symmetric] refl split_char_open(1) [OF s 2(3)]] split_char_open(2) [OF s 2(3)] by simp
  next
    case True
    show ?thesis
    proof (cases s)
      case (Cons rc s')
      obtain q' args' where s: "split_char q args ac rc = (q', args')" by (cases "split_char q args ac rc")
      then have "split_text q args (ac # s) = split_text q' args' s'" using True Cons by simp
      then show ?thesis
        using 2(1) [OF True Cons s [symmetric] refl split_char_open(1) [OF s 2(3)]] split_char_open(2) [OF s 2(3)] by simp
    qed (use True in simp)
  qed
qed simp

section \<open>Strings in memory\<close>

definition holds :: "mem \<Rightarrow> nat \<Rightarrow> u8 list \<Rightarrow> bool" where
  "holds M a w \<longleftrightarrow> a + length w \<le> length M \<and> take (length w) (drop a M) = w"

lemma holds_Nil [simp]: "holds M a [] \<longleftrightarrow> a \<le> length M"
  by (simp add: holds_def)

lemma holds_update: "holds M a w \<Longrightarrow> a + length w \<le> j \<Longrightarrow> holds (M[j := c]) a w"
  by (simp add: holds_def drop_update_swap)

lemma holds_snoc: "holds M a w \<Longrightarrow> a + length w < length M \<Longrightarrow> holds (M[a + length w := c]) a (w @ [c])"
  by (simp add: holds_def drop_update_swap take_Suc_conv_app_nth)

lemma holds_app: "holds M a (u @ v) \<longleftrightarrow> holds M a u \<and> holds M (a + length u) v"
  by (auto simp: holds_def take_add add.commute)

lemma holds_Cons: "holds M a (c # v) \<longleftrightarrow> a < length M \<and> M ! a = c \<and> holds M (a + 1) v"
proof (cases "a < length M")
  case True
  then have "drop a M = M ! a # drop (Suc a) M" by (simp add: Cons_nth_drop_Suc)
  then show ?thesis using True by (auto simp: holds_def)
qed (simp add: holds_def)

section \<open>A pass over the text\<close>

text \<open>
  What the loop relies on, for the pass that counts and for the pass that fills the array: \<open>J\<close>
  holds between the rounds, with \<open>p\<close> the next byte to read, and \<open>D\<close> at the end.
\<close>

locale pass =
  fixes J :: "pargs \<Rightarrow> nat \<Rightarrow> int \<Rightarrow> u8 list list \<Rightarrow> bool" and D :: "pargs \<Rightarrow> nat \<Rightarrow> u8 list list \<Rightarrow> bool"
    and cap :: nat and M0 :: mem
  assumes J_state: "J st p q args \<Longrightarrow> pa_quote st = q \<and> length (pa_mem st) = length M0 \<and>
      (\<forall>j. p \<le> j \<longrightarrow> j < length M0 \<longrightarrow> pa_mem st ! j = M0 ! j)"
    and J_mono: "J st p q args \<Longrightarrow> p \<le> p' \<Longrightarrow> J st p' q args"
    and J_start: "J st p (- 1) args \<Longrightarrow> p < length M0 \<Longrightarrow> length args < cap \<Longrightarrow>
      \<exists>st'. start_arg st p = Inr st' \<and> J st' p 0 (args @ [[]])"
    and J_put: "J st p q args \<Longrightarrow> 0 \<le> q \<Longrightarrow> p < length M0 \<Longrightarrow> \<exists>st'. put_out st c = Inr st' \<and> J st' (p + 1) q (add_char args c)"
    and J_quote: "J st p q args \<Longrightarrow> 0 \<le> q \<Longrightarrow> 0 \<le> q' \<Longrightarrow> J (st\<lparr>pa_quote := q'\<rparr>) p q' args"
    and J_close: "J st p 0 args \<Longrightarrow> p < length M0 \<Longrightarrow> \<exists>st'. put_out st 0 = Inr st' \<and> J (st'\<lparr>pa_quote := - 1\<rparr>) (p + 1) (- 1) args"
    and J_end: "J st p q args \<Longrightarrow> p < length M0 \<Longrightarrow> \<exists>st'. put_out st 0 = Inr st' \<and> D (st'\<lparr>pa_quote := - 1\<rparr>) (p + 1) args"
begin

lemma round_split:
  assumes J: "J st p q args" and q: "- 1 \<le> q" and p: "p < p'" "p' \<le> length M0" and rc: "rc \<noteq> 0"
    and s: "split_char q args ac rc = (q', args')" and l: "length args' \<le> cap" and a: "q < 0 \<or> args \<noteq> []"
  shows "\<exists>st'. parse_round st ac rc p' = Inr (False, st') \<and> J st' p' q' args' \<and> - 1 \<le> q'"
proof (cases "is_delim ac \<and> q \<le> 0")
  case True
  then have e: "q' = - 1" "args' = args" using s by (simp_all add: split_char_def)
  show ?thesis
  proof (cases "q = 0")
    case q0: True
    then obtain st1 where "put_out st 0 = Inr st1" "J (st1\<lparr>pa_quote := - 1\<rparr>) (p + 1) (- 1) args"
      using J_close [of st p args] J p by auto
    then show ?thesis using True q0 rc e J_state [OF J] J_mono [of _ "p + 1" "- 1" args p'] p
      by (simp add: parse_round_def)
  next
    case False
    then have m: "q = - 1" using True q by simp
    show ?thesis using True rc e J_state [OF J] J_mono [OF J, of p'] p unfolding m by (simp add: parse_round_def)
  qed
next
  case False
  let ?a = "if q < 0 then args @ [[]] else args" and ?q = "max q 0"
  have s': "(q', args') = (if ?q > 0 \<and> sint ac = ?q then (0, ?a)
      else if ac = SQUOTE \<or> ac = DQUOTE then (sint ac, ?a) else (?q, add_char ?a rc))"
    using s unfolding split_char_def Let_def if_not_P [OF False] by (rule sym)
  have l': "length ?a \<le> cap"
    using s' l a by (auto simp: add_char_def split: if_splits)
  have p': "p' - 1 < length M0" "Suc (p' - 1) = p'" "p' - 1 \<le> p'" "p \<le> p' - 1" using p by simp_all
  obtain st1 where st1: "(if pa_quote st < 0 then start_arg st (p' - 1) else Inr st) = Inr st1" "J st1 (p' - 1) ?q ?a"
  proof (cases "q < 0")
    case True
    then have m: "q = - 1" using q by simp
    obtain st1 where "start_arg st (p' - 1) = Inr st1" "J st1 (p' - 1) 0 (args @ [[]])"
      using J_start [OF J_mono [OF J [unfolded m] p'(4)] p'(1)] l' m by auto
    then show thesis using that J_state [OF J] m by simp
  next
    case False
    then show thesis using that J_state [OF J] J_mono [OF J p'(4)] by simp
  qed
  have r: "parse_round st ac rc p' = (if ?q > 0 \<and> sint ac = ?q then Inr (False, st1\<lparr>pa_quote := 0\<rparr>)
      else if ac = SQUOTE \<or> ac = DQUOTE then Inr (False, st1\<lparr>pa_quote := sint ac\<rparr>)
      else bindR (put_out st1 rc) (\<lambda>st. Inr (False, st)))"
  proof -
    have c: "\<not> ((rc = 0 \<or> is_delim ac) \<and> (rc = 0 \<or> pa_quote st = 0))" "\<not> (is_delim ac \<and> pa_quote st < 0)"
      using rc False J_state [OF J] by auto
    have "pa_quote st1 = ?q" using J_state [OF st1(2)] by simp
    then show ?thesis
      unfolding parse_round_def if_not_P [OF c(1)] if_not_P [OF c(2)] if_not_P [OF rc] bindR_simps st1(1) by (rule ssubst) (rule refl)
  qed
  obtain st2 where st2: "put_out st1 rc = Inr st2" "J st2 p' ?q (add_char ?a rc)"
    using J_put [OF st1(2) _ p'(1), of rc] p'(2) by auto
  have quo: "J (st1\<lparr>pa_quote := x\<rparr>) p' x ?a" if "0 \<le> x" for x
    using J_mono [OF J_quote [OF st1(2) _ that] p'(3)] by simp
  have x: "0 \<le> sint ac" if "ac = SQUOTE \<or> ac = DQUOTE" using that by auto
  consider "?q > 0 \<and> sint ac = ?q" | "\<not> (?q > 0 \<and> sint ac = ?q)" "ac = SQUOTE \<or> ac = DQUOTE"
    | "\<not> (?q > 0 \<and> sint ac = ?q)" "\<not> (ac = SQUOTE \<or> ac = DQUOTE)" by blast
  then show ?thesis
  proof cases
    case 1
    have "q' = 0" "args' = ?a" using s' unfolding if_P [OF 1] by simp_all
    then show ?thesis using quo [of 0] unfolding r if_P [OF 1] by simp
  next
    case 2
    have "q' = sint ac" "args' = ?a" using s' unfolding if_not_P [OF 2(1)] if_P [OF 2(2)] by simp_all
    then show ?thesis using quo [OF x [OF 2(2)]] x [OF 2(2)] unfolding r if_not_P [OF 2(1)] if_P [OF 2(2)] by simp
  next
    case 3
    have "q' = ?q" "args' = add_char ?a rc" using s' unfolding if_not_P [OF 3(1)] if_not_P [OF 3(2)] by simp_all
    then show ?thesis using st2 unfolding r if_not_P [OF 3(1)] if_not_P [OF 3(2)] by simp
  qed
qed

lemma loop_split:
  assumes "J st p q args" "- 1 \<le> q" "q < 0 \<or> args \<noteq> []" "holds M0 p (s @ [0])" "0 \<notin> set s"
    "length (split_text q args s) \<le> cap"
  shows "\<exists>st'. parse_loop st p = Inr st' \<and> D st' (p + length s + 1) (split_text q args s)"
  using assms
proof (induction q args s arbitrary: st p rule: split_text.induct)
  case (1 q args)
  have z: "p < length M0" "pa_mem st ! p = 0" "p < length (pa_mem st)"
    using 1 J_state [OF 1(1)] by (auto simp: holds_Cons)
  obtain st' where "put_out st 0 = Inr st'" "D (st'\<lparr>pa_quote := - 1\<rparr>) (p + 1) args"
    using J_end [OF 1(1) z(1)] by blast
  then show ?case using z by (simp add: parse_loop.simps [of st p] parse_round_def)
next
  case (2 q args ac s)
  note J = 2(3) and st = J_state [OF 2(3)]
  have a: "p < length M0" "pa_mem st ! p = ac" "holds M0 (p + 1) (s @ [0])" "ac \<noteq> 0"
    using 2 st by (auto simp: holds_Cons)
  show ?case
  proof (cases "ac = BACKSLASH")
    case False
    obtain q' args' where s: "split_char q args ac ac = (q', args')" by (cases "split_char q args ac ac")
    then have t: "split_text q args (ac # s) = split_text q' args' s" using False by simp
    have l: "length args' \<le> cap" using split_text_length [of q' args' s] split_char_open [OF s 2(5)] 2(8) t by simp
    obtain st' where st': "parse_round st ac ac (p + 1) = Inr (False, st')" "J st' (p + 1) q' args'" "- 1 \<le> q'"
      using round_split [OF J 2(4) _ _ a(4) s l 2(5), of "p + 1"] a(1) by auto
    have "\<exists>st''. parse_loop st' (p + 1) = Inr st'' \<and> D st'' (p + 1 + length s + 1) (split_text q' args' s)"
      using 2(2) [OF False s [symmetric] refl st'(2,3)] split_char_open [OF s 2(5)] a(3) 2(7,8) t by simp
    then show ?thesis using a(1,2) st st'(1) False t by (simp add: parse_loop.simps [of st p])
  next
    case True
    show ?thesis
    proof (cases s)
      case Nil
      have z: "p + 1 < length M0" "pa_mem st ! (p + 1) = 0" using a(3) Nil st by (auto simp: holds_Cons)
      obtain st' where "put_out st 0 = Inr st'" "D (st'\<lparr>pa_quote := - 1\<rparr>) (p + 1 + 1) args"
        using J_end [OF J_mono [OF J, of "p + 1"] z(1)] by auto
      then show ?thesis using z a(1,2) st True Nil by (simp add: parse_loop.simps [of st p] parse_round_def)
    next
      case (Cons rc s')
      have c: "p + 1 < length M0" "pa_mem st ! (p + 1) = rc" "holds M0 (p + 2) (s' @ [0])" "rc \<noteq> 0"
        using a(3) Cons st 2(7) by (auto simp: holds_Cons)
      obtain q' args' where s: "split_char q args ac rc = (q', args')" by (cases "split_char q args ac rc")
      then have t: "split_text q args (ac # s) = split_text q' args' s'" using True Cons by simp
      have l: "length args' \<le> cap" using split_text_length [of q' args' s'] split_char_open [OF s 2(5)] 2(8) t by simp
      obtain st' where st': "parse_round st ac rc (p + 2) = Inr (False, st')" "J st' (p + 2) q' args'" "- 1 \<le> q'"
        using round_split [OF J 2(4) _ _ c(4) s l 2(5), of "p + 2"] c(1) by auto
      have "\<exists>st''. parse_loop st' (p + 2) = Inr st'' \<and> D st'' (p + 2 + length s' + 1) (split_text q' args' s')"
        using 2(1) [OF True Cons s [symmetric] refl st'(2,3)] split_char_open [OF s 2(5)] c(3) 2(7,8) t Cons by simp
      then show ?thesis using a(1,2) c(1,2) st st'(1) True Cons t by (simp add: parse_loop.simps [of st p])
    qed
  qed
qed

end

lemma add_char_length: "args \<noteq> [] \<Longrightarrow> length (add_char args c) = length args" "add_char args c \<noteq> []"
  "butlast (add_char args c) = butlast args" "last (add_char args c) = last args @ [c]"
  by (simp_all add: add_char_def)

section \<open>The pass that counts\<close>

definition count_inv :: "nat \<Rightarrow> mem \<Rightarrow> pargs \<Rightarrow> int \<Rightarrow> u8 list list \<Rightarrow> bool" where
  "count_inv cap M0 st q args \<longleftrightarrow> cap < 2 ^ 31 \<and> pa_quote st = q \<and> pa_out st = None \<and> pa_array st = None \<and>
     pa_mem st = M0 \<and> pa_nargs st = int (length args) \<and> (0 \<le> q \<longrightarrow> args \<noteq> [])"

interpretation counting: pass "\<lambda>st p. count_inv cap M0 st" "\<lambda>st p args. count_inv cap M0 st (- 1) args" cap M0 for cap M0
proof (unfold_locales, goal_cases)
  case (3 st p args)
  then show ?case by (auto simp: count_inv_def start_arg_def)
next
  case (4 st p q args c)
  then show ?case by (auto simp: count_inv_def put_out_def add_char_length)
qed (auto simp: count_inv_def put_out_def)

section \<open>The pass that fills the array\<close>

text \<open>
  The finished arguments are strings of their own below \<open>hi\<close>, and the one that is being written
  grows at \<open>out\<close>; \<open>out\<close> never overtakes \<open>p\<close>, so that the rest of the text is still as it was.
\<close>

definition finished :: "mem \<Rightarrow> nat \<Rightarrow> nat list \<Rightarrow> nat \<Rightarrow> u8 list list \<Rightarrow> bool" where
  "finished M p0 a hi args \<longleftrightarrow>
     (\<forall>i < length args. p0 \<le> a ! i \<and> holds M (a ! i) (args ! i @ [0]) \<and> a ! i + length (args ! i) < hi)"

definition fill_mem :: "mem \<Rightarrow> nat \<Rightarrow> pargs \<Rightarrow> nat \<Rightarrow> bool" where
  "fill_mem M0 p0 st p \<longleftrightarrow> length (pa_mem st) = length M0 \<and>
     (\<forall>j < length M0. j < p0 \<or> p \<le> j \<longrightarrow> pa_mem st ! j = M0 ! j)"

definition fill_args :: "nat \<Rightarrow> pargs \<Rightarrow> nat \<Rightarrow> int \<Rightarrow> u8 list list \<Rightarrow> nat list \<Rightarrow> bool" where
  "fill_args p0 st p q args a \<longleftrightarrow>
     (if q < 0 then args = [] \<and> pa_out st = None \<or>
        (\<exists>hi. pa_out st = Some hi \<and> p0 \<le> hi \<and> hi \<le> p \<and> finished (pa_mem st) p0 a hi args)
      else args \<noteq> [] \<and> (let b = a ! (length args - 1) in
        pa_out st = Some (b + length (last args)) \<and> p0 \<le> b \<and> b + length (last args) \<le> p \<and>
        holds (pa_mem st) b (last args) \<and> finished (pa_mem st) p0 a b (butlast args)))"

definition fill_inv :: "nat list \<Rightarrow> mem \<Rightarrow> nat \<Rightarrow> pargs \<Rightarrow> nat \<Rightarrow> int \<Rightarrow> u8 list list \<Rightarrow> bool" where
  "fill_inv a0 M0 p0 st p q args \<longleftrightarrow> length a0 < 2 ^ 31 \<and> p0 \<le> p \<and> pa_quote st = q \<and> pa_nargs st = int (length args) \<and>
     length args \<le> length a0 \<and> fill_mem M0 p0 st p \<and>
     (\<exists>a. pa_array st = Some a \<and> length a = length a0 \<and> drop (length args) a = drop (length args) a0 \<and>
        fill_args p0 st p q args a)"

definition fill_done :: "nat list \<Rightarrow> mem \<Rightarrow> nat \<Rightarrow> pargs \<Rightarrow> nat \<Rightarrow> u8 list list \<Rightarrow> bool" where
  "fill_done a0 M0 p0 st p args \<longleftrightarrow> pa_nargs st = int (length args) \<and> fill_mem M0 p0 st p \<and>
     (\<exists>a. pa_array st = Some a \<and> length a = length a0 \<and> drop (length args) a = drop (length args) a0 \<and>
        (\<forall>i < length args. p0 \<le> a ! i \<and> holds (pa_mem st) (a ! i) (args ! i @ [0]) \<and> a ! i + length (args ! i) < p))"

lemma finished_update:
  assumes "finished M p0 a hi args" "hi \<le> j"
  shows "finished (M[j := c]) p0 a hi args"
  using assms holds_update by (fastforce simp: finished_def)

lemma finished_mono: "finished M p0 a hi args \<Longrightarrow> hi \<le> hi' \<Longrightarrow> finished M p0 a hi' args"
  by (fastforce simp: finished_def)

lemma fill_mem_update:
  assumes "fill_mem M0 p0 st p" "p0 \<le> j" "j \<le> p"
  shows "fill_mem M0 p0 (st\<lparr>pa_mem := (pa_mem st)[j := c], pa_out := x\<rparr>) (p + 1)"
  using assms by (auto simp: fill_mem_def nth_list_update)

text \<open>A string is finished by the null byte behind it.\<close>

lemma finished_last:
  assumes h: "holds M b (last args)" "b + length (last args) < length M" and f: "finished M p0 a b (butlast args)"
    and n: "args \<noteq> []" and b: "b = a ! (length args - 1)" "p0 \<le> b"
  shows "finished (M[b + length (last args) := 0]) p0 a (b + length (last args) + 1) args"
  unfolding finished_def
proof (intro allI impI)
  fix i
  assume i: "i < length args"
  let ?M = "M[b + length (last args) := 0]"
  show "p0 \<le> a ! i \<and> holds ?M (a ! i) (args ! i @ [0]) \<and> a ! i + length (args ! i) < b + length (last args) + 1"
  proof (cases "i = length args - 1")
    case True
    then have "args ! i = last args" using n by (simp add: last_conv_nth)
    then show ?thesis using True holds_snoc [OF h, of 0] b by simp
  next
    case False
    then have "i < length (butlast args)" "args ! i = butlast args ! i" using i by (simp_all add: nth_butlast)
    then show ?thesis using finished_update [OF f, of "b + length (last args)" 0] by (auto simp: finished_def)
  qed
qed

lemma fill_start:
  assumes i: "fill_inv a0 M0 p0 st p (- 1) args" and p: "p < length M0" and l: "length args < length a0"
  shows "\<exists>st'. start_arg st p = Inr st' \<and> fill_inv a0 M0 p0 st' p 0 (args @ [[]])"
proof -
  obtain a where a: "pa_array st = Some a" "length a = length a0" "drop (length args) a = drop (length args) a0"
    "fill_args p0 st p (- 1) args a"
    using i by (auto simp: fill_inv_def)
  let ?a = "a[length args := p]"
  have st: "length a0 < 2 ^ 31" "p0 \<le> p" "pa_nargs st = int (length args)" "fill_mem M0 p0 st p"
    using i by (simp_all add: fill_inv_def)
  have f: "finished (pa_mem st) p0 ?a p args"
  proof (cases "args = []")
    case False
    then obtain hi where "hi \<le> p" "finished (pa_mem st) p0 a hi args" using a(4) by (auto simp: fill_args_def)
    then show ?thesis using finished_mono by (fastforce simp: finished_def)
  qed (simp add: finished_def)
  have d: "drop (Suc (length args)) ?a = drop (Suc (length args)) a0"
    using a(3) l by (metis drop_Suc drop_tl drop_update_cancel lessI)
  have m: "length (pa_mem st) = length M0" using st(4) by (simp add: fill_mem_def)
  let ?st = "st\<lparr>pa_array := Some ?a, pa_out := Some p, pa_nargs := int (length args) + 1, pa_quote := 0\<rparr>"
  have "start_arg st p = Inr ?st"
    using a(1,2) st(1,3) l by (simp add: start_arg_def)
  moreover have "fill_args p0 ?st p 0 (args @ [[]]) ?a"
    using f st(2) p m l a(2) by (simp add: fill_args_def Let_def)
  then have "fill_inv a0 M0 p0 ?st p 0 (args @ [[]])"
    using st l a(2) d by (simp add: fill_inv_def fill_mem_def)
  ultimately show ?thesis by blast
qed

lemma fill_put:
  assumes i: "fill_inv a0 M0 p0 st p q args" and q: "0 \<le> q" and p: "p < length M0"
  shows "\<exists>st'. put_out st c = Inr st' \<and> fill_inv a0 M0 p0 st' (p + 1) q (add_char args c)"
proof -
  obtain a where a: "pa_array st = Some a" "length a = length a0" "drop (length args) a = drop (length args) a0"
    "fill_args p0 st p q args a"
    using i by (auto simp: fill_inv_def)
  define b where "b = a ! (length args - 1)"
  have st: "length a0 < 2 ^ 31" "p0 \<le> p" "pa_nargs st = int (length args)" "fill_mem M0 p0 st p" "pa_quote st = q"
    "length args \<le> length a0"
    using i by (simp_all add: fill_inv_def)
  have n: "args \<noteq> []" "pa_out st = Some (b + length (last args))" "p0 \<le> b" "b + length (last args) \<le> p"
    "holds (pa_mem st) b (last args)" "finished (pa_mem st) p0 a b (butlast args)"
    using a(4) q by (simp_all add: fill_args_def b_def Let_def)
  have m: "length (pa_mem st) = length M0" using st(4) by (simp add: fill_mem_def)
  let ?st = "st\<lparr>pa_mem := (pa_mem st)[b + length (last args) := c], pa_out := Some (b + length (last args) + 1)\<rparr>"
  have e: "put_out st c = Inr ?st" using n(2,4) p m by (simp add: put_out_def)
  have h: "holds (pa_mem ?st) b (last args @ [c])" using holds_snoc [OF n(5), of c] n(4) p m by simp
  have f: "finished (pa_mem ?st) p0 a b (butlast args)" using finished_update [OF n(6)] by simp
  have "fill_args p0 ?st (p + 1) q (add_char args c) a"
    using q h f n(1,3,4) by (simp add: fill_args_def Let_def add_char_length b_def)
  moreover have "fill_mem M0 p0 ?st (p + 1)" using n(3,4) by (intro fill_mem_update [OF st(4)]) simp_all
  ultimately have "fill_inv a0 M0 p0 ?st (p + 1) q (add_char args c)"
    using st a(1-3) n(1) by (simp add: fill_inv_def add_char_length)
  then show ?thesis using e by blast
qed

lemma fill_close:
  assumes i: "fill_inv a0 M0 p0 st p q args" and p: "p < length M0"
  obtains st' a hi where "put_out st 0 = Inr st'" "pa_array st' = Some a" "fill_mem M0 p0 st' (p + 1)"
    "pa_nargs st' = int (length args)" "length a = length a0" "drop (length args) a = drop (length args) a0"
    "args = [] \<and> pa_out st' = None \<or> pa_out st' = Some hi \<and> p0 \<le> hi \<and> hi \<le> p + 1 \<and> finished (pa_mem st') p0 a hi args"
proof -
  obtain a where a: "pa_array st = Some a" "length a = length a0" "drop (length args) a = drop (length args) a0"
    "fill_args p0 st p q args a"
    using i by (auto simp: fill_inv_def)
  have st: "pa_nargs st = int (length args)" "fill_mem M0 p0 st p" using i by (simp_all add: fill_inv_def)
  have m: "length (pa_mem st) = length M0" using st(2) by (simp add: fill_mem_def)
  show thesis
  proof (cases "pa_out st")
    case None
    then have "args = []" using a(4) by (auto simp: fill_args_def Let_def split: if_splits)
    then show thesis using that [of st a 0] None a st by (auto simp: put_out_def fill_mem_def)
  next
    case (Some o')
    have o': "p0 \<le> o'" "o' \<le> p" using a(4) Some by (auto simp: fill_args_def Let_def split: if_splits)
    have f: "finished ((pa_mem st)[o' := 0]) p0 a (o' + 1) args"
    proof (cases "q < 0")
      case True
      then have "finished (pa_mem st) p0 a o' args \<or> args = []" using a(4) Some by (auto simp: fill_args_def)
      then show ?thesis using finished_mono [OF finished_update [of _ p0 a o' args o' 0], of _ "o' + 1"]
        by (auto simp: finished_def)
    next
      case False
      then show ?thesis using a(4) Some o'(2) p m finished_last [of "pa_mem st" _ args p0 a]
        by (auto simp: fill_args_def Let_def)
    qed
    let ?st = "st\<lparr>pa_mem := (pa_mem st)[o' := 0], pa_out := Some (o' + 1)\<rparr>"
    have e: "put_out st 0 = Inr ?st" using Some o' p m by (simp add: put_out_def)
    show thesis
      by (rule that [OF e, of a "o' + 1"]) (use a st o' f fill_mem_update [OF st(2) o'] in simp_all)
  qed
qed

interpretation filling: pass "fill_inv a0 M0 p0" "fill_done a0 M0 p0" "length a0" M0 for a0 M0 p0
proof (unfold_locales, goal_cases)
  case (1 st p q args)
  then show ?case by (auto simp: fill_inv_def fill_mem_def)
next
  case (2 st p q args p')
  have "fill_mem M0 p0 st p'" if "fill_mem M0 p0 st p" using that 2(2) by (auto simp: fill_mem_def)
  moreover have "fill_args p0 st p' q args a" if "fill_args p0 st p q args a" for a
    using that 2(2) by (cases "q < 0") (auto simp: fill_args_def Let_def)
  ultimately show ?case using 2 unfolding fill_inv_def by (meson le_trans)
next
  case (3 st p args)
  then show ?case by (rule fill_start)
next
  case (4 st p q args c)
  then show ?case by (rule fill_put)
next
  case (5 st p q args q')
  have "fill_args p0 (st\<lparr>pa_quote := q'\<rparr>) p q' args a" if "fill_args p0 st p q args a" for a
    using that 5(2,3) by (simp add: fill_args_def)
  then show ?case using 5 by (auto simp: fill_inv_def fill_mem_def)
next
  case (6 st p args)
  have l: "length a0 < 2 ^ 31" "p0 \<le> p" "length args \<le> length a0" using 6(1) by (simp_all add: fill_inv_def)
  show ?case
    by (rule fill_close [OF 6]) (use l in \<open>auto simp: fill_inv_def fill_args_def fill_mem_def\<close>)
next
  case (7 st p q args)
  show ?case
    by (rule fill_close [OF 7]) (auto simp: fill_done_def fill_mem_def finished_def)
qed

section \<open>Properties\<close>

lemma count_pass:
  assumes "holds M p (s @ [0])" "0 \<notin> set s" "length (arguments s) < 2 ^ 31"
  shows "rumprun_parseargs M p None = Inr (int (length (arguments s)), M, None)"
proof -
  let ?st = "\<lparr>pa_mem = M, pa_out = None, pa_quote = - 1, pa_nargs = 0, pa_array = None\<rparr>"
  have "count_inv (length (arguments s)) M ?st (- 1) []" using assms(3) by (simp add: count_inv_def)
  from counting.loop_split [OF this _ _ assms(1,2)] show ?thesis
    by (auto simp: rumprun_parseargs_def arguments_def count_inv_def)
qed

lemma fill_pass:
  assumes "holds M p (s @ [0])" "0 \<notin> set s" "length (arguments s) \<le> length a" "length a < 2 ^ 31"
  obtains M' a' where "rumprun_parseargs M p (Some a) = Inr (int (length (arguments s)), M', Some a')"
    "length M' = length M" "\<forall>j < length M. j < p \<or> p + length s < j \<longrightarrow> M' ! j = M ! j"
    "length a' = length a" "drop (length (arguments s)) a' = drop (length (arguments s)) a"
    "\<forall>i < length (arguments s). p \<le> a' ! i \<and> a' ! i + length (arguments s ! i) \<le> p + length s \<and>
      holds M' (a' ! i) (arguments s ! i @ [0])"
proof -
  let ?st = "\<lparr>pa_mem = M, pa_out = None, pa_quote = - 1, pa_nargs = 0, pa_array = Some a\<rparr>"
  have "fill_inv a M p ?st p (- 1) []" using assms(4) by (simp add: fill_inv_def fill_mem_def fill_args_def)
  from filling.loop_split [OF this _ _ assms(1,2)] assms(3)
  obtain st where st: "parse_loop ?st p = Inr st" "fill_done a M p st (p + length s + 1) (arguments s)"
    by (auto simp: arguments_def)
  then obtain a' where "pa_array st = Some a'" "length a' = length a"
    "drop (length (arguments s)) a' = drop (length (arguments s)) a"
    "\<forall>i < length (arguments s). p \<le> a' ! i \<and> holds (pa_mem st) (a' ! i) (arguments s ! i @ [0]) \<and>
      a' ! i + length (arguments s ! i) < p + length s + 1"
    by (auto simp: fill_done_def)
  then show thesis using st that [of "pa_mem st" a']
    by (simp add: rumprun_parseargs_def fill_done_def fill_mem_def less_Suc_eq_le)
qed

text \<open>
  C15. On a text that ends in a null byte \<open>rumprun_parseargs\<close> ends and agrees with the splitter on
  lists. Without an array it counts the arguments and changes nothing. With an array of at
  least that many places it reports the same count, writes only inside the text and the first
  places of the array, and leaves in each of them the address of the argument as a string of
  its own, although it rewrites the text while it still reads it.
\<close>

theorem parseargs_correct:
  assumes "holds M p (s @ [0])" "0 \<notin> set s" "length (arguments s) \<le> length a" "length a < 2 ^ 31"
  shows "rumprun_parseargs M p None = Inr (int (length (arguments s)), M, None) \<and>
    (\<exists>M' a'. rumprun_parseargs M p (Some a) = Inr (int (length (arguments s)), M', Some a') \<and>
      length M' = length M \<and> (\<forall>j < length M. j < p \<or> p + length s < j \<longrightarrow> M' ! j = M ! j) \<and>
      length a' = length a \<and> drop (length (arguments s)) a' = drop (length (arguments s)) a \<and>
      (\<forall>i < length (arguments s). p \<le> a' ! i \<and> a' ! i + length (arguments s ! i) \<le> p + length s \<and>
        holds M' (a' ! i) (arguments s ! i @ [0])))"
proof -
  have l: "length (arguments s) < 2 ^ 31" using assms(3,4) by (rule le_less_trans)
  show ?thesis
    by (rule fill_pass [OF assms]) (use count_pass [OF assms(1,2) l] in blast)
qed

text \<open>The text \<open>a 'b c'\<close>: the second argument moves down over its quote.\<close>

theorem parseargs_correct_witness:
  "\<exists>M' a'. rumprun_parseargs (bytes ''a 'b c' '' @ [0]) 0 (Some [7, 7, 7]) = Inr (2, M', Some a') \<and> drop 2 a' = [7] \<and>
     holds M' (a' ! 0) (bytes ''a'' @ [0]) \<and> holds M' (a' ! 1) (bytes ''b c'' @ [0])"
proof -
  have e: "arguments (bytes ''a 'b c' '') = [bytes ''a'', bytes ''b c'']" by code_simp
  have l: "length (arguments (bytes ''a 'b c' '')) \<le> length [7, 7, 7 :: nat]" unfolding e by simp
  have h: "holds (bytes ''a 'b c' '' @ [0]) 0 (bytes ''a 'b c' '' @ [0])" "0 \<notin> set (bytes ''a 'b c' '')"
    "length [7, 7, 7 :: nat] < 2 ^ 31"
    by (simp_all add: holds_def of_char_def)
  obtain M' a' where c: "rumprun_parseargs (bytes ''a 'b c' '' @ [0]) 0 (Some [7, 7, 7]) = Inr (2, M', Some a')"
    "drop 2 a' = [7]" "\<forall>i < 2. holds M' (a' ! i) ([bytes ''a'', bytes ''b c''] ! i @ [0])"
    using parseargs_correct [OF h(1,2) l h(3)] unfolding e by (auto simp: numeral_2_eq_2)
  have "holds M' (a' ! 0) (bytes ''a'' @ [0])" "holds M' (a' ! 1) (bytes ''b c'' @ [0])"
    using c(3) [rule_format, of 0] c(3) [rule_format, of 1] by simp_all
  then show ?thesis using c(1,2) by blast
qed

text \<open>A command line in which every byte of every argument is escaped.\<close>

definition escaped :: "u8 list \<Rightarrow> u8 list" where
  "escaped w = concat (map (\<lambda>c. [BACKSLASH, c]) w)"

definition command_line :: "u8 list list \<Rightarrow> u8 list" where
  "command_line args = concat (map (\<lambda>w. escaped w @ [32]) args)"

lemma escaped_simps [simp]: "escaped [] = []" "escaped (c # w) = BACKSLASH # c # escaped w"
  by (simp_all add: escaped_def)

lemma split_escaped:
  "split_text 0 (args @ [w]) (escaped u @ 32 # s) = split_text (- 1) (args @ [w @ u]) s"
proof (induction u arbitrary: w)
  case (Cons c u)
  have "split_char 0 (args @ [w]) BACKSLASH c = (0, args @ [w @ [c]])"
    by (simp add: split_char_def is_delim_def add_char_def)
  then show ?case using Cons.IH [of "w @ [c]"] by simp
qed (simp add: split_char_def is_delim_def)

lemma split_command_line:
  "\<forall>w \<in> set ws. w \<noteq> [] \<Longrightarrow> split_text (- 1) args (command_line ws) = args @ ws"
proof (induction ws arbitrary: args)
  case (Cons w ws)
  obtain c u where w: "w = c # u" using Cons.prems by (cases w) auto
  have "split_char (- 1) args BACKSLASH c = (0, args @ [[c]])"
    by (simp add: split_char_def is_delim_def add_char_def)
  then have "split_text (- 1) args (command_line (w # ws)) = split_text (- 1) (args @ [w]) (command_line ws)"
    using split_escaped [of args "[c]" u "command_line ws"] by (simp add: command_line_def w)
  then show ?case using Cons by simp
qed (simp add: command_line_def)

text \<open>
  C27. Arguments survive quoting and splitting: when non-empty arguments without null bytes are
  written as a command line in which a backslash stands before every byte, \<open>rumprun_parseargs\<close>
  counts them, and with an array of that size it leaves in place \<open>i\<close> the address of a string
  equal to argument \<open>i\<close>, whatever blanks, quotes and backslashes the arguments contain.
\<close>

theorem parseargs_roundtrip:
  assumes "\<forall>w \<in> set ws. w \<noteq> [] \<and> 0 \<notin> set w" "length ws < 2 ^ 31" "holds M p (command_line ws @ [0])" "length a = length ws"
  shows "rumprun_parseargs M p None = Inr (int (length ws), M, None) \<and>
    (\<exists>M' a'. rumprun_parseargs M p (Some a) = Inr (int (length ws), M', Some a') \<and>
      (\<forall>i < length ws. holds M' (a' ! i) (ws ! i @ [0])))"
proof -
  have e: "arguments (command_line ws) = ws" using split_command_line [of ws "[]"] assms(1) by (simp add: arguments_def)
  have "0 \<notin> set (escaped w)" if "w \<in> set ws" for w using assms(1) that by (auto simp: escaped_def)
  then have z: "0 \<notin> set (command_line ws)" by (auto simp: command_line_def)
  have l: "length (arguments (command_line ws)) \<le> length a" "length a < 2 ^ 31" using assms(2,4) e by simp_all
  show ?thesis
    by (rule fill_pass [OF assms(3) z l]) (use count_pass [OF assms(3) z] assms(2) e in auto)
qed

theorem parseargs_roundtrip_witness:
  "\<exists>M' a'. rumprun_parseargs (command_line [bytes ''-e'', bytes ''a b''] @ [0]) 0 (Some [0, 0]) = Inr (2, M', Some a') \<and>
     holds M' (a' ! 1) (bytes ''a b'' @ [0])"
proof -
  let ?w = "[bytes ''-e'', bytes ''a b'']"
  have h: "\<forall>w \<in> set ?w. w \<noteq> [] \<and> 0 \<notin> set w" "length ?w < 2 ^ 31" "length [0, 0 :: nat] = length ?w"
    by (simp_all add: of_char_def)
  have m: "holds (command_line ?w @ [0]) 0 (command_line ?w @ [0])" by (simp add: holds_def)
  obtain M' a' where c: "rumprun_parseargs (command_line ?w @ [0]) 0 (Some [0, 0]) = Inr (int (length ?w), M', Some a')"
    "\<forall>i < length ?w. holds M' (a' ! i) (?w ! i @ [0])"
    using parseargs_roundtrip [OF h(1,2) m h(3)] by blast
  have "holds M' (a' ! 1) (bytes ''a b'' @ [0])" using c(2) [rule_format, of 1] by simp
  then show ?thesis using c(1) by auto
qed

end
