(* ===== verification/Pgalloc.thy ===== *)
theory Pgalloc
  imports BmkPrelude
begin

text \<open>
  The page allocator, \<open>lib/libbmk_core/pgalloc.c\<close>: the allocation bitmap (one bit per page,
  in 64-bit words) and the binary buddy allocator on top of it. The free lists hold chunk
  addresses, first element first; the chunk headers, which the code keeps in the first bytes
  of every free chunk, are a map from addresses to headers, so that whatever a client writes
  into an allocated page is a change of that map at that address. \<open>BMK_PCPU_PAGE_SHIFT\<close> is
  12 on every platform.
\<close>

section \<open>State\<close>

record chunk =
  level :: nat
  magic :: nat

record pgstate =
  pg_called :: bool
  minpage_addr :: nat
  maxpage_addr :: nat
  alloc_bitmap :: "u64 list"
  freelist :: "nat \<Rightarrow> nat list"
  chunks :: "nat \<Rightarrow> chunk"
  pgalloc_totalkb :: nat
  pgalloc_usedkb :: nat

text \<open>The statics before \<open>bmk_pgalloc_loadmem\<close> has run.\<close>

definition pg_init :: pgstate where
  "pg_init = \<lparr>pg_called = False, minpage_addr = 0, maxpage_addr = 0, alloc_bitmap = [],
     freelist = (\<lambda>_. []), chunks = (\<lambda>_. \<lparr>level = 0, magic = 0\<rparr>), pgalloc_totalkb = 0,
     pgalloc_usedkb = 0\<rparr>"

abbreviation CHUNKMAGIC :: nat where
  "CHUNKMAGIC \<equiv> 0x11020217"

abbreviation FREELIST_LEVELS :: nat where
  "FREELIST_LEVELS \<equiv> 52"

abbreviation PAGE_SIZE :: nat where
  "PAGE_SIZE \<equiv> 4096"

definition order2size :: "nat \<Rightarrow> nat" where
  "order2size order = 2 ^ (order + 12)"

text \<open>Masking with \<open>~(BMK_PCPU_PAGE_SIZE-1)\<close> clears the low twelve bits.\<close>

definition bmk_round_page :: "nat \<Rightarrow> nat" where
  "bmk_round_page p = wrap64 (p + (PAGE_SIZE - 1)) div PAGE_SIZE * PAGE_SIZE"

definition bmk_trunc_page :: "nat \<Rightarrow> nat" where
  "bmk_trunc_page p = p div PAGE_SIZE * PAGE_SIZE"

section \<open>The allocation bitmap\<close>

definition va_to_pg :: "pgstate \<Rightarrow> nat \<Rightarrow> nat" where
  "va_to_pg s x = drop_bit 12 (sub64 x (minpage_addr s))"

definition addr_is_managed :: "pgstate \<Rightarrow> nat \<Rightarrow> bool" where
  "addr_is_managed s addr \<longleftrightarrow> minpage_addr s \<le> addr \<and> addr < maxpage_addr s"

definition allocated_in_map :: "pgstate \<Rightarrow> nat \<Rightarrow> bool res" where
  "allocated_in_map s addr =
     guardR (addr_is_managed s addr) Assert_failed
       (let pagenum = va_to_pg s addr in
        guardR (pagenum div 64 < length (alloc_bitmap s)) Out_of_bounds
          (Inr ((alloc_bitmap s ! (pagenum div 64)) AND push_bit (pagenum AND 63) 1 \<noteq> 0)))"

text \<open>A read-modify-write of one word of the map, and the loop over the words in between.\<close>

definition bm_update :: "nat \<Rightarrow> (u64 \<Rightarrow> u64) \<Rightarrow> u64 list \<Rightarrow> u64 list res" where
  "bm_update i f bm = guardR (i < length bm) Out_of_bounds (Inr (bm[i := f (bm ! i)]))"

fun bm_fill :: "nat list \<Rightarrow> u64 \<Rightarrow> u64 list \<Rightarrow> u64 list res" where
  "bm_fill [] w bm = Inr bm"
| "bm_fill (i # is) w bm = bindR (bm_update i (\<lambda>_. w) bm) (bm_fill is w)"

definition map_alloc :: "pgstate \<Rightarrow> nat \<Rightarrow> nat \<Rightarrow> pgstate res" where
  "map_alloc s virt nr_pages =
     (let first_page = va_to_pg s virt;
          curr_idx = first_page div 64;
          start = first_page AND 63;
          end_idx = wrap64 (first_page + nr_pages) div 64;
          end_off = wrap64 (first_page + nr_pages) AND 63;
          bm = alloc_bitmap s
      in bindR
          (if curr_idx = end_idx then
             bm_update curr_idx (\<lambda>w. w OR ((push_bit end_off 1 - 1) AND - push_bit start 1)) bm
           else
             bindR (bm_update curr_idx (\<lambda>w. w OR - push_bit start 1) bm) (\<lambda>bm.
             bindR (bm_fill [Suc curr_idx..<end_idx] (NOT 0) bm) (\<lambda>bm.
             bm_update end_idx (\<lambda>w. w OR (push_bit end_off 1 - 1)) bm)))
          (\<lambda>bm. Inr (s\<lparr>alloc_bitmap := bm\<rparr>)))"

definition map_free :: "pgstate \<Rightarrow> nat \<Rightarrow> nat \<Rightarrow> pgstate res" where
  "map_free s virt nr_pages =
     (let first_page = va_to_pg s virt;
          curr_idx = first_page div 64;
          start = first_page AND 63;
          end_idx = wrap64 (first_page + nr_pages) div 64;
          end_off = wrap64 (first_page + nr_pages) AND 63;
          bm = alloc_bitmap s
      in bindR
          (if curr_idx = end_idx then
             bm_update curr_idx (\<lambda>w. w AND (- push_bit end_off 1 OR (push_bit start 1 - 1))) bm
           else
             bindR (bm_update curr_idx (\<lambda>w. w AND (push_bit start 1 - 1)) bm) (\<lambda>bm.
             bindR (bm_fill [Suc curr_idx..<end_idx] 0 bm) (\<lambda>bm.
             bm_update end_idx (\<lambda>w. w AND - push_bit end_off 1) bm)))
          (\<lambda>bm. Inr (s\<lparr>alloc_bitmap := bm\<rparr>)))"

section \<open>The buddy allocator\<close>

definition chunklevel :: "pgstate \<Rightarrow> nat \<Rightarrow> nat res" where
  "chunklevel s ch = guardR (magic (chunks s ch) = CHUNKMAGIC) Assert_failed (Inr (level (chunks s ch)))"

definition freechunk_link :: "pgstate \<Rightarrow> nat \<Rightarrow> nat \<Rightarrow> pgstate res" where
  "freechunk_link s addr order =
     guardR (order < FREELIST_LEVELS) Out_of_bounds
       (Inr (s\<lparr>chunks := (chunks s)(addr := \<lparr>level = order, magic = CHUNKMAGIC\<rparr>),
               freelist := (freelist s)(order := addr # freelist s order)\<rparr>))"

text \<open>\<open>LIST_REMOVE\<close> unlinks a chunk from whichever list it is on.\<close>

definition list_remove :: "pgstate \<Rightarrow> nat \<Rightarrow> pgstate" where
  "list_remove s ch = s\<lparr>freelist := (\<lambda>l. remove1 ch (freelist s l))\<rparr>"

definition clear_magic :: "pgstate \<Rightarrow> nat \<Rightarrow> pgstate" where
  "clear_magic s ch = s\<lparr>chunks := (chunks s)(ch := (chunks s ch)\<lparr>magic := 0\<rparr>)\<rparr>"

text \<open>\<open>__builtin_ctzl\<close> and \<open>__builtin_clzl\<close> of a non-zero argument.\<close>

fun builtin_ctzl :: "nat \<Rightarrow> nat" where
  "builtin_ctzl n = (if n = 0 \<or> odd n then 0 else Suc (builtin_ctzl (n div 2)))"

fun top_bit :: "nat \<Rightarrow> nat" where
  "top_bit n = (if n \<le> 1 then 0 else Suc (top_bit (n div 2)))"

declare builtin_ctzl.simps [simp del] top_bit.simps [simp del]

definition builtin_clzl :: "nat \<Rightarrow> nat" where
  "builtin_clzl n = 63 - top_bit n"

lemma order2size_pos [simp]: "0 < order2size i" "order2size i \<noteq> 0"
  by (simp_all add: order2size_def)

lemma top_bit_le: "0 < n \<Longrightarrow> 2 ^ top_bit n \<le> n"
proof (induction n rule: top_bit.induct)
  case (1 n)
  show ?case
  proof (cases "n \<le> 1")
    case True
    with 1(2) show ?thesis by (subst top_bit.simps) simp
  next
    case False
    then have "2 ^ top_bit (n div 2) \<le> n div 2" using 1(1) by simp
    with False show ?thesis by (subst top_bit.simps) simp
  qed
qed

text \<open>
  \<open>carverange\<close>: the order of the next chunk is limited by the alignment of the address and
  by the remaining range; \<open>i -= BMK_PCPU_PAGE_SHIFT\<close> is unsigned, so an address or range
  below page granularity would index far outside the free lists.
\<close>

definition carve_order :: "nat \<Rightarrow> nat \<Rightarrow> nat res" where
  "carve_order addr rng =
     guardR (addr \<noteq> 0) Bad_shift
       (let i = builtin_ctzl addr;
            r = 64 - (builtin_clzl rng + 1);
            i = (if i > r then r else i)
        in guardR (12 \<le> i) Out_of_bounds (Inr (i - 12)))"

lemma carve_order_le:
  assumes "carve_order addr rng = Inr i" and "0 < rng"
  shows "order2size i \<le> rng"
proof -
  from assms(1) have "i + 12 \<le> 64 - (builtin_clzl rng + 1)"
    by (auto simp: carve_order_def Let_def split: if_splits)
  then have "i + 12 \<le> top_bit rng"
    by (simp add: builtin_clzl_def)
  then have "2 ^ (i + 12) \<le> (2::nat) ^ top_bit rng"
    by (rule power_increasing) simp
  then show ?thesis
    unfolding order2size_def using top_bit_le [OF assms(2)] by (rule order.trans)
qed

function carverange :: "pgstate \<Rightarrow> nat \<Rightarrow> nat \<Rightarrow> pgstate res" where
  "carverange s addr rng =
     (if rng = 0 then Inr s
      else case carve_order addr rng of
        Inl e \<Rightarrow> Inl e
      | Inr i \<Rightarrow>
          (case freechunk_link s addr i of
             Inl e \<Rightarrow> Inl e
           | Inr s' \<Rightarrow> carverange s' (wrap64 (addr + order2size i)) (rng - order2size i)))"
  by pat_completeness auto
termination
proof (relation "measure (\<lambda>(s, addr, rng). rng)")
  fix s addr rng i s'
  assume "rng \<noteq> 0" and "carve_order addr rng = Inr i"
  then have "order2size i \<le> rng" by (auto intro: carve_order_le)
  then show "((s', wrap64 (addr + order2size i), rng - order2size i), s, addr, rng)
      \<in> measure (\<lambda>(s, addr, rng). rng)"
    using \<open>rng \<noteq> 0\<close> by (simp add: diff_less)
qed simp

declare carverange.simps [simp del]

definition bmk_pgalloc_loadmem :: "pgstate \<Rightarrow> nat \<Rightarrow> nat \<Rightarrow> pgstate res" where
  "bmk_pgalloc_loadmem s min0 max0 =
     (if pg_called s then Inl (Halt ''bmk_pgalloc_loadmem called more than once'')
      else guardR (max0 > min0) Assert_failed
        (let min = bmk_round_page min0;
             max = bmk_trunc_page max0;
             bitmap_size = bmk_round_page (drop_bit 15 (sub64 max min) + 1);
             bitmap = replicate (bitmap_size div 8) (NOT 0);
             min = wrap64 (min + bitmap_size);
             rng = sub64 max min;
             s = s\<lparr>pg_called := True, freelist := (\<lambda>_. []), minpage_addr := min,
                   maxpage_addr := max, pgalloc_totalkb := drop_bit 10 rng,
                   pgalloc_usedkb := 0, alloc_bitmap := bitmap\<rparr>
         in bindR (map_free s min (drop_bit 12 rng)) (\<lambda>s. carverange s min rng)))"

definition satisfies_p :: "pgstate \<Rightarrow> nat \<Rightarrow> nat \<Rightarrow> nat option" where
  "satisfies_p s i align = find (\<lambda>p. p AND (align - 1) = 0) (freelist s i)"

fun find_bucket :: "pgstate \<Rightarrow> nat list \<Rightarrow> nat \<Rightarrow> (nat \<times> nat) option" where
  "find_bucket s [] align = None"
| "find_bucket s (bucket # bs) align =
     (case satisfies_p s bucket align of
        None \<Rightarrow> find_bucket s bs align
      | Some ch \<Rightarrow> Some (bucket, ch))"

text \<open>The result is the address, with \<open>None\<close> for the null pointer of a failed request.\<close>

definition bmk_pgalloc_align :: "pgstate \<Rightarrow> nat \<Rightarrow> nat \<Rightarrow> (nat option \<times> pgstate) res" where
  "bmk_pgalloc_align s order align =
     guardR (align \<ge> PAGE_SIZE \<and> align AND (align - 1) = 0) Assert_failed
     (guardR (order < FREELIST_LEVELS) Assert_failed
       (case find_bucket s [order..<FREELIST_LEVELS] align of
          None \<Rightarrow> Inr (None, s)
        | Some (bucket, alloc_ch) \<Rightarrow>
            let s = list_remove s alloc_ch in
            guardR (magic (chunks s alloc_ch) = CHUNKMAGIC) Assert_failed
              (let s = clear_magic s alloc_ch;
                   len = order2size order;
                   p = alloc_ch
               in bindR (carverange s (wrap64 (p + len)) (sub64 (order2size bucket) len)) (\<lambda>s.
                  bindR (map_alloc s alloc_ch (2 ^ order)) (\<lambda>s.
                  let s = s\<lparr>pgalloc_usedkb := wrap64 (pgalloc_usedkb s + drop_bit 10 len)\<rparr> in
                  guardR (alloc_ch AND (align - 1) = 0) Assert_failed (Inr (Some alloc_ch, s)))))))"

definition bmk_pgalloc :: "pgstate \<Rightarrow> nat \<Rightarrow> (nat option \<times> pgstate) res" where
  "bmk_pgalloc s order = bmk_pgalloc_align s order PAGE_SIZE"

text \<open>
  The merge test of the two branches of \<open>bmk_pgfree\<close>: \<open>Inr False\<close> leaves the loop.
\<close>

definition can_merge :: "pgstate \<Rightarrow> nat \<Rightarrow> nat \<Rightarrow> bool res" where
  "can_merge s to_merge_ch order =
     (if \<not> addr_is_managed s to_merge_ch then Inr False
      else bindR (allocated_in_map s to_merge_ch) (\<lambda>alloc.
        if alloc then Inr False
        else bindR (chunklevel s to_merge_ch) (\<lambda>l. Inr (l = order))))"

function pgfree_merge :: "pgstate \<Rightarrow> nat \<Rightarrow> nat \<Rightarrow> (pgstate \<times> nat \<times> nat) res" where
  "pgfree_merge s freed_ch order =
     (if order < FREELIST_LEVELS then
        let mask = order2size order;
            below = (freed_ch AND mask \<noteq> 0);
            to_merge_ch = (if below then sub64 freed_ch mask else wrap64 (freed_ch + mask))
        in case can_merge s to_merge_ch order of
             Inl e \<Rightarrow> Inl e
           | Inr m \<Rightarrow>
               if m then
                 let s = clear_magic s freed_ch;
                     freed_ch = (if below then to_merge_ch else freed_ch);
                     s = list_remove (clear_magic s to_merge_ch) to_merge_ch
                 in pgfree_merge s freed_ch (Suc order)
               else Inr (s, freed_ch, order)
      else Inr (s, freed_ch, order))"
  by pat_completeness auto
termination
  by (relation "measure (\<lambda>(s, ch, order). FREELIST_LEVELS - order)") auto

declare pgfree_merge.simps [simp del]

definition bmk_pgfree :: "pgstate \<Rightarrow> nat \<Rightarrow> nat \<Rightarrow> pgstate res" where
  "bmk_pgfree s pointer order =
     bindR (map_free s pointer (2 ^ order)) (\<lambda>s.
     let s = s\<lparr>pgalloc_usedkb := sub64 (pgalloc_usedkb s) (drop_bit 10 (order2size order))\<rparr> in
     bindR (pgfree_merge s pointer order) (\<lambda>(s, freed_ch, order).
     freechunk_link s freed_ch order))"

section \<open>Statistics and debugging aids\<close>

text \<open>One line of \<open>bmk_pgalloc_dumpstats\<close>: chunk size, number of chunks, kilobytes, percentage.\<close>

definition dumpstats_level :: "pgstate \<Rightarrow> nat \<Rightarrow> nat \<Rightarrow> (nat \<times> nat \<times> nat \<times> nat) res" where
  "dumpstats_level s remainingkb i =
     (let nchunks = length (freelist s i);
          levelhas = wrap64 (nchunks * drop_bit 10 (order2size i))
      in guardR (remainingkb \<noteq> 0) Div_by_zero
           (Inr (drop_bit 10 (order2size i), nchunks, levelhas,
                 wrap64 (100 * levelhas) div remainingkb)))"

fun dumpstats_levels :: "pgstate \<Rightarrow> nat \<Rightarrow> nat list \<Rightarrow> (nat \<times> nat \<times> nat \<times> nat) list res" where
  "dumpstats_levels s remainingkb [] = Inr []"
| "dumpstats_levels s remainingkb (i # is) =
     (if freelist s i = [] then dumpstats_levels s remainingkb is
      else bindR (dumpstats_level s remainingkb i) (\<lambda>line.
           bindR (dumpstats_levels s remainingkb is) (\<lambda>lines. Inr (line # lines))))"

definition bmk_pgalloc_dumpstats ::
  "pgstate \<Rightarrow> ((nat \<times> nat \<times> nat) \<times> (nat \<times> nat \<times> nat \<times> nat) list) res" where
  "bmk_pgalloc_dumpstats s =
     (let remainingkb = sub64 (pgalloc_totalkb s) (pgalloc_usedkb s)
      in bindR (dumpstats_levels s remainingkb [0..<FREELIST_LEVELS]) (\<lambda>lines.
           Inr ((pgalloc_totalkb s, pgalloc_usedkb s, remainingkb), lines)))"

fun print_allocation :: "pgstate \<Rightarrow> nat \<Rightarrow> nat \<Rightarrow> string res" where
  "print_allocation s addr 0 = Inr [CHR 0x0A]"
| "print_allocation s addr (Suc nr_pages) =
     bindR (allocated_in_map s addr) (\<lambda>a.
     bindR (print_allocation s (wrap64 (addr + PAGE_SIZE)) nr_pages) (\<lambda>out.
     Inr ((if a then CHR ''1'' else CHR ''0'') # out)))"

fun sanity_check_list :: "pgstate \<Rightarrow> nat list \<Rightarrow> unit res" where
  "sanity_check_list s [] = Inr ()"
| "sanity_check_list s (head # hs) =
     bindR (allocated_in_map s head) (\<lambda>a.
     guardR (\<not> a) Assert_failed
     (guardR (magic (chunks s head) = CHUNKMAGIC) Assert_failed (sanity_check_list s hs)))"

fun sanity_check_levels :: "pgstate \<Rightarrow> nat list \<Rightarrow> unit res" where
  "sanity_check_levels s [] = Inr ()"
| "sanity_check_levels s (x # xs) =
     bindR (sanity_check_list s (freelist s x)) (\<lambda>_. sanity_check_levels s xs)"

definition sanity_check :: "pgstate \<Rightarrow> unit res" where
  "sanity_check s = sanity_check_levels s [0..<FREELIST_LEVELS]"

end
