(* ===== verification/Memalloc.thy ===== *)
theory Memalloc
  imports Pgalloc
begin

text \<open>
  The general-purpose allocator, \<open>lib/libbmk_core/memalloc.c\<close>: power-of-two buckets of 32 to
  2048 bytes that are carved out of single pages, and the page allocator for anything larger.
  Every allocation carries an 8-byte header right below the returned address. Memory is a
  function from addresses to bytes and the header is really kept in it, so that a client that
  writes outside of its allocation can destroy it; the links of the bucket lists, which the code
  keeps in the free blocks themselves, are Isabelle lists. The self-tests under
  \<open>MEMALLOC_TESTING\<close> are not part of the build.
\<close>

section \<open>State\<close>

datatype memwho = BMK_MEMWHO_WIREDBMK | BMK_MEMWHO_RUMPKERN | BMK_MEMWHO_USER

primrec memwho_val :: "memwho \<Rightarrow> nat" where
  "memwho_val BMK_MEMWHO_WIREDBMK = 0"
| "memwho_val BMK_MEMWHO_RUMPKERN = 1"
| "memwho_val BMK_MEMWHO_USER = 2"

record memalloc_hdr =
  mh_alignpad :: nat
  mh_magic :: nat
  mh_index :: nat
  mh_who :: nat

record mstate =
  mpg :: pgstate
  freebuckets :: "nat \<Rightarrow> nat list"
  nmalloc :: "nat \<Rightarrow> u32"
  cells :: "nat \<Rightarrow> u8"

abbreviation MAGIC :: nat where "MAGIC \<equiv> 0xef"
abbreviation MINSHIFT :: nat where "MINSHIFT \<equiv> 5"
abbreviation PAGE_SHIFT :: nat where "PAGE_SHIFT \<equiv> 12"
abbreviation LOCALBUCKETS :: nat where "LOCALBUCKETS \<equiv> 7"
abbreviation MINALIGN :: nat where "MINALIGN \<equiv> 16"

text \<open>Loads and stores of the little-endian fields of \<open>struct memalloc_hdr\<close> at address \<open>p\<close>.\<close>

definition load_hdr :: "(nat \<Rightarrow> u8) \<Rightarrow> nat \<Rightarrow> memalloc_hdr" where
  "load_hdr m p =
     \<lparr>mh_alignpad = unat (m p) + 2 ^ 8 * unat (m (p + 1)) + 2 ^ 16 * unat (m (p + 2)) + 2 ^ 24 * unat (m (p + 3)),
      mh_magic = unat (m (p + 4)) + 2 ^ 8 * unat (m (p + 5)),
      mh_index = unat (m (p + 6)),
      mh_who = unat (m (p + 7))\<rparr>"

definition store_hdr :: "(nat \<Rightarrow> u8) \<Rightarrow> nat \<Rightarrow> memalloc_hdr \<Rightarrow> (nat \<Rightarrow> u8)" where
  "store_hdr m p h = m
     (p + 4 := of_nat (mh_magic h), p + 5 := of_nat (mh_magic h div 2 ^ 8),
      p + 6 := of_nat (mh_index h),
      p := of_nat (mh_alignpad h), p + 1 := of_nat (mh_alignpad h div 2 ^ 8),
      p + 2 := of_nat (mh_alignpad h div 2 ^ 16), p + 3 := of_nat (mh_alignpad h div 2 ^ 24),
      p + 7 := of_nat (mh_who h))"

text \<open>The header of the allocation at \<open>cp\<close>: \<open>((struct memalloc_hdr *)cp)-1\<close>.\<close>

definition hdr_at :: "mstate \<Rightarrow> nat \<Rightarrow> memalloc_hdr" where
  "hdr_at s cp = load_hdr (cells s) (sub64 cp 8)"

section \<open>Buckets\<close>

text \<open>The loop of \<open>morecore\<close>: \<open>n\<close> more blocks, each pushed at the head of the list.\<close>

fun morecore_blocks :: "nat \<Rightarrow> nat \<Rightarrow> nat \<Rightarrow> nat list \<Rightarrow> nat list" where
  "morecore_blocks p sz 0 fl = fl"
| "morecore_blocks p sz (Suc n) fl = morecore_blocks (wrap64 (p + sz)) sz n (wrap64 (p + sz) # fl)"

definition morecore :: "mstate \<Rightarrow> nat \<Rightarrow> (nat option \<times> mstate) res" where
  "morecore s bucket =
     (let sz = 2 ^ (bucket + MINSHIFT);
          nblks = PAGE_SIZE div sz
      in guardR (1 < nblks) Assert_failed
           (bindR (bmk_pgalloc (mpg s) 0) (\<lambda>(p, pg).
              case p of
                None \<Rightarrow> Inr (None, s\<lparr>mpg := pg\<rparr>)
              | Some rv \<Rightarrow> Inr (Some rv, s\<lparr>mpg := pg, freebuckets := (freebuckets s)
                  (bucket := morecore_blocks rv sz (nblks - 1) (freebuckets s bucket))\<rparr>))))"

definition bmk_memalloc_init :: "mstate \<Rightarrow> mstate" where
  "bmk_memalloc_init s =
     s\<lparr>freebuckets := (\<lambda>i. if i < LOCALBUCKETS then [] else freebuckets s i)\<rparr>"

definition bucketalloc :: "mstate \<Rightarrow> nat \<Rightarrow> (nat option \<times> mstate) res" where
  "bucketalloc s bucket =
     bindR (case freebuckets s bucket of
              [] \<Rightarrow> morecore s bucket
            | frb # rest \<Rightarrow> Inr (Some frb, s\<lparr>freebuckets := (freebuckets s)(bucket := rest)\<rparr>))
       (\<lambda>(frb, s). case frb of
          None \<Rightarrow> Inr (None, s)
        | Some p \<Rightarrow> Inr (Some p, s\<lparr>nmalloc := (nmalloc s)(bucket := nmalloc s bucket + 1)\<rparr>))"

section \<open>Allocation\<close>

text \<open>Clearing the low bits of an address with \<open>& ~(align - 1)\<close>, for a power of two.\<close>

definition align_down :: "nat \<Rightarrow> nat \<Rightarrow> nat" where
  "align_down x align = x div align * align"

definition alloc_bytes :: "nat \<Rightarrow> nat \<Rightarrow> nat" where
  "alloc_bytes nbytes align = wrap64 (nbytes + align_down (8 + (align - 1)) align)"

definition bucket_of :: "nat \<Rightarrow> nat" where
  "bucket_of allocbytes =
     (if allocbytes < 2 ^ MINSHIFT then 0
      else let bucket = 64 - builtin_clzl (drop_bit MINSHIFT allocbytes) in
        if allocbytes AND (allocbytes - 1) = 0 then bucket - 1 else bucket)"

definition bmk_memalloc ::
  "mstate \<Rightarrow> nat \<Rightarrow> nat \<Rightarrow> memwho \<Rightarrow> (nat option \<times> mstate) res" where
  "bmk_memalloc s nbytes align0 who =
     (if align0 AND (align0 - 1) \<noteq> 0 then Inr (None, s)
      else let align = (if align0 < MINALIGN then MINALIGN else align0) in
        guardR (align \<le> 2 ^ 31) Assert_failed
          (let bucket = bucket_of (alloc_bytes nbytes align) in
           bindR (if bucket \<ge> LOCALBUCKETS
                  then bindR (bmk_pgalloc (mpg s) (bucket + MINSHIFT - PAGE_SHIFT)) (\<lambda>(p, pg).
                         Inr (p, s\<lparr>mpg := pg\<rparr>))
                  else bucketalloc s bucket)
             (\<lambda>(hdr, s). case hdr of
                None \<Rightarrow> Inr (None, s)
              | Some hdr \<Rightarrow>
                  let rv = align_down (wrap64 (hdr + 8 + align - 1)) align;
                      alignpad = sub64 rv hdr;
                      h = \<lparr>mh_alignpad = alignpad, mh_magic = MAGIC, mh_index = bucket,
                           mh_who = memwho_val who\<rparr>
                  in Inr (Some rv, s\<lparr>cells := store_hdr (cells s) (sub64 rv 8) h\<rparr>))))"

definition bmk_xmalloc_bmk :: "mstate \<Rightarrow> nat \<Rightarrow> (nat \<times> mstate) res" where
  "bmk_xmalloc_bmk s howmuch =
     bindR (bmk_memalloc s howmuch 0 BMK_MEMWHO_WIREDBMK) (\<lambda>(rv, s). case rv of
         None \<Rightarrow> Inl (Halt ''xmalloc failed'')
       | Some p \<Rightarrow> Inr (p, s))"

text \<open>\<open>bmk_memset\<close> and \<open>bmk_memcpy\<close> on this memory.\<close>

definition cells_set :: "(nat \<Rightarrow> u8) \<Rightarrow> nat \<Rightarrow> u8 \<Rightarrow> nat \<Rightarrow> (nat \<Rightarrow> u8)" where
  "cells_set m p c n = (\<lambda>a. if p \<le> a \<and> a < p + n then c else m a)"

definition cells_copy :: "(nat \<Rightarrow> u8) \<Rightarrow> nat \<Rightarrow> nat \<Rightarrow> nat \<Rightarrow> (nat \<Rightarrow> u8)" where
  "cells_copy m d src n = (\<lambda>a. if d \<le> a \<and> a < d + n then m (src + (a - d)) else m a)"

definition bmk_memcalloc ::
  "mstate \<Rightarrow> nat \<Rightarrow> nat \<Rightarrow> memwho \<Rightarrow> (nat option \<times> mstate) res" where
  "bmk_memcalloc s n sz who =
     (let tot = wrap64 (n * sz) in
      if sz \<noteq> 0 \<and> tot div sz \<noteq> n then Inr (None, s)
      else bindR (bmk_memalloc s tot MINALIGN who) (\<lambda>(v, s). case v of
             None \<Rightarrow> Inr (None, s)
           | Some p \<Rightarrow> Inr (Some p, s\<lparr>cells := cells_set (cells s) p 0 tot\<rparr>)))"

section \<open>Release and reallocation\<close>

definition bmk_memfree :: "mstate \<Rightarrow> nat option \<Rightarrow> memwho \<Rightarrow> mstate res" where
  "bmk_memfree s cp0 who =
     (case cp0 of
        None \<Rightarrow> Inr s
      | Some cp \<Rightarrow>
          let hdr = hdr_at s cp in
          if mh_magic hdr \<noteq> MAGIC then Inr s
          else if mh_who hdr \<noteq> memwho_val who then Inl (Halt ''bmk_memalloc error'')
          else
            let index = mh_index hdr;
                origp = sub64 cp (mh_alignpad hdr)
            in if index \<ge> LOCALBUCKETS
               then bindR (bmk_pgfree (mpg s) origp (index + MINSHIFT - PAGE_SHIFT)) (\<lambda>pg.
                      Inr (s\<lparr>mpg := pg\<rparr>))
               else Inr (s\<lparr>freebuckets := (freebuckets s)(index := origp # freebuckets s index),
                          nmalloc := (nmalloc s)(index := nmalloc s index - 1)\<rparr>))"

text \<open>
  The literal in \<open>1<<(size+MINSHIFT)\<close> is an \<open>int\<close>: the shift is defined only for results
  below \<open>2 ^ 31\<close>.
\<close>

definition usable_size :: "memalloc_hdr \<Rightarrow> nat res" where
  "usable_size h = guardR (mh_index h + MINSHIFT < 31) Bad_shift
     (Inr (sub64 (2 ^ (mh_index h + MINSHIFT)) (mh_alignpad h)))"

definition bmk_memrealloc_user :: "mstate \<Rightarrow> nat option \<Rightarrow> nat \<Rightarrow> (nat option \<times> mstate) res" where
  "bmk_memrealloc_user s cp0 nbytes =
     (case cp0 of
        None \<Rightarrow> bmk_memalloc s nbytes MINALIGN BMK_MEMWHO_USER
      | Some cp \<Rightarrow>
          if nbytes = 0 then
            bindR (bmk_memfree s (Some cp) BMK_MEMWHO_USER) (\<lambda>s. Inr (None, s))
          else
            bindR (usable_size (hdr_at s cp)) (\<lambda>sz.
              if sz \<ge> nbytes then Inr (Some cp, s)
              else bindR (bmk_memalloc s nbytes 8 BMK_MEMWHO_USER) (\<lambda>(np, s). case np of
                  None \<Rightarrow> Inr (None, s)
                | Some p \<Rightarrow>
                    bindR (bmk_memfree (s\<lparr>cells := cells_copy (cells s) p cp sz\<rparr>) (Some cp)
                             BMK_MEMWHO_USER)
                      (\<lambda>s. Inr (Some p, s)))))"

section \<open>Statistics\<close>

text \<open>
  \<open>bmk_memalloc_printstats\<close>: the rows of block sizes, free blocks and blocks in use, and the
  two totals in kilobytes. The products are computed in \<open>unsigned\<close>, the sums in \<open>unsigned long\<close>.
\<close>

definition stat_total :: "u32 list \<Rightarrow> nat" where
  "stat_total counts = fold (\<lambda>(i, j) tot. wrap64 (tot + unat (j * 2 ^ (i + MINSHIFT))))
     (List.enumerate 0 counts) 0"

definition bmk_memalloc_printstats ::
  "mstate \<Rightarrow> nat list \<times> u32 list \<times> u32 list \<times> nat \<times> nat" where
  "bmk_memalloc_printstats s =
     (let free = map (\<lambda>i. of_nat (length (freebuckets s i))) [0..<LOCALBUCKETS];
          used = map (nmalloc s) [0..<LOCALBUCKETS]
      in (map (\<lambda>i. 2 ^ (i + MINSHIFT)) [0..<LOCALBUCKETS], free, used,
          stat_total used div 1024, stat_total free div 1024))"

end
