(* ===== verification/Sched.thy ===== *)
theory Sched
  imports Memalloc BmkString
begin

text \<open>
  The cooperative scheduler, \<open>lib/libbmk_core/sched.c\<close>, with the thread creation of
  \<open>lib/libbmk_core/arch/x86/cpu_sched.c\<close> and the initialisation of \<open>lib/libbmk_core/init.c\<close>.
  A thread is identified by the address of its \<open>struct bmk_thread\<close>. The five queues are lists.
  What a thread that is switched out does when \<open>schedule()\<close> returns in it, in C the frames on
  its stack, is a continuation of type \<open>kont\<close>. The clock readings of the scheduler and the
  wake-ups that interrupt handlers deliver while the processor is blocked come from a list,
  one element for each round of the scheduling loop.
\<close>

section \<open>State\<close>

abbreviation THR_RUNQ :: u32 where "THR_RUNQ \<equiv> 0x0001"
abbreviation THR_TIMEQ :: u32 where "THR_TIMEQ \<equiv> 0x0002"
abbreviation THR_BLOCKQ :: u32 where "THR_BLOCKQ \<equiv> 0x0004"
abbreviation THR_QMASK :: u32 where "THR_QMASK \<equiv> 0x0007"
abbreviation THR_RUNNING :: u32 where "THR_RUNNING \<equiv> 0x0008"
abbreviation THR_TIMEDOUT :: u32 where "THR_TIMEDOUT \<equiv> 0x0010"
abbreviation THR_MUSTJOIN :: u32 where "THR_MUSTJOIN \<equiv> 0x0020"
abbreviation THR_JOINED :: u32 where "THR_JOINED \<equiv> 0x0040"
abbreviation THR_EXTSTACK :: u32 where "THR_EXTSTACK \<equiv> 0x0100"
abbreviation THR_DEAD :: u32 where "THR_DEAD \<equiv> 0x0200"
abbreviation THR_BLOCKPREP :: u32 where "THR_BLOCKPREP \<equiv> 0x0400"

abbreviation BLOCKTIME_MAX :: int where "BLOCKTIME_MAX \<equiv> 1000000000"
abbreviation BLOCK_INFTIME :: int where "BLOCK_INFTIME \<equiv> - 1"
abbreviation BMK_ETIMEDOUT :: int where "BMK_ETIMEDOUT \<equiv> 60"
abbreviation NAME_MAXLEN :: nat where "NAME_MAXLEN \<equiv> 16"
abbreviation THREAD_SIZE :: nat where "THREAD_SIZE \<equiv> 112"
abbreviation BMK_TLS_EXTRA :: nat where "BMK_TLS_EXTRA \<equiv> 48"

record bmk_tcb =
  btcb_sp :: nat
  btcb_ip :: nat
  btcb_tp :: nat
  btcb_tpsize :: nat

record bmk_thread =
  bt_name :: mem
  bt_wakeup_time :: bmk_time
  bt_flags :: u32
  bt_errno :: int
  bt_stackbase :: nat
  bt_cookie :: nat
  bt_tcb :: bmk_tcb

text \<open>Which call of \<open>schedule()\<close> a thread is in: none yet, or the one of the named routine.\<close>

datatype kont = K_start | K_block | K_yield | K_exitgate | K_exit | K_join nat

record sched =
  heap :: mstate
  threads :: "nat \<Rightarrow> bmk_thread"
  kcont :: "nat \<Rightarrow> kont"
  threadq :: "nat list"
  zombieq :: "nat list"
  runq :: "nat list"
  blockq :: "nat list"
  timeq :: "nat list"
  joinwq :: "(nat \<times> nat) list"
  bmk_current :: nat
  spl :: bool
  scheduler_hook :: bool
  hook_calls :: "(nat \<times> nat) list"
  idle_calls :: "bmk_time list"
  block_result :: int
  bmk_stackpageorder :: nat
  bmk_stacksize :: nat
  tdata :: "u8 list"
  tbss_size :: nat
  bmk_mainstackbase :: nat
  bmk_mainstacksize :: nat

type_synonym rounds = "(bmk_time \<times> nat list) list"

section \<open>Flags and queues\<close>

definition flags_of :: "sched \<Rightarrow> nat \<Rightarrow> u32" where
  "flags_of s t = bt_flags (threads s t)"

definition wakeup_of :: "sched \<Rightarrow> nat \<Rightarrow> bmk_time" where
  "wakeup_of s t = bt_wakeup_time (threads s t)"

definition setflags :: "sched \<Rightarrow> nat \<Rightarrow> u32 \<Rightarrow> u32 \<Rightarrow> sched" where
  "setflags s thread add remove =
     s\<lparr>threads := (threads s)(thread := (threads s thread)
       \<lparr>bt_flags := (bt_flags (threads s thread) AND NOT remove) OR add\<rparr>)\<rparr>"

definition set_wakeup :: "sched \<Rightarrow> nat \<Rightarrow> bmk_time \<Rightarrow> sched" where
  "set_wakeup s thread t =
     s\<lparr>threads := (threads s)(thread := (threads s thread)\<lparr>bt_wakeup_time := t\<rparr>)\<rparr>"

text \<open>
  \<open>TAILQ_REMOVE\<close> of the queue the flags name. The interrupt level is raised and restored
  around the move.
\<close>

definition set_runnable :: "sched \<Rightarrow> nat \<Rightarrow> sched res" where
  "set_runnable s thread =
     (let tflags = flags_of s thread in
      if tflags AND THR_RUNQ = THR_RUNQ then Inr s
      else if tflags AND THR_QMASK = THR_TIMEQ then
        Inr (setflags (s\<lparr>timeq := remove1 thread (timeq s), runq := runq s @ [thread]\<rparr>)
               thread THR_RUNQ THR_QMASK)
      else if tflags AND THR_QMASK = THR_BLOCKQ then
        Inr (setflags (s\<lparr>blockq := remove1 thread (blockq s), runq := runq s @ [thread]\<rparr>)
               thread THR_RUNQ THR_QMASK)
      else if tflags AND (THR_RUNNING OR THR_QMASK) = THR_RUNNING then Inr s
      else Inl (Halt ''invalid thread queue''))"

definition bmk_sched_wake :: "sched \<Rightarrow> nat \<Rightarrow> sched res" where
  "bmk_sched_wake s thread = set_runnable (set_wakeup s thread BLOCK_INFTIME) thread"

text \<open>The scan of \<open>timeq_sorted_insert\<close>: before the first thread with a later deadline.\<close>

fun timeq_place :: "(nat \<Rightarrow> bmk_time) \<Rightarrow> nat \<Rightarrow> nat list \<Rightarrow> nat list option" where
  "timeq_place w thread [] = None"
| "timeq_place w thread (it # q) =
     (if w it > w thread then Some (thread # it # q)
      else map_option ((#) it) (timeq_place w thread q))"

definition timeq_sorted_insert :: "sched \<Rightarrow> nat \<Rightarrow> sched res" where
  "timeq_sorted_insert s thread =
     guardR (wakeup_of s thread \<noteq> BLOCK_INFTIME) Assert_failed
       (if timeq s = [] then Inr (s\<lparr>timeq := [thread]\<rparr>)
        else case timeq_place (wakeup_of s) thread (timeq s) of
            Some q \<Rightarrow> Inr (s\<lparr>timeq := q\<rparr>)
          | None \<Rightarrow>
              guardR (wakeup_of s (last (timeq s)) \<le> wakeup_of s thread) Assert_failed
                (Inr (s\<lparr>timeq := timeq s @ [thread]\<rparr>)))"

definition clear_runnable :: "sched \<Rightarrow> sched res" where
  "clear_runnable s =
     (let thread = bmk_current s in
      guardR (flags_of s thread AND THR_RUNNING \<noteq> 0) Assert_failed
      (guardR (flags_of s thread AND THR_RUNQ = 0) Assert_failed
        (if wakeup_of s thread \<noteq> BLOCK_INFTIME
         then bindR (timeq_sorted_insert s thread) (\<lambda>s. Inr (setflags s thread THR_TIMEQ 0))
         else Inr (setflags (s\<lparr>blockq := blockq s @ [thread]\<rparr>) thread THR_BLOCKQ 0))))"

definition bmk_sched_blockprepare_timeout :: "sched \<Rightarrow> bmk_time \<Rightarrow> sched res" where
  "bmk_sched_blockprepare_timeout s deadline =
     (let thread = bmk_current s in
      guardR (flags_of s thread AND THR_BLOCKPREP = 0) Assert_failed
        (clear_runnable (setflags (set_wakeup s thread deadline) thread THR_BLOCKPREP 0)))"

definition bmk_sched_blockprepare :: "sched \<Rightarrow> sched res" where
  "bmk_sched_blockprepare s = bmk_sched_blockprepare_timeout s BLOCK_INFTIME"

text \<open>The lines \<open>bmk_sched_dumpqueue\<close> prints, one list per queue: name, address, flags.\<close>

definition print_threadinfo :: "sched \<Rightarrow> nat \<Rightarrow> mem \<times> nat \<times> u32" where
  "print_threadinfo s thread = (bt_name (threads s thread), thread, flags_of s thread)"

definition bmk_sched_dumpqueue ::
  "sched \<Rightarrow> (mem \<times> nat \<times> u32) list \<times> (mem \<times> nat \<times> u32) list \<times> (mem \<times> nat \<times> u32) list" where
  "bmk_sched_dumpqueue s =
     (map (print_threadinfo s) (runq s), map (print_threadinfo s) (timeq s),
      map (print_threadinfo s) (blockq s))"

section \<open>Stacks and thread-local storage\<close>

definition stackalloc :: "sched \<Rightarrow> (nat option \<times> nat \<times> sched) res" where
  "stackalloc s =
     bindR (bmk_pgalloc (mpg (heap s)) (bmk_stackpageorder s)) (\<lambda>(stack, pg).
       Inr (stack, bmk_stacksize s, s\<lparr>heap := (heap s)\<lparr>mpg := pg\<rparr>\<rparr>))"

definition stackfree :: "sched \<Rightarrow> nat \<Rightarrow> sched res" where
  "stackfree s thread =
     bindR (bmk_pgfree (mpg (heap s)) (bt_stackbase (threads s thread)) (bmk_stackpageorder s)) (\<lambda>pg.
       Inr (s\<lparr>heap := (heap s)\<lparr>mpg := pg\<rparr>\<rparr>))"

text \<open>\<open>TMEMSIZE\<close>: the initialised and the zeroed TLS data, rounded up to pointers.\<close>

definition TMEMSIZE :: "sched \<Rightarrow> nat" where
  "TMEMSIZE s = (length (tdata s) + tbss_size s + 7) div 8 * 8"

text \<open>Storing a byte list and a 64-bit value in memory.\<close>

definition cells_store :: "(nat \<Rightarrow> u8) \<Rightarrow> nat \<Rightarrow> u8 list \<Rightarrow> (nat \<Rightarrow> u8)" where
  "cells_store m p bs = (\<lambda>a. if p \<le> a \<and> a < p + length bs then bs ! (a - p) else m a)"

definition le64 :: "nat \<Rightarrow> u8 list" where
  "le64 v = map (\<lambda>i. of_nat (v div 256 ^ i)) [0..<8]"

definition set_cells :: "sched \<Rightarrow> (nat \<Rightarrow> u8) \<Rightarrow> sched" where
  "set_cells s m = s\<lparr>heap := (heap s)\<lparr>cells := m\<rparr>\<rparr>"

text \<open>The result of \<open>bmk_memalloc\<close> is used without a test for null.\<close>

definition bmk_sched_tls_alloc :: "sched \<Rightarrow> (nat \<times> sched) res" where
  "bmk_sched_tls_alloc s =
     bindR (bmk_memalloc (heap s) (TMEMSIZE s + BMK_TLS_EXTRA) 0 BMK_MEMWHO_WIREDBMK) (\<lambda>(tlsmem, h).
       case tlsmem of
         None \<Rightarrow> Inl Null_deref
       | Some p \<Rightarrow>
           let s = s\<lparr>heap := h\<rparr>;
               m = cells_store (cells h) p (tdata s);
               m = cells_set m (p + length (tdata s)) 0 (tbss_size s)
           in Inr (p + TMEMSIZE s, set_cells s m))"

definition bmk_sched_tls_free :: "sched \<Rightarrow> nat \<Rightarrow> sched res" where
  "bmk_sched_tls_free s p =
     bindR (bmk_memfree (heap s) (Some (sub64 p (TMEMSIZE s))) BMK_MEMWHO_WIREDBMK) (\<lambda>h.
       Inr (s\<lparr>heap := h\<rparr>))"

definition bmk_sched_gettcb :: "sched \<Rightarrow> nat" where
  "bmk_sched_gettcb s = btcb_tp (bt_tcb (threads s (bmk_current s)))"

text \<open>The first word of the TLS area points to itself.\<close>

definition inittcb :: "sched \<Rightarrow> nat \<Rightarrow> nat \<Rightarrow> nat \<Rightarrow> sched" where
  "inittcb s thread tlsarea tlssize =
     (let s = set_cells s (cells_store (cells (heap s)) tlsarea (le64 tlsarea)) in
      s\<lparr>threads := (threads s)(thread := (threads s thread)
        \<lparr>bt_tcb := (bt_tcb (threads s thread))\<lparr>btcb_tp := tlsarea, btcb_tpsize := tlssize\<rparr>\<rparr>)\<rparr>)"

text \<open>
  \<open>bmk_cpu_sched_create\<close> of x86: the thread at the bottom of the stack, entry point and
  argument at its top, where \<open>bmk_cpu_sched_bouncer\<close> (a label in assembly) pops them.
\<close>

definition stack_push :: "(nat \<Rightarrow> u8) \<Rightarrow> nat \<Rightarrow> nat \<Rightarrow> (nat \<Rightarrow> u8) \<times> nat" where
  "stack_push m stack v = (let stack = sub64 stack 8 in (cells_store m stack (le64 v), stack))"

definition bmk_cpu_sched_create ::
  "nat \<Rightarrow> sched \<Rightarrow> nat \<Rightarrow> nat \<Rightarrow> nat \<Rightarrow> nat \<Rightarrow> nat \<Rightarrow> sched" where
  "bmk_cpu_sched_create bouncer s thread f arg stack_base stack_size =
     (let stack_top = wrap64 (stack_base + stack_size);
          m = cells_store (cells (heap s)) stack_base (le64 thread);
          (m, stack_top) = stack_push m stack_top f;
          (m, stack_top) = stack_push m stack_top arg;
          s = set_cells s m
      in s\<lparr>threads := (threads s)(thread := (threads s thread)
           \<lparr>bt_tcb := (bt_tcb (threads s thread))\<lparr>btcb_sp := stack_top, btcb_ip := bouncer\<rparr>\<rparr>)\<rparr>)"

section \<open>Creation\<close>

text \<open>\<open>bmk_memset(thread, 0, sizeof(*thread))\<close> and the name, at most 15 bytes of it.\<close>

definition blank_thread :: bmk_thread where
  "blank_thread = \<lparr>bt_name = replicate NAME_MAXLEN 0, bt_wakeup_time = 0, bt_flags = 0, bt_errno = 0,
     bt_stackbase = 0, bt_cookie = 0,
     bt_tcb = \<lparr>btcb_sp = 0, btcb_ip = 0, btcb_tp = 0, btcb_tpsize = 0\<rparr>\<rparr>"

definition name_field :: "mem \<Rightarrow> mem res" where
  "name_field name =
     bindR (bmk_strncpy (replicate NAME_MAXLEN 0 @ name) 0 NAME_MAXLEN (NAME_MAXLEN - 1)) (\<lambda>(M, _).
       Inr (take NAME_MAXLEN M))"

text \<open>The second half of \<open>bmk_sched_create_withtls\<close>, once the stack is known.\<close>

definition create_finish ::
  "nat \<Rightarrow> sched \<Rightarrow> nat \<Rightarrow> nat \<Rightarrow> nat \<Rightarrow> nat \<Rightarrow> bool \<Rightarrow> nat \<Rightarrow> nat \<Rightarrow> nat \<Rightarrow> sched" where
  "create_finish bouncer s thread stack stack_size cookie joinable f data tlsarea =
     (let s = s\<lparr>threads := (threads s)(thread := (threads s thread)\<lparr>bt_stackbase := stack\<rparr>)\<rparr>;
          s = (if joinable then setflags s thread THR_MUSTJOIN 0 else s);
          s = bmk_cpu_sched_create bouncer s thread f data stack stack_size;
          s = s\<lparr>threads := (threads s)(thread := (threads s thread)\<lparr>bt_cookie := cookie\<rparr>)\<rparr>;
          s = set_wakeup s thread BLOCK_INFTIME;
          s = inittcb s thread tlsarea (TMEMSIZE s);
          s = s\<lparr>threadq := threadq s @ [thread], runq := runq s @ [thread]\<rparr>
      in setflags s thread THR_RUNQ 0)"

definition bmk_sched_create_withtls ::
  "nat \<Rightarrow> sched \<Rightarrow> mem \<Rightarrow> nat \<Rightarrow> bool \<Rightarrow> nat \<Rightarrow> nat \<Rightarrow> nat option \<Rightarrow> nat \<Rightarrow> nat \<Rightarrow> (nat \<times> sched) res" where
  "bmk_sched_create_withtls bouncer s name cookie joinable f data stack_base stack_size tlsarea =
     bindR (bmk_xmalloc_bmk (heap s) THREAD_SIZE) (\<lambda>(thread, h).
     bindR (name_field name) (\<lambda>nm.
     let s = s\<lparr>heap := h\<lparr>cells := cells_set (cells h) thread 0 THREAD_SIZE\<rparr>,
               threads := (threads s)(thread := blank_thread\<lparr>bt_name := nm\<rparr>),
               kcont := (kcont s)(thread := K_start)\<rparr>
     in bindR (case stack_base of
                 None \<Rightarrow> guardR (stack_size = 0) Assert_failed (stackalloc s)
               | Some b \<Rightarrow> Inr (Some b, stack_size, setflags s thread THR_EXTSTACK 0xFFFFFFFF))
          (\<lambda>(stack, stack_size, s). case stack of
             None \<Rightarrow> Inl Null_deref
           | Some stack \<Rightarrow>
               Inr (thread, create_finish bouncer s thread stack stack_size cookie joinable f data tlsarea))))"

definition bmk_sched_create ::
  "nat \<Rightarrow> sched \<Rightarrow> mem \<Rightarrow> nat \<Rightarrow> bool \<Rightarrow> nat \<Rightarrow> nat \<Rightarrow> nat option \<Rightarrow> nat \<Rightarrow> (nat \<times> sched) res" where
  "bmk_sched_create bouncer s name cookie joinable f data stack_base stack_size =
     bindR (bmk_sched_tls_alloc s) (\<lambda>(tlsarea, s).
       bmk_sched_create_withtls bouncer s name cookie joinable f data stack_base stack_size tlsarea)"

section \<open>The scheduling loop\<close>

text \<open>\<open>bmk_cpu_sched_switch\<close> saves the context of \<open>prev\<close>; the TLS area of \<open>next\<close> makes it current.\<close>

definition sched_switch :: "sched \<Rightarrow> nat \<Rightarrow> nat \<Rightarrow> sched res" where
  "sched_switch s prev next =
     guardR (flags_of s next AND THR_RUNNING \<noteq> 0) Assert_failed
     (guardR (flags_of s next AND THR_QMASK = 0) Assert_failed
       (let s = (if scheduler_hook s
                 then s\<lparr>hook_calls := (bt_cookie (threads s prev), bt_cookie (threads s next)) # hook_calls s\<rparr>
                 else s)
        in Inr (s\<lparr>bmk_current := next\<rparr>)))"

text \<open>The timeouts that have expired, in the order of the queue; then the time to sleep until.\<close>

fun expire_timeouts :: "nat \<Rightarrow> bmk_time \<Rightarrow> bmk_time \<Rightarrow> sched \<Rightarrow> (bmk_time \<times> sched) res" where
  "expire_timeouts n curtime waketime s =
     (case timeq s of
        [] \<Rightarrow> Inr (waketime, s)
      | thread # _ \<Rightarrow>
          if wakeup_of s thread \<le> curtime then
            (case n of
               0 \<Rightarrow> Inl Out_of_fuel
             | Suc n \<Rightarrow>
                 bindR (bmk_sched_wake (setflags s thread THR_TIMEDOUT 0) thread)
                   (expire_timeouts n curtime waketime))
          else Inr (if wakeup_of s thread < waketime then wakeup_of s thread else waketime, s))"

fun wake_all :: "nat list \<Rightarrow> sched \<Rightarrow> sched res" where
  "wake_all [] s = Inr s"
| "wake_all (t # ts) s = bindR (bmk_sched_wake s t) (wake_all ts)"

text \<open>The loop of \<open>schedule\<close>. A list that runs out stands for a processor that stays idle.\<close>

fun sched_pick :: "rounds \<Rightarrow> sched \<Rightarrow> (nat \<times> sched \<times> rounds) res" where
  "sched_pick [] s = Inl Out_of_fuel"
| "sched_pick ((curtime, interrupts) # rs) s =
     bindR (expire_timeouts (length (timeq s)) curtime (curtime + BLOCKTIME_MAX) s) (\<lambda>(waketime, s).
       case runq s of
         next # _ \<Rightarrow>
           guardR (flags_of s next AND THR_RUNQ \<noteq> 0) Assert_failed
           (guardR (flags_of s next AND THR_DEAD = 0) Assert_failed (Inr (next, s, rs)))
       | [] \<Rightarrow>
           bindR (wake_all interrupts (s\<lparr>idle_calls := waketime # idle_calls s\<rparr>)) (sched_pick rs))"

fun reaper :: "nat list \<Rightarrow> sched \<Rightarrow> sched res" where
  "reaper [] s = Inr s"
| "reaper (thread # zs) s =
     (let s = s\<lparr>zombieq := zs\<rparr> in
      bindR (if flags_of s thread AND THR_EXTSTACK = 0 then stackfree s thread else Inr s) (\<lambda>s.
      bindR (bmk_memfree (heap s) (Some thread) BMK_MEMWHO_WIREDBMK) (\<lambda>h.
      reaper zs (s\<lparr>heap := h\<rparr>))))"

section \<open>Blocking, exit and join, up to the call of schedule()\<close>

text \<open>The two ends of \<open>bmk_sched_block\<close>, around \<open>schedule()\<close>.\<close>

definition block_check :: "sched \<Rightarrow> sched res" where
  "block_check s =
     guardR (flags_of s (bmk_current s) AND THR_TIMEDOUT = 0) Assert_failed
     (guardR (flags_of s (bmk_current s) AND THR_BLOCKPREP \<noteq> 0) Assert_failed (Inr s))"

definition block_tail :: "sched \<Rightarrow> sched" where
  "block_tail s =
     (let thread = bmk_current s; tflags = flags_of s thread in
      (setflags s thread 0 (THR_TIMEDOUT OR THR_BLOCKPREP))
        \<lparr>block_result := (if tflags AND THR_TIMEDOUT \<noteq> 0 then BMK_ETIMEDOUT else 0)\<rparr>)"

text \<open>\<open>bmk_sched_exit_withtls\<close> from the loop test to the next \<open>schedule()\<close>.\<close>

definition exit_path :: "sched \<Rightarrow> (kont \<times> sched) res" where
  "exit_path s =
     (let thread = bmk_current s in
      if flags_of s thread AND THR_MUSTJOIN \<noteq> 0 then
        let s = setflags s thread THR_JOINED 0 in
        bindR (case find (\<lambda>jw. snd jw = thread) (joinwq s) of
                 None \<Rightarrow> Inr s
               | Some jw \<Rightarrow> bmk_sched_wake s (fst jw)) (\<lambda>s.
        bindR (bmk_sched_blockprepare s) (\<lambda>s.
        bindR (block_check s) (\<lambda>s. Inr (K_exitgate, s))))
      else
        guardR (flags_of s thread AND THR_QMASK = 0) Assert_failed
          (Inr (K_exit, (setflags s thread THR_DEAD THR_RUNNING)
             \<lparr>threadq := remove1 thread (threadq s), zombieq := thread # zombieq s\<rparr>)))"

text \<open>\<open>bmk_sched_join\<close> from the loop test to the next \<open>schedule()\<close>, or to its end.\<close>

definition join_path :: "nat \<Rightarrow> sched \<Rightarrow> (kont option \<times> sched) res" where
  "join_path joinable s =
     (let thread = bmk_current s in
      if flags_of s joinable AND THR_JOINED = 0 then
        bindR (bmk_sched_blockprepare (s\<lparr>joinwq := joinwq s @ [(thread, joinable)]\<rparr>)) (\<lambda>s.
        bindR (block_check s) (\<lambda>s. Inr (Some (K_join joinable), s)))
      else
        guardR (flags_of s joinable AND THR_JOINED \<noteq> 0) Assert_failed
          (bindR (bmk_sched_wake (setflags s joinable 0 THR_MUSTJOIN) joinable) (\<lambda>s. Inr (None, s))))"

section \<open>schedule() and its callers\<close>

lemma sched_pick_shorter:
  "sched_pick rs s = Inr (next, s', rs') \<Longrightarrow> length rs' < length rs"
proof (induction rs arbitrary: s)
  case (Cons r rs)
  obtain t i where r: "r = (t, i)" by fastforce
  from Cons.prems obtain w s1 where e:
    "expire_timeouts (length (timeq s)) t (t + BLOCKTIME_MAX) s = Inr (w, s1)"
    by (auto simp: r bindR_eq_Inr simp del: expire_timeouts.simps)
  show ?case
  proof (cases "runq s1")
    case Nil
    then show ?thesis using Cons.prems e
      by (auto simp: r bindR_eq_Inr simp del: expire_timeouts.simps dest!: Cons.IH)
  next
    case (Cons n q)
    then show ?thesis using Cons.prems e by (auto simp: r simp del: expire_timeouts.simps)
  qed
qed simp

text \<open>
  \<open>schedule\<close>, called by the current thread with the continuation \<open>k\<close>: pick, switch, and go on
  in the thread that was picked, which reaps the exited threads unless it has never run, and
  then returns to its caller.
\<close>

definition sched_commit :: "sched \<Rightarrow> nat \<Rightarrow> sched res" where
  "sched_commit s next =
     (let prev = bmk_current s;
          s = setflags s prev 0 THR_RUNNING;
          s = setflags (s\<lparr>runq := remove1 next (runq s)\<rparr>) next THR_RUNNING THR_RUNQ;
          s = s\<lparr>spl := False\<rparr>
      in if prev \<noteq> next then sched_switch s prev next else Inr s)"

function schedule :: "rounds \<Rightarrow> kont \<Rightarrow> sched \<Rightarrow> (sched \<times> rounds) res" where
  "schedule rs k s0 =
     (let s = s0\<lparr>kcont := (kcont s0)(bmk_current s0 := k)\<rparr> in
      if spl s then Inl (Halt ''schedule() called at !spl0'')
      else bindR (sched_pick rs (s\<lparr>spl := True\<rparr>)) (\<lambda>(next, s, rs').
        bindR (sched_commit s next) (\<lambda>s.
        if kcont s next = K_start then Inr (s, rs')
        else bindR (reaper (zombieq s) s) (\<lambda>s.
          case kcont s next of
            K_start \<Rightarrow> Inr (s, rs')
          | K_block \<Rightarrow> Inr (block_tail s, rs')
          | K_yield \<Rightarrow> Inr (s, rs')
          | K_exit \<Rightarrow> Inl (Halt ''schedule() returned for a dead thread!'')
          | K_exitgate \<Rightarrow> bindR (exit_path (block_tail s)) (\<lambda>(k, s). schedule rs' k s)
          | K_join j \<Rightarrow>
              bindR (join_path j ((block_tail s)\<lparr>joinwq := remove1 (next, j) (joinwq s)\<rparr>)) (\<lambda>(ko, s).
                case ko of None \<Rightarrow> Inr (s, rs') | Some k \<Rightarrow> schedule rs' k s)))))"
  by pat_completeness auto
termination
  by (relation "measure (\<lambda>(rs, k, s). length rs)") (auto dest: sched_pick_shorter)

declare schedule.simps [simp del] expire_timeouts.simps [simp del]

definition bmk_sched_block :: "rounds \<Rightarrow> sched \<Rightarrow> (sched \<times> rounds) res" where
  "bmk_sched_block rs s = bindR (block_check s) (schedule rs K_block)"

definition bmk_sched_yield :: "rounds \<Rightarrow> sched \<Rightarrow> (sched \<times> rounds) res" where
  "bmk_sched_yield rs s =
     (let thread = bmk_current s in
      guardR (flags_of s thread AND THR_RUNNING \<noteq> 0) Assert_failed
        (schedule rs K_yield
           (setflags (s\<lparr>runq := runq s @ [thread]\<rparr>) thread THR_RUNQ THR_RUNNING)))"

definition bmk_sched_exit_withtls :: "rounds \<Rightarrow> sched \<Rightarrow> (sched \<times> rounds) res" where
  "bmk_sched_exit_withtls rs s = bindR (exit_path s) (\<lambda>(k, s). schedule rs k s)"

definition bmk_sched_exit :: "rounds \<Rightarrow> sched \<Rightarrow> (sched \<times> rounds) res" where
  "bmk_sched_exit rs s =
     bindR (bmk_sched_tls_free s (bmk_sched_gettcb s)) (bmk_sched_exit_withtls rs)"

definition bmk_sched_join :: "rounds \<Rightarrow> nat \<Rightarrow> sched \<Rightarrow> (sched \<times> rounds) res" where
  "bmk_sched_join rs joinable s =
     guardR (flags_of s joinable AND THR_MUSTJOIN \<noteq> 0) Assert_failed
       (bindR (join_path joinable s) (\<lambda>(ko, s). case ko of
            None \<Rightarrow> Inr (s, rs)
          | Some k \<Rightarrow> schedule rs k s))"

definition bmk_sched_suspend :: "sched \<Rightarrow> nat \<Rightarrow> sched res" where
  "bmk_sched_suspend s thread = Inl (Halt ''sched_suspend unimplemented'')"

definition bmk_sched_unsuspend :: "sched \<Rightarrow> nat \<Rightarrow> sched res" where
  "bmk_sched_unsuspend s thread = Inl (Halt ''sched_unsuspend unimplemented'')"

definition bmk_sched_set_hook :: "sched \<Rightarrow> bool \<Rightarrow> sched" where
  "bmk_sched_set_hook s f = s\<lparr>scheduler_hook := f\<rparr>"

definition bmk_sched_init_mainlwp :: "sched \<Rightarrow> nat \<Rightarrow> nat \<times> sched" where
  "bmk_sched_init_mainlwp s cookie =
     (bmk_current s, s\<lparr>threads := (threads s)(bmk_current s :=
        (threads s (bmk_current s))\<lparr>bt_cookie := cookie\<rparr>)\<rparr>)"

definition bmk_sched_threadname :: "sched \<Rightarrow> nat \<Rightarrow> mem" where
  "bmk_sched_threadname s thread = bt_name (threads s thread)"

definition bmk_sched_geterrno :: "sched \<Rightarrow> int" where
  "bmk_sched_geterrno s = bt_errno (threads s (bmk_current s))"

section \<open>Start-up\<close>

definition bmk_core_init :: "sched \<Rightarrow> nat \<Rightarrow> sched res" where
  "bmk_core_init s stackpageorder =
     guardR (stackpageorder < 31) Bad_shift
       (Inr (s\<lparr>bmk_stackpageorder := stackpageorder, bmk_stacksize := 2 ^ stackpageorder * PAGE_SIZE,
               heap := bmk_memalloc_init (heap s)\<rparr>))"

text \<open>
  \<open>bmk_sched_startmain\<close>: the thread \<open>init\<close> is on the boot stack and on no queue; the boot code
  continues in the main thread. The allocation of the main stack is not tested for null
  either; with a null base and the stack size the assertion in \<open>bmk_sched_create_withtls\<close> fails.
\<close>

definition bmk_sched_startmain :: "nat \<Rightarrow> sched \<Rightarrow> nat \<Rightarrow> nat \<Rightarrow> nat \<Rightarrow> sched res" where
  "bmk_sched_startmain bouncer s initthread mainfun arg =
     bindR (stackalloc (s\<lparr>threads := (threads s)(initthread := blank_thread
              \<lparr>bt_name := bytes ''init'' @ replicate 12 0\<rparr>)\<rparr>)) (\<lambda>(stack, size, s).
     bindR (bmk_sched_create bouncer
              (s\<lparr>bmk_mainstackbase := (case stack of None \<Rightarrow> 0 | Some b \<Rightarrow> b),
                 bmk_mainstacksize := size\<rparr>)
              (bytes ''main'' @ [0]) 0 False mainfun arg stack size) (\<lambda>(mainthread, s).
     sched_switch (setflags (s\<lparr>runq := remove1 mainthread (runq s)\<rparr>) mainthread THR_RUNNING THR_RUNQ)
       initthread mainthread))"

end
