(* ===== verification/PgallocBitmap.thy ===== *)
theory PgallocBitmap
  imports Pgalloc
begin

text \<open>
  The bitmap routines of the page allocator against their meaning on single pages:
  \<open>map_alloc\<close> sets exactly the bits of the pages it is given, \<open>map_free\<close> clears exactly
  those, and both stay inside the map when the page after the last one has a map word.
\<close>

section \<open>Bits of the map\<close>

definition bm_bit :: "u64 list \<Rightarrow> nat \<Rightarrow> bool" where
  "bm_bit bm p = bit (bm ! (p div 64)) (p mod 64)"

lemma and_63_mod: "(n::nat) AND 63 = n mod 64"
  using take_bit_eq_mask [of 6 n] by (simp add: take_bit_eq_mod mask_eq_exp_minus_1)

lemma exp_minus_1_mask: "2 ^ n - 1 = (mask n :: u64)"
  by (simp add: mask_eq_exp_minus_1)

lemma minus_exp_mask: "- (2 ^ n) = (NOT (mask n) :: u64)"
  by (simp add: minus_exp_eq_not_mask)

lemmas bm_masks = exp_minus_1_mask minus_exp_mask

lemma and_push_bit_iff: "j < 64 \<Longrightarrow> (w :: u64) AND push_bit j 1 \<noteq> 0 \<longleftrightarrow> bit w j"
  by (simp add: push_bit_eq_mult and_exp_eq_0_iff_not_bit)

lemma bit_mask_u64: "bit (mask n :: u64) j \<longleftrightarrow> j < 64 \<and> j < n"
  by (auto simp: bit_mask_iff)

lemma bit_not_mask_u64: "bit (NOT (mask n) :: u64) j \<longleftrightarrow> j < 64 \<and> n \<le> j"
  by (auto simp: bit_simps)

lemma bit_not_0_u64: "bit (NOT 0 :: u64) j \<longleftrightarrow> j < 64"
  by (simp add: bit_simps)

lemmas bm_bit_rules = bit_or_iff bit_and_iff bit_mask_u64 bit_not_mask_u64 bit_not_0_u64 bit_0_eq

lemma bm_update_ok [simp]: "i < length bm \<Longrightarrow> bm_update i f bm = Inr (bm[i := f (bm ! i)])"
  by (simp add: bm_update_def)

lemma bm_fill_ok:
  assumes "\<forall>i \<in> set idxs. i < length bm"
  shows "\<exists>bm'. bm_fill idxs w bm = Inr bm' \<and> length bm' = length bm \<and>
    (\<forall>q. bm' ! q = (if q \<in> set idxs then w else bm ! q))"
  using assms
proof (induction idxs arbitrary: bm)
  case Nil
  then show ?case by simp
next
  case (Cons i idxs)
  let ?bm = "bm[i := w]"
  from Cons.prems have "\<forall>i \<in> set idxs. i < length ?bm" by simp
  from Cons.IH [OF this] obtain bm' where "bm_fill idxs w ?bm = Inr bm'"
    "length bm' = length ?bm" "\<forall>q. bm' ! q = (if q \<in> set idxs then w else ?bm ! q)"
    by blast
  then show ?case
    using Cons.prems by (auto simp: nth_list_update)
qed

section \<open>Setting and clearing page ranges\<close>

text \<open>The hypothesis under which the code's index arithmetic does not wrap or leave the map.\<close>

definition pages_in_map :: "pgstate \<Rightarrow> nat \<Rightarrow> nat \<Rightarrow> bool" where
  "pages_in_map s virt nr \<longleftrightarrow>
     va_to_pg s virt + nr < 2 ^ 64 \<and> (va_to_pg s virt + nr) div 64 < length (alloc_bitmap s)"

text \<open>
  Page numbers are split into a word index and a bit offset once, so that the case analysis
  over the words is linear arithmetic: first page \<open>64 i + a\<close>, end of range \<open>64 e + b\<close>.
\<close>

lemma range_split:
  obtains i a e b where "f = 64 * i + a" "a < 64" "f + nr = 64 * e + b" "b < (64::nat)"
    "f div 64 = i" "f mod 64 = a" "(f + nr) div 64 = e" "(f + nr) mod 64 = b"
proof
  show "f = 64 * (f div 64) + f mod 64" "f + nr = 64 * ((f + nr) div 64) + (f + nr) mod 64"
    by (simp_all only: mult_div_mod_eq)
qed simp_all

lemma bm_bit_split:
  assumes "\<And>q r. r < 64 \<Longrightarrow> bit (bm' ! q) r \<longleftrightarrow> P (64 * q + r) (bit (bm ! q) r)"
  shows "bm_bit bm' p \<longleftrightarrow> P p (bm_bit bm p)"
  using assms [of "p mod 64" "p div 64"] by (simp add: bm_bit_def)

lemma map_alloc_ok:
  assumes "pages_in_map s virt nr"
  defines "f \<equiv> va_to_pg s virt"
  shows "\<exists>bm. map_alloc s virt nr = Inr (s\<lparr>alloc_bitmap := bm\<rparr>) \<and>
    length bm = length (alloc_bitmap s) \<and>
    (\<forall>p. bm_bit bm p \<longleftrightarrow> (f \<le> p \<and> p < f + nr) \<or> bm_bit (alloc_bitmap s) p)"
proof -
  let ?bm = "alloc_bitmap s"
  obtain i a e b where f: "f = 64 * i + a" "a < 64" "f + nr = 64 * e + b" "b < 64"
    and d: "f div 64 = i" "f mod 64 = a" "(f + nr) div 64 = e" "(f + nr) mod 64 = b"
    by (rule range_split)
  have e: "e < length ?bm" and w: "wrap64 (f + nr) = f + nr"
    using assms d by (simp_all add: pages_in_map_def wrap64_def)
  note unfold = map_alloc_def Let_def f_def [symmetric] w and_63_mod bm_masks d
  show ?thesis
  proof (cases "i = e")
    case True
    let ?b = "?bm[i := ?bm ! i OR (mask b AND NOT (mask a))]"
    have "map_alloc s virt nr = Inr (s\<lparr>alloc_bitmap := ?b\<rparr>)"
      using True e by (simp add: unfold)
    moreover have "bit (?b ! q) r \<longleftrightarrow> (f \<le> 64 * q + r \<and> 64 * q + r < f + nr) \<or> bit (?bm ! q) r"
      if "r < 64" for q r
      using that True e f by (cases "q = i") (auto simp: bm_bit_rules)
    ultimately show ?thesis
      using bm_bit_split [of ?b "\<lambda>p x. (f \<le> p \<and> p < f + nr) \<or> x" ?bm] by auto
  next
    case False
    then have lt: "i < e" using f by linarith
    let ?b1 = "?bm[i := ?bm ! i OR NOT (mask a)]"
    obtain b2 where b2: "bm_fill [Suc i..<e] (NOT 0) ?b1 = Inr b2" "length b2 = length ?bm"
      "\<And>q. b2 ! q = (if q \<in> set [Suc i..<e] then NOT 0 else ?b1 ! q)"
      using bm_fill_ok [of "[Suc i..<e]" ?b1 "NOT 0"] e by auto
    let ?b3 = "b2[e := b2 ! e OR mask b]"
    have "map_alloc s virt nr = Inr (s\<lparr>alloc_bitmap := ?b3\<rparr>)"
      using lt e b2(1,2) by (simp add: unfold)
    moreover have "bit (?b3 ! q) r \<longleftrightarrow> (f \<le> 64 * q + r \<and> 64 * q + r < f + nr) \<or> bit (?bm ! q) r"
      if "r < 64" for q r
      using that lt e f b2(2)
      by (cases "q = e"; cases "q = i") (auto simp: b2(3) bm_bit_rules nth_list_update)
    ultimately show ?thesis
      using bm_bit_split [of ?b3 "\<lambda>p x. (f \<le> p \<and> p < f + nr) \<or> x" ?bm] b2(2) by auto
  qed
qed

lemma map_free_ok:
  assumes "pages_in_map s virt nr"
  defines "f \<equiv> va_to_pg s virt"
  shows "\<exists>bm. map_free s virt nr = Inr (s\<lparr>alloc_bitmap := bm\<rparr>) \<and>
    length bm = length (alloc_bitmap s) \<and>
    (\<forall>p. bm_bit bm p \<longleftrightarrow> \<not> (f \<le> p \<and> p < f + nr) \<and> bm_bit (alloc_bitmap s) p)"
proof -
  let ?bm = "alloc_bitmap s"
  obtain i a e b where f: "f = 64 * i + a" "a < 64" "f + nr = 64 * e + b" "b < 64"
    and d: "f div 64 = i" "f mod 64 = a" "(f + nr) div 64 = e" "(f + nr) mod 64 = b"
    by (rule range_split)
  have e: "e < length ?bm" and w: "wrap64 (f + nr) = f + nr"
    using assms d by (simp_all add: pages_in_map_def wrap64_def)
  note unfold = map_free_def Let_def f_def [symmetric] w and_63_mod bm_masks d
  show ?thesis
  proof (cases "i = e")
    case True
    let ?b = "?bm[i := ?bm ! i AND (NOT (mask b) OR mask a)]"
    have "map_free s virt nr = Inr (s\<lparr>alloc_bitmap := ?b\<rparr>)"
      using True e by (simp add: unfold)
    moreover have "bit (?b ! q) r \<longleftrightarrow> \<not> (f \<le> 64 * q + r \<and> 64 * q + r < f + nr) \<and> bit (?bm ! q) r"
      if "r < 64" for q r
      using that True e f by (cases "q = i") (auto simp: bm_bit_rules)
    ultimately show ?thesis
      using bm_bit_split [of ?b "\<lambda>p x. \<not> (f \<le> p \<and> p < f + nr) \<and> x" ?bm] by auto
  next
    case False
    then have lt: "i < e" using f by linarith
    let ?b1 = "?bm[i := ?bm ! i AND mask a]"
    obtain b2 where b2: "bm_fill [Suc i..<e] 0 ?b1 = Inr b2" "length b2 = length ?bm"
      "\<And>q. b2 ! q = (if q \<in> set [Suc i..<e] then 0 else ?b1 ! q)"
      using bm_fill_ok [of "[Suc i..<e]" ?b1 0] e by auto
    let ?b3 = "b2[e := b2 ! e AND NOT (mask b)]"
    have "map_free s virt nr = Inr (s\<lparr>alloc_bitmap := ?b3\<rparr>)"
      using lt e b2(1,2) by (simp add: unfold)
    moreover have "bit (?b3 ! q) r \<longleftrightarrow> \<not> (f \<le> 64 * q + r \<and> 64 * q + r < f + nr) \<and> bit (?bm ! q) r"
      if "r < 64" for q r
      using that lt e f b2(2)
      by (cases "q = e"; cases "q = i") (auto simp: b2(3) bm_bit_rules nth_list_update)
    ultimately show ?thesis
      using bm_bit_split [of ?b3 "\<lambda>p x. \<not> (f \<le> p \<and> p < f + nr) \<and> x" ?bm] b2(2) by auto
  qed
qed

end
