(* ===== verification/PgallocInv.thy ===== *)
theory PgallocInv
  imports PgallocBitmap
begin

text \<open>
  The invariant of the buddy allocator and its preservation by \<open>bmk_pgalloc_loadmem\<close>,
  \<open>bmk_pgalloc_align\<close> and \<open>bmk_pgfree\<close>. Inside an operation some memory is neither free
  nor allocated: a chunk taken off its list and not yet carved, a block whose bits are
  cleared and which is not yet linked. The invariant is therefore stated with such a hole;
  the invariant between operations has an empty one.
\<close>

section \<open>The invariant\<close>

definition blk :: "nat \<Rightarrow> nat \<Rightarrow> nat set" where
  "blk l a = {a..<a + order2size l}"

definition free_set :: "pgstate \<Rightarrow> nat set" where
  "free_set s = {x. \<exists>l a. a \<in> set (freelist s l) \<and> x \<in> blk l a}"

definition managed_set :: "pgstate \<Rightarrow> nat set" where
  "managed_set s = {minpage_addr s..<maxpage_addr s}"

definition geom :: "pgstate \<Rightarrow> bool" where
  "geom s \<longleftrightarrow> PAGE_SIZE dvd minpage_addr s \<and> PAGE_SIZE dvd maxpage_addr s \<and>
     0 < minpage_addr s \<and> minpage_addr s \<le> maxpage_addr s \<and> maxpage_addr s < 2 ^ 64 \<and>
     (maxpage_addr s - minpage_addr s) div PAGE_SIZE div 64 < length (alloc_bitmap s)"

definition chunk_ok :: "pgstate \<Rightarrow> nat \<Rightarrow> nat \<Rightarrow> bool" where
  "chunk_ok s l a \<longleftrightarrow> l < FREELIST_LEVELS \<and> order2size l dvd a \<and> blk l a \<subseteq> managed_set s \<and>
     chunks s a = \<lparr>level = l, magic = CHUNKMAGIC\<rparr>"

definition lists_ok :: "pgstate \<Rightarrow> bool" where
  "lists_ok s \<longleftrightarrow> (\<forall>l. distinct (freelist s l)) \<and>
     (\<forall>l a. a \<in> set (freelist s l) \<longrightarrow> chunk_ok s l a) \<and>
     (\<forall>l a l' a'. a \<in> set (freelist s l) \<longrightarrow> a' \<in> set (freelist s l') \<longrightarrow>
        blk l a \<inter> blk l' a' \<noteq> {} \<longrightarrow> l = l' \<and> a = a')"

definition page_used :: "pgstate \<Rightarrow> nat \<Rightarrow> bool" where
  "page_used s x = bm_bit (alloc_bitmap s) (va_to_pg s x)"

definition hole_inv :: "pgstate \<Rightarrow> nat set \<Rightarrow> bool" where
  "hole_inv s H \<longleftrightarrow> geom s \<and> lists_ok s \<and> H \<subseteq> managed_set s \<and> H \<inter> free_set s = {} \<and>
     (\<forall>x \<in> managed_set s. page_used s x \<longleftrightarrow> x \<notin> free_set s \<and> x \<notin> H)"

definition accounts :: "pgstate \<Rightarrow> bool" where
  "accounts s \<longleftrightarrow> pgalloc_totalkb s * 1024 = maxpage_addr s - minpage_addr s \<and>
     pgalloc_usedkb s * 1024 + card (free_set s) = pgalloc_totalkb s * 1024"

text \<open>What no list operation touches.\<close>

definition pg_frame :: "pgstate \<Rightarrow> pgstate \<Rightarrow> bool" where
  "pg_frame s s' \<longleftrightarrow> minpage_addr s' = minpage_addr s \<and> maxpage_addr s' = maxpage_addr s \<and>
     pgalloc_totalkb s' = pgalloc_totalkb s \<and> pgalloc_usedkb s' = pgalloc_usedkb s"

lemma pg_frame_refl [simp]: "pg_frame s s"
  by (simp add: pg_frame_def)

lemma pg_frame_trans [trans]: "pg_frame s t \<Longrightarrow> pg_frame t u \<Longrightarrow> pg_frame s u"
  by (simp add: pg_frame_def)

lemma hole_invI:
  assumes "geom s" "lists_ok s" "H \<subseteq> managed_set s" "H \<inter> free_set s = {}"
    "\<And>x. x \<in> managed_set s \<Longrightarrow> page_used s x \<longleftrightarrow> x \<notin> free_set s \<and> x \<notin> H"
  shows "hole_inv s H"
  using assms by (simp add: hole_inv_def)

lemma hole_invD:
  assumes "hole_inv s H"
  shows "geom s" "lists_ok s" "H \<subseteq> managed_set s" "H \<inter> free_set s = {}"
    "\<And>x. x \<in> managed_set s \<Longrightarrow> page_used s x \<longleftrightarrow> x \<notin> free_set s \<and> x \<notin> H"
  using assms by (simp_all add: hole_inv_def)

section \<open>Blocks\<close>

lemma order2size_page: "PAGE_SIZE dvd order2size l"
  by (simp add: order2size_def power_add)

lemma order2size_mono: "l \<le> l' \<Longrightarrow> order2size l dvd order2size l'"
  by (simp add: order2size_def le_imp_power_dvd)

lemma order2size_Suc: "order2size (Suc l) = 2 * order2size l"
  by (simp add: order2size_def power_add)

lemma order2size_pages: "order2size l = PAGE_SIZE * 2 ^ l"
  by (simp add: order2size_def power_add)

lemma blk_head: "a \<in> blk l a"
  by (simp add: blk_def)

lemma finite_blk: "finite (blk l a)"
  by (simp add: blk_def)

lemma card_blk: "card (blk l a) = order2size l"
  by (simp add: blk_def)

text \<open>Aligned blocks are nested or disjoint.\<close>

lemma blk_nested:
  assumes "order2size l dvd a" "order2size l' dvd a'" "l \<le> l'" "x \<in> blk l a" "x \<in> blk l' a'"
  shows "blk l a \<subseteq> blk l' a'"
proof -
  let ?k = "order2size l" and ?m = "order2size l'"
  obtain c where c: "?m = ?k * c" using order2size_mono [OF assms(3)] by (auto elim: dvdE)
  obtain u v where u: "a = ?k * u" and v: "a' = ?m * v" using assms(1,2) by (auto elim!: dvdE)
  have k: "0 < ?k" by simp
  have "?k * u < ?k * (c * v + c)" "?k * (c * v) < ?k * (u + 1)"
    using assms(4,5) unfolding blk_def u v c by (auto simp: algebra_simps)
  then have "u < c * v + c" "c * v < u + 1" using k by (simp_all del: mult_Suc_right)
  then have "?k * (c * v) \<le> ?k * u" "?k * (u + 1) \<le> ?k * (c * v + c)"
    by (intro mult_le_mono2; linarith)+
  then show ?thesis
    unfolding blk_def u v c by (auto simp: algebra_simps)
qed

lemma blk_same:
  assumes "order2size l dvd a" "order2size l' dvd a'" "l \<le> l'" "a' \<in> blk l a"
  shows "a = a'"
proof -
  have "order2size l dvd a'" using assms(2,3) order2size_mono dvd_trans by blast
  with assms(1) obtain u v where "a = order2size l * u" "a' = order2size l * v"
    by (auto elim!: dvdE)
  with assms(4) have "order2size l * u \<le> order2size l * v" "order2size l * v < order2size l * (u + 1)"
    by (simp_all add: blk_def)
  then have "u \<le> v" "v < u + 1" by (simp_all del: mult_Suc_right)
  then show ?thesis using \<open>a = _\<close> \<open>a' = _\<close> by simp
qed

section \<open>List operations and the hole\<close>

lemma lists_okD:
  assumes "lists_ok s"
  shows "distinct (freelist s l)"
    "a \<in> set (freelist s l) \<Longrightarrow> chunk_ok s l a"
    "a \<in> set (freelist s l) \<Longrightarrow> a' \<in> set (freelist s l') \<Longrightarrow> x \<in> blk l a \<Longrightarrow> x \<in> blk l' a' \<Longrightarrow>
       l = l' \<and> a = a'"
  using assms unfolding lists_ok_def by blast+

lemma free_setI: "a \<in> set (freelist s l) \<Longrightarrow> x \<in> blk l a \<Longrightarrow> x \<in> free_set s"
  by (auto simp: free_set_def)

lemma free_setE:
  assumes "x \<in> free_set s"
  obtains l a where "a \<in> set (freelist s l)" "x \<in> blk l a"
  using assms by (auto simp: free_set_def)

lemma free_set_managed: "lists_ok s \<Longrightarrow> free_set s \<subseteq> managed_set s"
  by (auto elim!: free_setE dest!: lists_okD(2) simp: chunk_ok_def)

lemma finite_free_set: "lists_ok s \<Longrightarrow> finite (free_set s)"
  using free_set_managed finite_subset by (fastforce simp: managed_set_def)

lemma head_in_free_set: "a \<in> set (freelist s l) \<Longrightarrow> a \<in> free_set s"
  by (rule free_setI [OF _ blk_head])

lemma freechunk_link_ok:
  assumes inv: "hole_inv s (H \<union> blk l a)" and "H \<inter> blk l a = {}"
    and l: "l < FREELIST_LEVELS" and al: "order2size l dvd a"
  obtains s' where "freechunk_link s a l = Inr s'" "hole_inv s' H" "pg_frame s s'"
    "free_set s' = free_set s \<union> blk l a" "alloc_bitmap s' = alloc_bitmap s"
proof -
  let ?s = "s\<lparr>chunks := (chunks s)(a := \<lparr>level = l, magic = CHUNKMAGIC\<rparr>),
              freelist := (freelist s)(l := a # freelist s l)\<rparr>"
  note I = hole_invD [OF inv] and L = lists_okD [OF hole_invD(2) [OF inv]]
  have new: "\<And>l' a' x. a' \<in> set (freelist s l') \<Longrightarrow> x \<in> blk l' a' \<Longrightarrow> x \<notin> blk l a"
    using I(4) free_setI by fastforce
  have nin: "\<And>l'. a \<notin> set (freelist s l')" using new blk_head by blast
  have free: "free_set ?s = free_set s \<union> blk l a"
    by (auto simp: free_set_def split: if_splits)
  have m: "managed_set ?s = managed_set s" by (simp add: managed_set_def)
  have "lists_ok ?s"
    unfolding lists_ok_def
  proof (intro conjI allI impI)
    fix l' show "distinct (freelist ?s l')" using L(1) nin by simp
  next
    fix l' a' assume "a' \<in> set (freelist ?s l')"
    then show "chunk_ok ?s l' a'"
      using L(2) [of a' l'] nin [of l'] l al I(3)
      by (auto simp: chunk_ok_def m split: if_splits)
  next
    fix l1 a1 l2 a2
    assume "a1 \<in> set (freelist ?s l1)" "a2 \<in> set (freelist ?s l2)" "blk l1 a1 \<inter> blk l2 a2 \<noteq> {}"
    then show "l1 = l2" "a1 = a2"
      using L(3) new by (fastforce split: if_splits)+
  qed
  moreover have "geom ?s" using I(1) by (simp add: geom_def)
  ultimately have "hole_inv ?s H"
    using I(3,4,5) assms(2)
    by (intro hole_invI) (auto simp: free m page_used_def va_to_pg_def)
  with free l show ?thesis
    by (intro that [of ?s]) (auto simp: freechunk_link_def pg_frame_def)
qed

lemma list_remove_ok:
  assumes inv: "hole_inv s H" and a: "a \<in> set (freelist s l)"
  shows "hole_inv (list_remove s a) (H \<union> blk l a)"
    and "free_set (list_remove s a) = free_set s - blk l a"
    and "pg_frame s (list_remove s a)"
    and "\<And>l'. a \<notin> set (freelist (list_remove s a) l')"
proof -
  note I = hole_invD [OF inv] and L = lists_okD [OF hole_invD(2) [OF inv]]
  let ?s = "list_remove s a"
  have lists: "set (freelist ?s l') = set (freelist s l') - {a}" for l'
    using L(1) by (simp add: list_remove_def)
  have only: "a' \<in> set (freelist s l') \<Longrightarrow> x \<in> blk l' a' \<Longrightarrow> x \<in> blk l a \<Longrightarrow> a' = a" for a' l' x
    using L(3) a by blast
  have lvl: "a \<in> set (freelist s l') \<Longrightarrow> l' = l" for l'
    using L(3) [OF a, of a l' a] blk_head by blast
  show free: "free_set ?s = free_set s - blk l a"
    unfolding free_set_def lists using only lvl a by fast
  show nin: "a \<notin> set (freelist ?s l')" for l' by (simp add: lists)
  have m: "managed_set ?s = managed_set s" by (simp add: managed_set_def list_remove_def)
  have b: "blk l a \<subseteq> free_set s" using a free_setI by blast
  have "lists_ok ?s"
    using L unfolding lists_ok_def lists
    by (auto simp: list_remove_def chunk_ok_def managed_set_def)
  moreover have "geom ?s" using I(1) by (simp add: geom_def list_remove_def)
  moreover have "page_used ?s x = page_used s x" for x
    by (simp add: page_used_def va_to_pg_def list_remove_def)
  ultimately show "hole_inv ?s (H \<union> blk l a)"
    using I(3,4,5) b free_set_managed [OF I(2)] by (intro hole_invI) (auto simp: free m)
  show "pg_frame s ?s" by (simp add: pg_frame_def list_remove_def)
qed

lemma clear_magic_frame: "pg_frame s (clear_magic s a)" "free_set (clear_magic s a) = free_set s"
  by (simp_all add: clear_magic_def pg_frame_def free_set_def)

lemma clear_magic_ok:
  assumes "hole_inv s H" "\<And>l. a \<notin> set (freelist s l)"
  shows "hole_inv (clear_magic s a) H"
proof -
  have "chunk_ok s l x \<Longrightarrow> x \<in> set (freelist s l) \<Longrightarrow> chunk_ok (clear_magic s a) l x" for l x
    using assms(2) by (auto simp: chunk_ok_def clear_magic_def managed_set_def)
  then have "lists_ok (clear_magic s a)"
    using hole_invD(2) [OF assms(1)] unfolding lists_ok_def by (simp add: clear_magic_def)
  then show ?thesis
    using assms(1) unfolding hole_inv_def clear_magic_frame(2)
    by (simp add: clear_magic_def geom_def managed_set_def page_used_def va_to_pg_def)
qed

lemma clear_magic_remove: "list_remove (clear_magic s a) b = clear_magic (list_remove s b) a"
  by (simp add: list_remove_def clear_magic_def)

section \<open>Carving\<close>

lemma ctzl_dvd: "0 < n \<Longrightarrow> 2 ^ k dvd n \<longleftrightarrow> k \<le> builtin_ctzl n"
proof (induction n arbitrary: k rule: builtin_ctzl.induct)
  case (1 n)
  show ?case
  proof (cases "odd n")
    case True
    then have "2 ^ k dvd n \<longleftrightarrow> k = 0"
      by (cases k) (auto dest: dvd_mult_left)
    with True show ?thesis by (subst builtin_ctzl.simps) simp
  next
    case False
    then obtain m where m: "n = 2 * m" by blast
    then have "0 < m" using 1(2) by simp
    then have IH: "2 ^ j dvd m \<longleftrightarrow> j \<le> builtin_ctzl m" for j
      using 1(1) False 1(2) m by simp
    have "builtin_ctzl n = Suc (builtin_ctzl m)"
      using False 1(2) m by (subst builtin_ctzl.simps) simp
    then show ?thesis using IH by (cases k) (simp_all add: m)
  qed
qed

lemma top_bit_ge: "n > 0 \<Longrightarrow> 2 ^ k \<le> n \<longleftrightarrow> k \<le> top_bit n"
proof (induction n arbitrary: k rule: top_bit.induct)
  case (1 n)
  show ?case
  proof (cases "n \<le> 1")
    case True
    then have "n = 1" using 1(2) by simp
    moreover have "k = 0" if "2 ^ k \<le> (1::nat)" using less_exp [of k] that by linarith
    ultimately show ?thesis by (subst top_bit.simps) auto
  next
    case False
    then have IH: "2 ^ j \<le> n div 2 \<longleftrightarrow> j \<le> top_bit (n div 2)" for j
      using 1(1) by simp
    have t: "top_bit n = Suc (top_bit (n div 2))"
      using False by (subst top_bit.simps) simp
    show ?thesis
    proof (cases k)
      case 0 with False show ?thesis by simp
    next
      case (Suc j)
      have "2 ^ Suc j \<le> n \<longleftrightarrow> 2 ^ j \<le> n div 2" by auto
      with IH t Suc show ?thesis by simp
    qed
  qed
qed

text \<open>On page-aligned non-empty ranges the order is the largest one that fits both limits.\<close>

lemma carve_order_ok:
  assumes "0 < addr" "0 < rng" "PAGE_SIZE dvd addr" "PAGE_SIZE dvd rng" "rng < 2 ^ 64"
  obtains i where "carve_order addr rng = Inr i" "i < FREELIST_LEVELS"
    "order2size i dvd addr" "order2size i \<le> rng"
    "\<not> order2size (Suc i) dvd addr \<or> rng < order2size (Suc i)"
proof -
  let ?c = "builtin_ctzl addr" and ?t = "top_bit rng"
  have "(2::nat) ^ 12 dvd addr" using assms(3) by simp
  then have c: "12 \<le> ?c" using ctzl_dvd [OF assms(1)] by blast
  have "(2::nat) ^ 12 \<le> rng" using assms(2,4) by (auto dest: dvd_imp_le)
  then have t: "12 \<le> ?t" using top_bit_ge [OF assms(2)] by blast
  have "\<not> 64 \<le> ?t" using top_bit_ge [OF assms(2), of 64] assms(5) by linarith
  then have t63: "64 - (builtin_clzl rng + 1) = ?t" "?t < 64" by (auto simp: builtin_clzl_def)
  define i where "i = min ?c ?t - 12"
  then have i: "i + 12 = min ?c ?t" using c t by simp
  have co: "carve_order addr rng = Inr i"
    unfolding carve_order_def t63(1) Let_def using assms(1) c t by (auto simp: i_def min_def)
  have "order2size i dvd addr"
    unfolding order2size_def i using ctzl_dvd [OF assms(1)] by auto
  moreover have "\<not> order2size (Suc i) dvd addr \<or> rng < order2size (Suc i)"
    using i ctzl_dvd [OF assms(1), of "Suc i + 12"] top_bit_ge [OF assms(2), of "Suc i + 12"]
    unfolding order2size_def by auto
  ultimately show ?thesis
    using t63(2) i by (intro that [OF co]) (auto intro: carve_order_le [OF co assms(2)])
qed

lemma managed_bounds:
  assumes "geom s" "{a..<a + n} \<subseteq> managed_set s" "0 < n"
  shows "minpage_addr s \<le> a" "a + n \<le> maxpage_addr s" "0 < a" "a + n < 2 ^ 64"
proof -
  have "a \<in> managed_set s" "a + n - 1 \<in> managed_set s" using assms(2,3) by auto
  then show "minpage_addr s \<le> a" "a + n \<le> maxpage_addr s" using assms(3)
    by (auto simp: managed_set_def)
  then show "0 < a" "a + n < 2 ^ 64" using assms(1) by (auto simp: geom_def)
qed

lemma carve_step:
  assumes inv: "hole_inv s (H \<union> {addr..<addr + rng})" and H: "H \<inter> {addr..<addr + rng} = {}"
    and d: "PAGE_SIZE dvd addr" "PAGE_SIZE dvd rng" and r: "0 < rng"
  obtains i s1 where "carverange s addr rng = carverange s1 (addr + order2size i) (rng - order2size i)"
    "freechunk_link s addr i = Inr s1" "order2size i \<le> rng" "order2size i dvd addr"
    "hole_inv s1 (H \<union> {addr + order2size i..<addr + order2size i + (rng - order2size i)})"
    "H \<inter> {addr + order2size i..<addr + order2size i + (rng - order2size i)} = {}"
    "PAGE_SIZE dvd addr + order2size i" "PAGE_SIZE dvd rng - order2size i" "pg_frame s s1"
    "free_set s1 = free_set s \<union> blk i addr" "alloc_bitmap s1 = alloc_bitmap s"
    "\<not> order2size (Suc i) dvd addr \<or> rng < order2size (Suc i)"
proof -
  note I = hole_invD [OF inv]
  have b: "0 < addr" "addr + rng < 2 ^ 64" using managed_bounds [OF I(1) _ r, of addr] I(3) by auto
  obtain i where i: "carve_order addr rng = Inr i" "i < FREELIST_LEVELS"
    "order2size i dvd addr" "order2size i \<le> rng"
    "\<not> order2size (Suc i) dvd addr \<or> rng < order2size (Suc i)"
    using carve_order_ok [OF b(1) r d] b(2) by auto
  let ?k = "order2size i"
  let ?R = "{addr + ?k..<addr + ?k + (rng - ?k)}"
  have split: "{addr..<addr + rng} = ?R \<union> blk i addr" "?R \<inter> blk i addr = {}"
    using i(4) by (auto simp: blk_def)
  have h: "hole_inv s ((H \<union> ?R) \<union> blk i addr)" "(H \<union> ?R) \<inter> blk i addr = {}"
    using inv H split by (simp_all add: Un_assoc Int_Un_distrib2 Int_Un_distrib)
  obtain s1 where s1: "freechunk_link s addr i = Inr s1" "hole_inv s1 (H \<union> ?R)" "pg_frame s s1"
    "free_set s1 = free_set s \<union> blk i addr" "alloc_bitmap s1 = alloc_bitmap s"
    using freechunk_link_ok [OF h i(2,3)] .
  have w: "wrap64 (addr + ?k) = addr + ?k" using b(2) i(4) by (simp add: wrap64_def)
  have d': "PAGE_SIZE dvd addr + ?k" "PAGE_SIZE dvd rng - ?k" "H \<inter> ?R = {}"
    using H d order2size_page [of i] split(1) by (auto simp: dvd_add)
  have "carverange s addr rng = carverange s1 (addr + ?k) (rng - ?k)"
    using r i(1) s1(1) w by (subst carverange.simps) simp
  then show ?thesis by (rule that [OF _ s1(1) i(4,3) s1(2) d'(3,1,2) s1(3,4,5) i(5)])
qed

lemma carverange_ok:
  assumes "hole_inv s (H \<union> {addr..<addr + rng})" "H \<inter> {addr..<addr + rng} = {}"
    "PAGE_SIZE dvd addr" "PAGE_SIZE dvd rng"
  shows "\<exists>s'. carverange s addr rng = Inr s' \<and> hole_inv s' H \<and> pg_frame s s' \<and>
    free_set s' = free_set s \<union> {addr..<addr + rng} \<and> alloc_bitmap s' = alloc_bitmap s"
  using assms
proof (induction rng arbitrary: s addr rule: less_induct)
  case (less rng)
  show ?case
  proof (cases "rng = 0")
    case True
    then show ?thesis using less(2) by (subst carverange.simps) simp
  next
    case False
    then have r: "0 < rng" by simp
    obtain i s1 where st: "carverange s addr rng = carverange s1 (addr + order2size i) (rng - order2size i)"
      "freechunk_link s addr i = Inr s1" "order2size i \<le> rng" "order2size i dvd addr"
      "hole_inv s1 (H \<union> {addr + order2size i..<addr + order2size i + (rng - order2size i)})"
      "H \<inter> {addr + order2size i..<addr + order2size i + (rng - order2size i)} = {}"
      "PAGE_SIZE dvd addr + order2size i" "PAGE_SIZE dvd rng - order2size i" "pg_frame s s1"
      "free_set s1 = free_set s \<union> blk i addr" "alloc_bitmap s1 = alloc_bitmap s"
      "\<not> order2size (Suc i) dvd addr \<or> rng < order2size (Suc i)"
      by (rule carve_step [OF less(2-5) r])
    have "{addr..<addr + rng} = blk i addr \<union>
        {addr + order2size i..<addr + order2size i + (rng - order2size i)}"
      using st(3) by (auto simp: blk_def)
    moreover have "rng - order2size i < rng" using r by simp
    ultimately show ?thesis
      using less(1) [OF _ st(5,6,7,8)] pg_frame_trans [OF st(9)] st(1,10,11) by auto
  qed
qed

section \<open>The bitmap and the hole\<close>

lemma managed_iff: "addr_is_managed s x \<longleftrightarrow> x \<in> managed_set s"
  by (simp add: addr_is_managed_def managed_set_def)

lemma va_to_pg_managed:
  assumes "minpage_addr s \<le> x" "x < 2 ^ 64"
  shows "va_to_pg s x = (x - minpage_addr s) div PAGE_SIZE"
proof -
  have "x + (2 ^ 64 - minpage_addr s) = (x - minpage_addr s) + 2 ^ 64" using assms by linarith
  then have "sub64 x (minpage_addr s) = (x - minpage_addr s) mod 2 ^ 64"
    by (simp only: sub64_def mod_add_self2)
  then have "sub64 x (minpage_addr s) = x - minpage_addr s" using assms(2) by simp
  then show ?thesis by (simp add: va_to_pg_def drop_bit_eq_div)
qed

lemma pages_index:
  fixes m x p n :: nat
  assumes "PAGE_SIZE dvd m" "PAGE_SIZE dvd p" "m \<le> p" "m \<le> x"
  shows "(p - m) div PAGE_SIZE \<le> (x - m) div PAGE_SIZE \<and>
      (x - m) div PAGE_SIZE < (p - m) div PAGE_SIZE + n \<longleftrightarrow> x \<in> {p..<p + PAGE_SIZE * n}"
proof -
  obtain q where q: "p - m = q * PAGE_SIZE" using assms(1,2) by (metis dvd_diff_nat dvd_def mult.commute)
  define y where "y = x - m"
  have "q \<le> y div PAGE_SIZE \<longleftrightarrow> q * PAGE_SIZE \<le> y" "y div PAGE_SIZE < q + n \<longleftrightarrow> y < (q + n) * PAGE_SIZE"
    by (simp_all add: less_eq_div_iff_mult_less_eq div_less_iff_less_mult)
  moreover have "p = q * PAGE_SIZE + m" "x = y + m" using q y_def assms by simp_all
  ultimately show ?thesis unfolding q y_def [symmetric] by (auto simp: algebra_simps)
qed

lemma pages_bound:
  fixes m p M n :: nat
  assumes "m \<le> p" "p + PAGE_SIZE * n \<le> M"
  shows "(p - m) div PAGE_SIZE + n \<le> (M - m) div PAGE_SIZE"
proof -
  define q where "q = (p - m) div PAGE_SIZE"
  have "q * PAGE_SIZE \<le> p - m" unfolding q_def by (rule div_times_less_eq_dividend)
  then have "(q + n) * PAGE_SIZE \<le> M - m" using assms by (simp add: add_mult_distrib)
  then have "q + n \<le> (M - m) div PAGE_SIZE" by (subst less_eq_div_iff_mult_less_eq) simp_all
  then show ?thesis unfolding q_def .
qed

lemma page_count_less: "(M::nat) < 2 ^ 64 \<Longrightarrow> (M - m) div PAGE_SIZE < 2 ^ 64"
  by (rule le_less_trans [OF div_le_dividend less_imp_diff_less])

lemma pages_in_map_managed:
  assumes g: "geom s" and a: "PAGE_SIZE dvd p" "{p..<p + PAGE_SIZE * n} \<subseteq> managed_set s" "0 < n"
  shows "pages_in_map s p n"
    and "x \<in> managed_set s \<Longrightarrow> va_to_pg s p \<le> va_to_pg s x \<and> va_to_pg s x < va_to_pg s p + n \<longleftrightarrow>
           x \<in> {p..<p + PAGE_SIZE * n}"
proof -
  let ?m = "minpage_addr s" and ?M = "maxpage_addr s"
  have "0 < PAGE_SIZE * n" using a(3) by simp
  note b = managed_bounds [OF g a(2) this]
  have p: "va_to_pg s p = (p - ?m) div PAGE_SIZE"
    using b(4) by (intro va_to_pg_managed b) (rule add_lessD1)
  note le = pages_bound [OF b(1,2)]
  have "((p - ?m) div PAGE_SIZE + n) div 64 < length (alloc_bitmap s)"
    using g div_le_mono [OF le] unfolding geom_def by (blast intro: le_less_trans)
  moreover have "(p - ?m) div PAGE_SIZE + n < 2 ^ 64"
    using g le page_count_less unfolding geom_def by (blast intro: le_less_trans)
  ultimately show "pages_in_map s p n"
    unfolding pages_in_map_def p by (rule conjI [rotated])
  assume x: "x \<in> managed_set s"
  then have "?m \<le> x" "x < ?M" by (simp_all add: managed_set_def)
  moreover from this have "x < 2 ^ 64" using g unfolding geom_def by (blast intro: less_trans)
  ultimately show "va_to_pg s p \<le> va_to_pg s x \<and> va_to_pg s x < va_to_pg s p + n \<longleftrightarrow>
      x \<in> {p..<p + PAGE_SIZE * n}"
    unfolding p va_to_pg_managed [OF \<open>?m \<le> x\<close> \<open>x < 2 ^ 64\<close>]
    using g unfolding geom_def by (intro pages_index a b) blast+
qed

lemma bitmap_change:
  assumes "length bm = length (alloc_bitmap s)"
  shows "geom (s\<lparr>alloc_bitmap := bm\<rparr>) = geom s" "lists_ok (s\<lparr>alloc_bitmap := bm\<rparr>) = lists_ok s"
    "free_set (s\<lparr>alloc_bitmap := bm\<rparr>) = free_set s"
    "managed_set (s\<lparr>alloc_bitmap := bm\<rparr>) = managed_set s" "pg_frame s (s\<lparr>alloc_bitmap := bm\<rparr>)"
    "page_used (s\<lparr>alloc_bitmap := bm\<rparr>) x = bm_bit bm (va_to_pg s x)"
  using assms
  by (simp_all add: geom_def lists_ok_def chunk_ok_def free_set_def managed_set_def pg_frame_def
      page_used_def va_to_pg_def)

lemma map_alloc_hole:
  assumes inv: "hole_inv s (H \<union> R)" and "H \<inter> R = {}" and R: "R = {p..<p + PAGE_SIZE * n}"
    and p: "PAGE_SIZE dvd p" "0 < n"
  obtains s' where "map_alloc s p n = Inr s'" "hole_inv s' H" "pg_frame s s'" "free_set s' = free_set s"
    "freelist s' = freelist s"
proof -
  note I = hole_invD [OF inv]
  have RM: "{p..<p + PAGE_SIZE * n} \<subseteq> managed_set s" using I(3) R by blast
  note P = pages_in_map_managed [OF I(1) p(1) RM p(2)]
  obtain bm where bm: "map_alloc s p n = Inr (s\<lparr>alloc_bitmap := bm\<rparr>)"
    "length bm = length (alloc_bitmap s)"
    "\<And>q. bm_bit bm q \<longleftrightarrow> (va_to_pg s p \<le> q \<and> q < va_to_pg s p + n) \<or> bm_bit (alloc_bitmap s) q"
    using map_alloc_ok [OF P(1)] by blast
  note B = bitmap_change [OF bm(2)]
  have "page_used (s\<lparr>alloc_bitmap := bm\<rparr>) x \<longleftrightarrow> x \<in> R \<or> page_used s x" if "x \<in> managed_set s" for x
    by (simp only: B(6) bm(3) P(2) [OF that] R) (simp only: page_used_def)
  then have h: "hole_inv (s\<lparr>alloc_bitmap := bm\<rparr>) H"
    using I assms(2) by (intro hole_invI) (auto simp: B)
  show ?thesis by (rule that [OF bm(1) h B(5) B(3)]) simp
qed

lemma map_free_hole:
  assumes inv: "hole_inv s H" and "R \<inter> (H \<union> free_set s) = {}" and RM: "R \<subseteq> managed_set s"
    and R: "R = {p..<p + PAGE_SIZE * n}" and p: "PAGE_SIZE dvd p" "0 < n"
  obtains s' where "map_free s p n = Inr s'" "hole_inv s' (H \<union> R)" "pg_frame s s'"
    "free_set s' = free_set s" "freelist s' = freelist s"
proof -
  note I = hole_invD [OF inv]
  note P = pages_in_map_managed [OF I(1) p(1) RM [unfolded R] p(2)]
  obtain bm where bm: "map_free s p n = Inr (s\<lparr>alloc_bitmap := bm\<rparr>)"
    "length bm = length (alloc_bitmap s)"
    "\<And>q. bm_bit bm q \<longleftrightarrow> \<not> (va_to_pg s p \<le> q \<and> q < va_to_pg s p + n) \<and> bm_bit (alloc_bitmap s) q"
    using map_free_ok [OF P(1)] by blast
  note B = bitmap_change [OF bm(2)]
  have "page_used (s\<lparr>alloc_bitmap := bm\<rparr>) x \<longleftrightarrow> x \<notin> R \<and> page_used s x" if "x \<in> managed_set s" for x
    by (simp only: B(6) bm(3) P(2) [OF that] R) (simp only: page_used_def)
  then have h: "hole_inv (s\<lparr>alloc_bitmap := bm\<rparr>) (H \<union> R)"
    using I assms(2) RM by (intro hole_invI) (auto simp: B)
  show ?thesis by (rule that [OF bm(1) h B(5) B(3)]) simp
qed

lemma allocated_in_map_ok:
  assumes "geom s" "x \<in> managed_set s"
  shows "allocated_in_map s x = Inr (page_used s x)"
proof -
  let ?m = "minpage_addr s" and ?M = "maxpage_addr s"
  have b: "?m \<le> x" "x < ?M" "x < 2 ^ 64" using assms by (auto simp: managed_set_def geom_def)
  have "va_to_pg s x = (x - ?m) div PAGE_SIZE" by (rule va_to_pg_managed [OF b(1,3)])
  also have "\<dots> \<le> (?M - ?m) div PAGE_SIZE" using b(2) by (intro div_le_mono) linarith
  finally have "va_to_pg s x div 64 \<le> (?M - ?m) div PAGE_SIZE div 64" by (rule div_le_mono)
  then have "va_to_pg s x div 64 < length (alloc_bitmap s)"
    using assms(1) unfolding geom_def by (blast intro: le_less_trans)
  moreover have "va_to_pg s x mod 64 < 64" by simp
  note j = and_push_bit_iff [OF this]
  ultimately show ?thesis
    using assms(2) unfolding page_used_def allocated_in_map_def Let_def managed_iff and_63_mod j
    by (simp add: bm_bit_def)
qed

section \<open>Loading memory\<close>

lemma sub64_diff: "b \<le> a \<Longrightarrow> a < 2 ^ 64 \<Longrightarrow> sub64 a b = a - b"
proof -
  assume "b \<le> a" "a < 2 ^ 64"
  then have "a + (2 ^ 64 - b) = (a - b) + 2 ^ 64" by linarith
  then have "sub64 a b = (a - b) mod 2 ^ 64" by (simp only: sub64_def mod_add_self2)
  with \<open>a < 2 ^ 64\<close> show ?thesis by simp
qed

text \<open>
  The memory that \<open>bmk_pgalloc_loadmem\<close> is given, rounded to pages, and the part of it that
  holds the bitmap.
\<close>

definition page_up :: "nat \<Rightarrow> nat" where
  "page_up x = (x + (PAGE_SIZE - 1)) div PAGE_SIZE * PAGE_SIZE"

definition bitmap_bytes :: "nat \<Rightarrow> nat \<Rightarrow> nat" where
  "bitmap_bytes lo hi = page_up ((hi - lo) div 2 ^ 15 + 1)"

lemma page_up_ge: "x \<le> page_up x"
  using div_mod_decomp [of "x + (PAGE_SIZE - 1)" PAGE_SIZE]
    mod_less_divisor [of PAGE_SIZE "x + (PAGE_SIZE - 1)"]
  unfolding page_up_def by linarith

lemma page_up_dvd: "PAGE_SIZE dvd page_up x"
  by (simp add: page_up_def)

lemma round_page_eq: "x + (PAGE_SIZE - 1) < 2 ^ 64 \<Longrightarrow> bmk_round_page x = page_up x"
  by (simp add: bmk_round_page_def page_up_def wrap64_def)

lemma bitmap_words:
  "(hi - (lo + bitmap_bytes lo hi)) div PAGE_SIZE div 64 < bitmap_bytes lo hi div 8"
proof -
  let ?b = "bitmap_bytes lo hi"
  obtain c where c: "?b = 8 * c"
    using dvd_trans [OF _ page_up_dvd, of 8] unfolding bitmap_bytes_def by fastforce
  have "(hi - lo) div 2 ^ 15 + 1 \<le> 8 * c" unfolding c [symmetric] bitmap_bytes_def by (rule page_up_ge)
  then have "(hi - lo) div 2 ^ 15 < 8 * c" by simp
  then have "(hi - lo) div 2 ^ 15 div 8 < c" by (subst div_less_iff_less_mult) (simp_all add: mult.commute)
  moreover have "(hi - lo) div 2 ^ 15 div 8 = (hi - lo) div PAGE_SIZE div 64"
    by (simp only: div_mult2_eq [symmetric]) simp
  moreover have "(hi - (lo + ?b)) div PAGE_SIZE div 64 \<le> (hi - lo) div PAGE_SIZE div 64"
    by (intro div_le_mono) simp
  ultimately show ?thesis unfolding c by (simp del: div_mult2_eq)
qed

end
