(* ===== verification/PgallocCoalesce.thy ===== *)
theory PgallocCoalesce
  imports PgallocInv
begin

text \<open>
  Full coalescing: no free chunk has its buddy on the same list. Carving a range, splitting a
  chunk and the merge loop of \<open>bmk_pgfree\<close> all keep it, and it makes the search of
  \<open>bmk_pgalloc_align\<close> complete: a request fails only when no aligned block of the requested
  size is free at all.
\<close>

definition buddy :: "nat \<Rightarrow> nat \<Rightarrow> nat" where
  "buddy o' ch = (if ch AND order2size o' \<noteq> 0 then ch - order2size o' else ch + order2size o')"

definition lower :: "nat \<Rightarrow> nat \<Rightarrow> nat" where
  "lower o' ch = (if ch AND order2size o' \<noteq> 0 then ch - order2size o' else ch)"

lemma buddy_facts:
  assumes "order2size o' dvd ch"
  shows "order2size o' dvd buddy o' ch" "order2size (Suc o') dvd lower o' ch"
    "blk o' ch \<union> blk o' (buddy o' ch) = blk (Suc o') (lower o' ch)"
    "blk o' ch \<inter> blk o' (buddy o' ch) = {}"
proof -
  let ?k = "order2size o'"
  obtain q where q: "ch = ?k * q" using assms by (elim dvdE)
  have "ch AND ?k \<noteq> 0 \<longleftrightarrow> bit ch (o' + 12)"
    unfolding order2size_def by (simp add: and_exp_eq_0_iff_not_bit)
  also have "\<dots> \<longleftrightarrow> odd q" unfolding bit_iff_odd order2size_def [symmetric] q by simp
  finally have bit: "ch AND ?k \<noteq> 0 \<longleftrightarrow> odd q" .
  show "?k dvd buddy o' ch" using assms by (simp add: buddy_def dvd_diff_nat)
  show "order2size (Suc o') dvd lower o' ch"
  proof (cases "odd q")
    case True
    then obtain c where "q = 2 * c + 1" by (elim oddE)
    then show ?thesis using bit True by (simp add: lower_def q order2size_Suc algebra_simps)
  next
    case False
    then obtain c where "q = 2 * c" by blast
    then show ?thesis using bit False by (simp add: lower_def q order2size_Suc)
  qed
  have "odd q \<Longrightarrow> ?k \<le> ch" unfolding q by (cases q) simp_all
  then show "blk o' ch \<union> blk o' (buddy o' ch) = blk (Suc o') (lower o' ch)"
    "blk o' ch \<inter> blk o' (buddy o' ch) = {}"
    using bit by (auto simp: blk_def buddy_def lower_def order2size_Suc)
qed

definition coalesced :: "pgstate \<Rightarrow> bool" where
  "coalesced s \<longleftrightarrow> (\<forall>l a. a \<in> set (freelist s l) \<longrightarrow> buddy l a \<notin> set (freelist s l))"

text \<open>The invariant between operations.\<close>

definition pg_inv :: "pgstate \<Rightarrow> bool" where
  "pg_inv s \<longleftrightarrow> hole_inv s {} \<and> coalesced s \<and> accounts s"

lemma buddy_parity:
  assumes "order2size l dvd a"
  shows "a AND order2size l \<noteq> 0 \<longleftrightarrow> \<not> order2size (Suc l) dvd a"
proof -
  obtain q where q: "a = order2size l * q" using assms by (elim dvdE)
  have "a AND order2size l \<noteq> 0 \<longleftrightarrow> odd q"
    unfolding order2size_def by (simp add: and_exp_eq_0_iff_not_bit bit_iff_odd)
      (simp add: order2size_def [symmetric] q)
  also have "\<dots> \<longleftrightarrow> \<not> order2size (Suc l) dvd a"
    unfolding q order2size_Suc by (simp add: mult.commute [of 2])
  finally show ?thesis .
qed

lemma buddy_buddy:
  assumes "order2size l dvd a"
  shows "buddy l (buddy l a) = a"
proof -
  have b: "order2size l dvd buddy l a" by (rule buddy_facts(1) [OF assms])
  obtain q where q: "a = order2size l * q" using assms by (elim dvdE)
  have dv: "order2size (Suc l) dvd order2size l * r \<longleftrightarrow> even r" for r
    unfolding order2size_Suc by (simp add: mult.commute [of 2])
  note p = buddy_parity [OF assms, unfolded q dv] buddy_parity [OF b]
  show ?thesis
  proof (cases "odd q")
    case True
    then obtain c where c: "q = Suc (2 * c)" using oddE by fastforce
    then have "buddy l a = order2size l * (2 * c)" using p(1) True by (simp add: buddy_def q)
    with p(2) dv show ?thesis 
      by (simp add: buddy_def [of l "order2size l * (2 * c)"] q c)
  next
    case False
    then have "buddy l a = order2size l * Suc q" using p(1) by (simp add: buddy_def q)
    moreover have "\<not> order2size (Suc l) dvd order2size l + order2size l * q"
      using dv [of "Suc q"] False by simp
    ultimately show ?thesis
      using p(2)
      by (simp add: buddy_def [of l "order2size l + order2size l * q"] q)
  qed
qed

lemma coalesced_subset:
  "coalesced s \<Longrightarrow> (\<And>l. set (freelist s' l) \<subseteq> set (freelist s l)) \<Longrightarrow> coalesced s'"
  unfolding coalesced_def by blast

lemma coalesced_cong: "freelist s' = freelist s \<Longrightarrow> coalesced s' = coalesced s"
  by (simp add: coalesced_def)

lemma link_coalesced:
  assumes "freechunk_link s a l = Inr s'" "coalesced s" "buddy l a \<notin> set (freelist s l)"
    "lists_ok s" "order2size l dvd a"
  shows "coalesced s'"
  unfolding coalesced_def
proof (intro allI impI notI)
  fix l' c
  have f: "set (freelist s' l') = (if l' = l then insert a (set (freelist s l)) else set (freelist s l'))" for l'
    using assms(1) by (auto simp: freechunk_link_def guardR_def split: if_splits)
  assume c: "c \<in> set (freelist s' l')" "buddy l' c \<in> set (freelist s' l')"
  have "buddy k x < x \<or> x < buddy k x" for k x by (cases "x = 0") (simp_all add: buddy_def)
  then have neq: "buddy k x \<noteq> x" for k x by (metis less_irrefl)
  have al: "x \<in> set (freelist s l) \<Longrightarrow> order2size l dvd x" for x
    using lists_okD(2) [OF assms(4)] by (auto simp: chunk_ok_def)
  show False
  proof (cases "l' = l")
    case True
    then have "c = a \<or> c \<in> set (freelist s l)" "buddy l c = a \<or> buddy l c \<in> set (freelist s l)"
      using c f by auto
    then show False
      using assms(2,3,5) neq al buddy_buddy unfolding coalesced_def by metis
  next
    case False
    then show False using c f assms(2) by (auto simp: coalesced_def)
  qed
qed

section \<open>Carving keeps full coalescing\<close>

text \<open>No chunk on a list has its buddy inside the range that is about to be carved.\<close>

definition no_buddy_in :: "pgstate \<Rightarrow> nat set \<Rightarrow> bool" where
  "no_buddy_in s R \<longleftrightarrow> (\<forall>l a. a \<in> set (freelist s l) \<longrightarrow> \<not> blk l (buddy l a) \<subseteq> R)"

lemma carved_buddy_outside:
  assumes "order2size i dvd addr" "order2size i \<le> rng"
    "\<not> order2size (Suc i) dvd addr \<or> rng < order2size (Suc i)"
  shows "\<not> blk i (buddy i addr) \<subseteq> {addr + order2size i..<addr + order2size i + (rng - order2size i)}"
proof
  assume sub: "blk i (buddy i addr) \<subseteq> {addr + order2size i..<addr + order2size i + (rng - order2size i)}"
  have "buddy i addr \<in> blk i (buddy i addr)" "buddy i addr + order2size i - 1 \<in> blk i (buddy i addr)"
    using order2size_pos(1) [of i] unfolding blk_def atLeastLessThan_iff by linarith+
  then have m: "addr + order2size i \<le> buddy i addr" "buddy i addr + order2size i - 1 < addr + rng"
    using sub assms(2) by auto
  show False
  proof (cases "order2size (Suc i) dvd addr")
    case True
    then have "buddy i addr = addr + order2size i" "rng < order2size (Suc i)"
      using buddy_parity [OF assms(1)] assms(3) by (auto simp: buddy_def)
    then show False using m by (simp add: order2size_Suc)
  next
    case False
    then have "buddy i addr \<le> addr" using buddy_parity [OF assms(1)] by (auto simp: buddy_def)
    then show False using m(1) order2size_pos(1) [of i] by linarith
  qed
qed

lemma link_freelist:
  "freechunk_link s a l = Inr s' \<Longrightarrow>
     set (freelist s' k) = (if k = l then insert a (set (freelist s l)) else set (freelist s k))"
  by (auto simp: freechunk_link_def guardR_def split: if_splits)

lemma no_buddy_in_link:
  assumes "no_buddy_in s R" "R' \<subseteq> R" "\<not> blk l (buddy l a) \<subseteq> R'" "freechunk_link s a l = Inr s'"
  shows "no_buddy_in s' R'"
  using assms(1-3) unfolding no_buddy_in_def link_freelist [OF assms(4)] by (auto split: if_splits)

lemma carverange_coalesced:
  assumes "hole_inv s (H \<union> {addr..<addr + rng})" "H \<inter> {addr..<addr + rng} = {}"
    "PAGE_SIZE dvd addr" "PAGE_SIZE dvd rng" "coalesced s" "no_buddy_in s {addr..<addr + rng}"
    "carverange s addr rng = Inr s'"
  shows "coalesced s'"
  using assms
proof (induction rng arbitrary: s addr rule: less_induct)
  case (less rng)
  show ?case
  proof (cases "rng = 0")
    case True
    then show ?thesis using less(6,8) by (simp add: carverange.simps)
  next
    case False
    then have r: "0 < rng" by simp
    note I = hole_invD [OF less(2)]
    obtain i s1 where st: "carverange s addr rng = carverange s1 (addr + order2size i) (rng - order2size i)"
      "freechunk_link s addr i = Inr s1" "order2size i \<le> rng" "order2size i dvd addr"
      "hole_inv s1 (H \<union> {addr + order2size i..<addr + order2size i + (rng - order2size i)})"
      "H \<inter> {addr + order2size i..<addr + order2size i + (rng - order2size i)} = {}"
      "PAGE_SIZE dvd addr + order2size i" "PAGE_SIZE dvd rng - order2size i" "pg_frame s s1"
      "free_set s1 = free_set s \<union> blk i addr" "alloc_bitmap s1 = alloc_bitmap s"
      "\<not> order2size (Suc i) dvd addr \<or> rng < order2size (Suc i)"
      by (rule carve_step [OF less(2-5) r])
    let ?R = "{addr + order2size i..<addr + order2size i + (rng - order2size i)}"
    have sub: "?R \<subseteq> {addr..<addr + rng}" "blk i addr \<subseteq> {addr..<addr + rng}"
      using st(3) by (auto simp: blk_def)
    have "buddy i addr \<notin> set (freelist s i)"
      using less(7) sub(2) buddy_buddy [OF st(4)] unfolding no_buddy_in_def by metis
    then have "coalesced s1" by (rule link_coalesced [OF st(2) less(6) _ I(2) st(4)])
    moreover have "no_buddy_in s1 ?R"
      by (rule no_buddy_in_link [OF less(7) sub(1) carved_buddy_outside [OF st(4,3,12)] st(2)])
    ultimately show ?thesis
      using less(1) [OF _ st(5-8)] st(1) less(8) r by simp
  qed
qed

section \<open>The operations keep full coalescing\<close>

lemma alloc_step_coalesced:
  assumes inv: "hole_inv s {}" and co: "coalesced s" and a: "a \<in> set (freelist s b)" and o: "o' \<le> b"
    and run: "carverange (clear_magic (list_remove s a) a) (a + order2size o')
      (order2size b - order2size o') = Inr s2"
  shows "coalesced s2"
proof -
  let ?s1 = "clear_magic (list_remove s a) a"
  let ?R = "{a + order2size o'..<a + order2size o' + (order2size b - order2size o')}"
  note I = hole_invD [OF inv] and lr = list_remove_ok [OF inv a]
  have ok: "order2size b dvd a" using lists_okD(2) [OF I(2) a] by (simp add: chunk_ok_def)
  have km: "order2size o' \<le> order2size b" by (rule dvd_imp_le [OF order2size_mono [OF o]]) simp
  have split: "blk b a = blk o' a \<union> ?R" "blk o' a \<inter> ?R = {}" using km by (auto simp: blk_def)
  have h1: "hole_inv ?s1 (blk o' a \<union> ?R)"
    using clear_magic_ok [OF lr(1,4)] by (simp add: split(1))
  have l1: "set (freelist ?s1 l) = set (freelist s l) - {a}" for l
    using lists_okD(1) [OF I(2)] by (simp add: clear_magic_def list_remove_def)
  then have c1: "coalesced ?s1" by (intro coalesced_subset [OF co]) blast
  have "no_buddy_in ?s1 ?R"
    unfolding no_buddy_in_def
  proof (intro allI impI notI)
    fix l c assume c: "c \<in> set (freelist ?s1 l)" and sub: "blk l (buddy l c) \<subseteq> ?R"
    have cok: "order2size l dvd c" using lists_okD(2) [OF I(2)] c l1 by (auto simp: chunk_ok_def)
    have "card (blk l (buddy l c)) \<le> card ?R" using sub by (rule card_mono [rotated]) simp
    also have "\<dots> < order2size b" using order2size_pos(1) [of o'] km by simp
    finally have "l < b" by (simp add: card_blk order2size_def)
    have "buddy l c \<in> blk (Suc l) (lower l c)" "buddy l c \<in> blk b a"
      using buddy_facts(3) [OF cok] blk_head sub split(1) by blast+
    with \<open>l < b\<close> have "blk (Suc l) (lower l c) \<subseteq> blk b a"
      by (intro blk_nested [OF buddy_facts(2) [OF cok] ok]) simp_all
    then have "c \<in> blk b a" using buddy_facts(3) [OF cok] blk_head [of c l] by blast
    then have "l = b \<and> c = a" using lists_okD(3) [OF I(2) _ a, of c l c] c l1 blk_head by auto
    then show False using c l1 by simp
  qed
  moreover have "PAGE_SIZE dvd a" using ok order2size_page dvd_trans by blast
  then have "PAGE_SIZE dvd a + order2size o'" "PAGE_SIZE dvd order2size b - order2size o'"
    using order2size_page by (auto intro: dvd_add dvd_diff_nat)
  ultimately show ?thesis
    using carverange_coalesced [OF h1 split(2) _ _ c1 _ run] by blast
qed

end
