(* ===== verification/PgallocCorrect.thy ===== *)
theory PgallocCorrect
  imports PgallocCoalesce
begin

text \<open>
  Correctness of the page allocator: loading memory establishes the invariant, allocation
  takes an aligned block out of the free memory, freeing puts it back, and none of the
  assertions, array accesses or list operations on the way can fail.
\<close>

section \<open>Loading memory\<close>

text \<open>The state that the code has set up when it starts clearing bits: every page is allocated.\<close>

lemma all_allocated_inv:
  assumes "minpage_addr s = lo" "maxpage_addr s = hi" "freelist s = (\<lambda>_. [])"
    "alloc_bitmap s = replicate w (NOT 0)"
    and "PAGE_SIZE dvd lo" "PAGE_SIZE dvd hi" "0 < lo" "lo \<le> hi" "hi < 2 ^ 64"
    "(hi - lo) div PAGE_SIZE div 64 < w"
  shows "hole_inv s {}" "free_set s = {}"
proof -
  have g: "geom s" using assms by (simp only: geom_def length_replicate simp_thms)
  show f: "free_set s = {}" by (simp add: free_set_def assms)
  have "page_used s x" if "x \<in> managed_set s" for x
  proof -
    have x: "lo \<le> x" "x < hi" "x < 2 ^ 64" using that assms(1,2,9) by (simp_all add: managed_set_def)
    then have "va_to_pg s x div 64 \<le> (hi - lo) div PAGE_SIZE div 64"
      using assms(1) by (subst va_to_pg_managed) (simp_all del: div_mult2_eq add: div_le_mono)
    then have "va_to_pg s x div 64 < w" using assms(10) by (rule le_less_trans)
    then show ?thesis
      by (simp add: page_used_def bm_bit_def assms(4) bit_not_iff)
  qed
  then show "hole_inv s {}"
    using g by (intro hole_invI) (simp_all add: f lists_ok_def assms(3))
qed

lemma accounts_all_free:
  assumes "geom s" "pgalloc_totalkb s = (maxpage_addr s - minpage_addr s) div 1024"
    "pgalloc_usedkb s = 0" "free_set s = managed_set s"
  shows "accounts s"
proof -
  have "1024 dvd maxpage_addr s - minpage_addr s"
    using assms(1) by (auto simp: geom_def intro!: dvd_diff_nat intro: dvd_trans [of 1024 PAGE_SIZE])
  with assms show ?thesis by (simp add: accounts_def managed_set_def)
qed

lemma loadmem_ok:
  fixes min0 max0 :: nat
  defines "lo \<equiv> page_up min0" and "hi \<equiv> bmk_trunc_page max0"
  defines "base \<equiv> lo + bitmap_bytes lo hi"
  assumes "\<not> pg_called s" "max0 < 2 ^ 64" "base < hi"
  obtains s' where "bmk_pgalloc_loadmem s min0 max0 = Inr s'" "pg_inv s'" "minpage_addr s' = base"
    "maxpage_addr s' = hi" "free_set s' = {base..<hi}" "pgalloc_usedkb s' = 0"
proof -
  have hi: "hi \<le> max0" "PAGE_SIZE dvd hi" "hi < 2 ^ 64"
    using div_times_less_eq_dividend [of max0 PAGE_SIZE] assms(5)
    by (simp_all only: hi_def bmk_trunc_page_def dvd_triv_right le_less_trans)
  have lo: "PAGE_SIZE dvd lo" "min0 \<le> lo" "lo \<le> base" by (simp_all add: lo_def page_up_dvd page_up_ge base_def)
  have b: "PAGE_SIZE dvd base" "0 < base" "bitmap_bytes lo hi \<le> base" "0 < bitmap_bytes lo hi"
    using lo(1) page_up_dvd page_up_ge [of "(hi - lo) div 2 ^ 15 + 1"]
    by (auto simp: base_def bitmap_bytes_def simp del: add_Suc_right)
  have "hi + PAGE_SIZE \<le> 2 ^ 64"
    using hi(2,3) by (auto elim!: dvdE)
  then have r: "x + (PAGE_SIZE - 1) < 2 ^ 64" if "x \<le> hi" for x using that by linarith
  have e: "bmk_round_page min0 = lo" "bmk_trunc_page max0 = hi" "sub64 hi lo = hi - lo"
    "wrap64 base = base" "sub64 hi base = hi - base"
    using lo b hi assms(6) r unfolding lo_def
    by (auto intro!: round_page_eq sub64_diff simp: hi_def wrap64_def)
  have "(hi - lo) div 2 ^ 15 + 1 \<le> hi"
    using page_up_ge [of "(hi - lo) div 2 ^ 15 + 1"] b(3) assms(6) unfolding bitmap_bytes_def by linarith
  then have bb: "bmk_round_page (drop_bit 15 (hi - lo) + 1) = bitmap_bytes lo hi"
    unfolding bitmap_bytes_def drop_bit_eq_div by (intro round_page_eq r)
  define n where "n = (hi - base) div PAGE_SIZE"
  have n: "hi - base = PAGE_SIZE * n" using hi(2) b(1) by (simp add: n_def dvd_diff_nat)
  define s0 where "s0 = s\<lparr>pg_called := True, freelist := (\<lambda>_. []), minpage_addr := base,
    maxpage_addr := hi, pgalloc_totalkb := (hi - base) div 1024, pgalloc_usedkb := 0,
    alloc_bitmap := replicate (bitmap_bytes lo hi div 8) (NOT 0)\<rparr>"
  have load: "bmk_pgalloc_loadmem s min0 max0 =
      bindR (map_free s0 base n) (\<lambda>s. carverange s base (hi - base))"
    using lo(2,3) assms(4,6) hi(1)
    unfolding bmk_pgalloc_loadmem_def Let_def e bb base_def [symmetric]
    by (simp add: s0_def n_def drop_bit_eq_div)
  have i0: "hole_inv s0 {}" "free_set s0 = {}"
    by (rule all_allocated_inv [of s0 base hi "bitmap_bytes lo hi div 8"];
        use b hi bitmap_words [of hi lo] assms(6) in \<open>simp add: s0_def base_def [symmetric]\<close>)+
  have R: "{base..<base + (hi - base)} = {base..<hi}" using assms(6) by simp
  obtain s1 where s1: "map_free s0 base n = Inr s1" "hole_inv s1 ({} \<union> {base..<base + (hi - base)})"
    "pg_frame s0 s1" "free_set s1 = {}" "freelist s1 = freelist s0"
  proof (rule map_free_hole [OF i0(1), of "{base..<base + (hi - base)}" base n])
    show "{base..<base + (hi - base)} \<subseteq> managed_set s0"
      using assms(6) by (simp add: managed_set_def s0_def)
    show "{base..<base + (hi - base)} = {base..<base + PAGE_SIZE * n}" by (simp only: n)
    show "0 < n" using n assms(6) by (cases n) simp_all
  qed (use i0(2) b(1) in simp_all)
  obtain s2 where s2: "carverange s1 base (hi - base) = Inr s2" "hole_inv s2 {}" "pg_frame s1 s2"
    "free_set s2 = {base..<hi}"
    using carverange_ok [OF s1(2) _ b(1)] hi(2) b(1) s1(4) unfolding R by (auto simp: dvd_diff_nat)
  have f: "minpage_addr s2 = base" "maxpage_addr s2 = hi" "pgalloc_usedkb s2 = 0"
    "pgalloc_totalkb s2 = (hi - base) div 1024"
    using s1(3) s2(3) by (simp_all add: pg_frame_def s0_def)
  then have "accounts s2"
    using hole_invD(1) [OF s2(2)] s2(4) by (intro accounts_all_free) (simp_all add: managed_set_def)
  moreover have "coalesced s2"
    using s1(5) hi(2) b(1)
    by (intro carverange_coalesced [OF s1(2) _ b(1) _ _ _ s2(1)])
      (simp_all add: coalesced_def no_buddy_in_def s0_def dvd_diff_nat)
  ultimately show ?thesis using s1(1) s2 f load by (intro that [of s2]) (simp_all add: pg_inv_def)
qed

section \<open>Allocation\<close>

lemma pow2_of_and:
  fixes n :: nat
  assumes "0 < n" "n AND (n - 1) = 0"
  shows "\<exists>k. n = 2 ^ k"
  using assms
proof (induction n rule: less_induct)
  case (less n)
  show ?case
  proof (cases "even n")
    case True
    then obtain m where m: "n = 2 * m" "0 < m" using less(2) by auto
    have "(2 * m) AND (2 * (m - 1) + 1) = 2 * (m AND (m - 1))"
      by (simp add: and_nat_unfold [of "2 * m"])
    moreover have "2 * m - 1 = 2 * (m - 1) + 1" using m(2) by simp
    ultimately have "m AND (m - 1) = 0" using less(3) m by simp
    then obtain k where "m = 2 ^ k" using less(1) [of m] m by auto
    then show ?thesis using m by (intro exI [of _ "Suc k"]) simp
  next
    case False
    then obtain m where m: "n = 2 * m + 1" by (elim oddE)
    have "(2 * m + 1) AND (2 * m) = 2 * m"
      by (simp add: and_nat_unfold [of "Suc (2 * m)"])
    then have "n = 1" using less(3) m by simp
    then show ?thesis by (intro exI [of _ 0]) simp
  qed
qed

lemma aligned_iff:
  fixes p :: nat
  assumes "0 < align" "align AND (align - 1) = 0"
  shows "p AND (align - 1) = 0 \<longleftrightarrow> align dvd p"
proof -
  obtain k where k: "align = 2 ^ k" using pow2_of_and [OF assms] by blast
  have "p AND (2 ^ k - 1) = p mod 2 ^ k"
    by (simp add: take_bit_eq_mod [symmetric] take_bit_eq_mask mask_eq_exp_minus_1)
  then show ?thesis by (simp add: k dvd_eq_mod_eq_0)
qed

lemma find_bucket_Some:
  "find_bucket s bs align = Some (b, ch) \<Longrightarrow>
     b \<in> set bs \<and> ch \<in> set (freelist s b) \<and> ch AND (align - 1) = 0"
  by (induction bs)
    (auto simp: satisfies_p_def find_Some_iff split: option.splits)

lemma find_bucket_None:
  "find_bucket s bs align = None \<longleftrightarrow>
     (\<forall>b \<in> set bs. \<forall>ch \<in> set (freelist s b). ch AND (align - 1) \<noteq> 0)"
  by (induction bs) (auto simp: satisfies_p_def find_None_iff find_Some_iff split: option.splits)

lemma drop_bit_10: "drop_bit 10 (order2size o') * 1024 = order2size o'"
  by (simp add: order2size_def drop_bit_eq_div power_add)

lemma card_managed: "card (managed_set s) = maxpage_addr s - minpage_addr s"
  by (simp add: managed_set_def)

text \<open>The books after a block leaves the free memory, and after it comes back.\<close>

lemma accounts_alloc:
  assumes "accounts s" "pg_frame s s'" "free_set s' = free_set s - blk l a" "blk l a \<subseteq> free_set s"
    "maxpage_addr s < 2 ^ 64" "lists_ok s"
  shows "accounts (s'\<lparr>pgalloc_usedkb := wrap64 (pgalloc_usedkb s' + drop_bit 10 (order2size l))\<rparr>)"
proof -
  let ?k = "drop_bit 10 (order2size l)"
  have fin: "finite (free_set s)" using assms(6) by (rule finite_free_set)
  have c: "card (free_set s') + ?k * 1024 = card (free_set s)"
    using card_Diff_subset [OF finite_blk assms(4)] card_mono [OF fin assms(4)]
    by (simp add: assms(3) card_blk drop_bit_10)
  with assms(1) have eq: "(pgalloc_usedkb s + ?k) * 1024 + card (free_set s') = pgalloc_totalkb s * 1024"
    and t: "pgalloc_totalkb s * 1024 = maxpage_addr s - minpage_addr s"
    by (simp_all add: accounts_def)
  then have "(pgalloc_usedkb s + ?k) * 1024 < 2 ^ 64" using assms(5) by linarith
  then have w: "wrap64 (pgalloc_usedkb s + ?k) = pgalloc_usedkb s + ?k" by (simp add: wrap64_def)
  show ?thesis
    using assms(2) eq t unfolding accounts_def by (simp add: free_set_def pg_frame_def w)
qed

text \<open>Taking the first \<open>order2size order\<close> bytes off a free chunk and carving up the rest.\<close>

lemma alloc_step:
  assumes inv: "hole_inv s {}" and co: "coalesced s" and a: "a \<in> set (freelist s b)"
    and o: "o' \<le> b"
  defines "s1 \<equiv> clear_magic (list_remove s a) a"
  obtains s2 s3 where
    "carverange s1 (wrap64 (a + order2size o')) (sub64 (order2size b) (order2size o')) = Inr s2"
    "map_alloc s2 a (2 ^ o') = Inr s3" "hole_inv s3 {}" "pg_frame s s3"
    "free_set s3 = free_set s - blk o' a" "coalesced s3"
proof -
  let ?k = "order2size o'" and ?m = "order2size b"
  let ?R = "{a + ?k..<a + ?k + (?m - ?k)}"
  note I = hole_invD [OF inv]
  have ok: "b < FREELIST_LEVELS" "order2size b dvd a" "blk b a \<subseteq> managed_set s"
    using lists_okD(2) [OF I(2) a] by (simp_all add: chunk_ok_def)
  have km: "?k \<le> ?m" "?m < 2 ^ 64"
    using ok(1) dvd_imp_le [OF order2size_mono [OF o]] power_strict_increasing [of "b + 12" 64 "2::nat"]
    by (simp_all add: order2size_def)
  have split: "blk b a = blk o' a \<union> ?R" "blk o' a \<inter> ?R = {}" using km by (auto simp: blk_def)
  have "a + ?m < 2 ^ 64" using managed_bounds [OF I(1) ok(3) [unfolded blk_def]] by simp
  then have w: "wrap64 (a + ?k) = a + ?k" "sub64 ?m ?k = ?m - ?k"
    using km by (simp_all add: wrap64_def sub64_diff)
  note lr = list_remove_ok [OF inv a]
  have h1: "hole_inv s1 (blk o' a \<union> ?R)" "pg_frame s s1" "free_set s1 = free_set s - blk b a"
    using clear_magic_ok [OF lr(1,4)] lr(2,3) pg_frame_trans [OF lr(3) clear_magic_frame(1)]
    by (simp_all add: s1_def clear_magic_frame(2) split(1))
  have dk: "PAGE_SIZE dvd a" "PAGE_SIZE dvd ?k" "PAGE_SIZE dvd ?m"
    using order2size_page ok(2) dvd_trans by blast+
  then have d: "PAGE_SIZE dvd a + ?k" "PAGE_SIZE dvd ?m - ?k" by (auto intro: dvd_add dvd_diff_nat)
  obtain s2 where s2: "carverange s1 (a + ?k) (?m - ?k) = Inr s2" "hole_inv s2 (blk o' a)"
    "pg_frame s1 s2" "free_set s2 = free_set s1 \<union> ?R"
    using carverange_ok [OF h1(1) split(2) d] by blast
  obtain s3 where s3: "map_alloc s2 a (2 ^ o') = Inr s3" "hole_inv s3 {}" "pg_frame s2 s3"
    "free_set s3 = free_set s2" "freelist s3 = freelist s2"
    by (rule map_alloc_hole [of s2 "{}" "blk o' a" a "2 ^ o'"])
      (use s2(2) dk(1) in \<open>simp_all add: blk_def order2size_pages\<close>)
  have "blk b a \<subseteq> free_set s" using a free_setI by blast
  then have "free_set s3 = free_set s - blk o' a"
    unfolding s3(4) s2(4) h1(3) using split by blast
  moreover have "coalesced s3"
    using alloc_step_coalesced [OF inv co a o] s2(1) coalesced_cong [OF s3(5)] by (simp add: s1_def)
  ultimately show ?thesis
    using that [of s2 s3] s2 s3 pg_frame_trans [OF pg_frame_trans [OF h1(2) s2(3)] s3(3)]
    by (simp only: w)
qed

lemma pg_inv_usedkb: "hole_inv (s\<lparr>pgalloc_usedkb := n\<rparr>) H = hole_inv s H"
  "free_set (s\<lparr>pgalloc_usedkb := n\<rparr>) = free_set s"
  by (simp_all add: hole_inv_def geom_def lists_ok_def chunk_ok_def managed_set_def free_set_def
      page_used_def va_to_pg_def)

definition no_chunk :: "pgstate \<Rightarrow> nat \<Rightarrow> nat \<Rightarrow> bool" where
  "no_chunk s order align \<longleftrightarrow>
     (\<forall>l a. order \<le> l \<longrightarrow> l < FREELIST_LEVELS \<longrightarrow> a \<in> set (freelist s l) \<longrightarrow> \<not> align dvd a)"

lemma pgalloc_align_cases:
  assumes inv: "pg_inv s" and o: "order < FREELIST_LEVELS"
    and al: "PAGE_SIZE \<le> align" "align AND (align - 1) = 0"
  obtains "bmk_pgalloc_align s order align = Inr (None, s)" "no_chunk s order align"
  | p s' where "bmk_pgalloc_align s order align = Inr (Some p, s')" "pg_inv s'"
    "align dvd p" "order2size order dvd p" "blk order p \<subseteq> free_set s"
    "free_set s' = free_set s - blk order p" "managed_set s' = managed_set s"
proof (cases "find_bucket s [order..<FREELIST_LEVELS] align")
  case None
  have "0 < align" using al(1) by simp
  with None have "no_chunk s order align"
    unfolding find_bucket_None no_chunk_def by (simp only: aligned_iff [OF _ al(2)]) auto
  with None that(1) o al show ?thesis by (simp add: bmk_pgalloc_align_def)
next
  case (Some r)
  then obtain b a where r: "find_bucket s [order..<FREELIST_LEVELS] align = Some (b, a)" by (cases r) auto
  from find_bucket_Some [OF r]
  have b: "order \<le> b" and a: "a \<in> set (freelist s b)" and aa: "a AND (align - 1) = 0" by auto
  from inv have h: "hole_inv s {}" and co: "coalesced s" and acc: "accounts s"
    by (simp_all add: pg_inv_def)
  note I = hole_invD [OF h]
  have ok: "chunk_ok s b a" by (rule lists_okD(2) [OF I(2) a])
  obtain s2 s3 where s: "carverange (clear_magic (list_remove s a) a) (wrap64 (a + order2size order))
      (sub64 (order2size b) (order2size order)) = Inr s2"
    "map_alloc s2 a (2 ^ order) = Inr s3" "hole_inv s3 {}" "pg_frame s s3"
    "free_set s3 = free_set s - blk order a" "coalesced s3"
    using alloc_step [OF h co a b] .
  let ?s = "s3\<lparr>pgalloc_usedkb := wrap64 (pgalloc_usedkb s3 + drop_bit 10 (order2size order))\<rparr>"
  have run: "bmk_pgalloc_align s order align = Inr (Some a, ?s)"
    using al o r ok s(1,2) aa
    by (simp add: bmk_pgalloc_align_def Let_def chunk_ok_def list_remove_def)
  have "blk b a \<subseteq> free_set s" using a free_setI by blast
  moreover have "blk order a \<subseteq> blk b a" using dvd_imp_le [OF order2size_mono [OF b]] by (auto simp: blk_def)
  ultimately have sub: "blk order a \<subseteq> free_set s" by blast
  have "accounts ?s"
    using I(1,2) by (intro accounts_alloc [OF acc s(4,5) sub]) (simp_all add: geom_def)
  then have "pg_inv ?s"
    using s(3,6) coalesced_cong [of ?s s3] by (simp add: pg_inv_def pg_inv_usedkb)
  moreover have "align dvd a" using aligned_iff [OF _ al(2)] al(1) aa by simp
  moreover have "order2size order dvd a"
    using ok order2size_mono [OF b] dvd_trans by (auto simp: chunk_ok_def)
  moreover have "managed_set ?s = managed_set s" using s(4) by (simp add: managed_set_def pg_frame_def)
  ultimately show ?thesis using that(2) [OF run] sub s(5) by (simp only: pg_inv_usedkb)
qed

section \<open>Freeing\<close>

text \<open>
  The address the code tests for merging: if it is managed and its bit is clear, it is the
  head of a chunk of at most the order of the freed block, so its header is valid.
\<close>

lemma buddy_is_chunk:
  assumes inv: "hole_inv s (blk o' ch)" and al: "order2size o' dvd ch"
    and x: "buddy o' ch \<in> managed_set s" "\<not> page_used s (buddy o' ch)"
  obtains l where "l \<le> o'" "buddy o' ch \<in> set (freelist s l)"
proof -
  note I = hole_invD [OF inv] and B = buddy_facts [OF al]
  have "buddy o' ch \<notin> blk o' ch" using B(4) blk_head by blast
  then have "buddy o' ch \<in> free_set s" using I(5) x by blast
  then obtain l a where a: "a \<in> set (freelist s l)" "buddy o' ch \<in> blk l a" by (rule free_setE)
  have ok: "order2size l dvd a" using lists_okD(2) [OF I(2) a(1)] by (simp add: chunk_ok_def)
  have "l \<le> o'"
  proof (rule ccontr)
    assume "\<not> l \<le> o'"
    then have "blk (Suc o') (lower o' ch) \<subseteq> blk l a"
      using blk_nested [OF B(2) ok, of "buddy o' ch"] B(3) a(2) blk_head [of "buddy o' ch" o'] by auto
    then have "blk o' ch \<subseteq> free_set s" using B(3) a(1) free_setI by blast
    then show False using I(4) blk_head by blast
  qed
  moreover have "a = buddy o' ch" using blk_same [OF ok B(1)] calculation a(2) by blast
  ultimately show ?thesis using that a(1) by blast
qed

lemma can_merge_ok:
  assumes "hole_inv s (blk o' ch)" "order2size o' dvd ch"
  shows "can_merge s (buddy o' ch) o' = Inr (buddy o' ch \<in> set (freelist s o'))"
proof -
  note I = hole_invD [OF assms(1)]
  have mem: "x \<in> set (freelist s l) \<Longrightarrow> x \<in> managed_set s \<and> \<not> page_used s x \<and>
      chunks s x = \<lparr>level = l, magic = CHUNKMAGIC\<rparr>" for x l
    using head_in_free_set I(5) free_set_managed [OF I(2)] lists_okD(2) [OF I(2)]
    by (fastforce simp: chunk_ok_def)
  show ?thesis
  proof (cases "buddy o' ch \<in> managed_set s \<and> \<not> page_used s (buddy o' ch)")
    case True
    then obtain l where l: "buddy o' ch \<in> set (freelist s l)"
      using buddy_is_chunk [OF assms] by blast
    then show ?thesis
      using mem [OF l] mem [of "buddy o' ch" o'] I(1) True
      by (auto simp: can_merge_def managed_iff allocated_in_map_ok chunklevel_def)
  next
    case False
    then show ?thesis
      using mem [of "buddy o' ch" o'] I(1)
      by (auto simp: can_merge_def managed_iff allocated_in_map_ok)
  qed
qed

text \<open>One round of the merge loop, in terms of \<^const>\<open>buddy\<close> and \<^const>\<open>lower\<close>.\<close>

lemma pgfree_merge_step:
  assumes inv: "hole_inv s (blk o' ch)" and al: "order2size o' dvd ch" and o: "o' < FREELIST_LEVELS"
  shows "pgfree_merge s ch o' =
    (if buddy o' ch \<in> set (freelist s o')
     then pgfree_merge (list_remove (clear_magic (clear_magic s ch) (buddy o' ch)) (buddy o' ch))
            (lower o' ch) (Suc o')
     else Inr (s, ch, o'))"
proof -
  note I = hole_invD [OF inv]
  have b: "ch + order2size o' < 2 ^ 64" "0 < ch"
    using managed_bounds [OF I(1) I(3) [unfolded blk_def]] by simp_all
  have "ch AND order2size o' \<noteq> 0 \<Longrightarrow> order2size o' \<le> ch"
    using al b(2) by (auto dest: dvd_imp_le)
  then have "(if ch AND order2size o' \<noteq> 0 then sub64 ch (order2size o')
      else wrap64 (ch + order2size o')) = buddy o' ch"
    using b(1) by (auto simp: buddy_def wrap64_def sub64_diff)
  moreover have "(if ch AND order2size o' \<noteq> 0 then buddy o' ch else ch) = lower o' ch"
    by (simp add: buddy_def lower_def)
  ultimately show ?thesis
    by (subst pgfree_merge.simps) (simp only: o Let_def can_merge_ok [OF inv al] if_True sum.case)
qed

lemma merge_round:
  assumes inv: "hole_inv s (blk o' ch)" and al: "order2size o' dvd ch"
    and bd: "buddy o' ch \<in> set (freelist s o')"
  defines "s' \<equiv> list_remove (clear_magic (clear_magic s ch) (buddy o' ch)) (buddy o' ch)"
  shows "hole_inv s' (blk (Suc o') (lower o' ch))" "pg_frame s s'"
    "free_set s' = free_set s - blk o' (buddy o' ch)" "Suc o' < FREELIST_LEVELS"
    "\<And>l. set (freelist s' l) = set (freelist s l) - {buddy o' ch}"
proof -
  note I = hole_invD [OF inv]
  let ?b = "buddy o' ch"
  have nin: "ch \<notin> set (freelist s l)" for l
    using I(4) head_in_free_set blk_head by blast
  note lr = list_remove_ok [OF inv bd]
  have s': "s' = clear_magic (clear_magic (list_remove s ?b) ch) ?b"
    by (simp add: s'_def clear_magic_remove)
  have "ch \<notin> set (freelist (list_remove s ?b) l)" for l
    using nin by (simp add: list_remove_def)
  then have h1: "hole_inv (clear_magic (list_remove s ?b) ch) (blk o' ch \<union> blk o' ?b)"
    by (rule clear_magic_ok [OF lr(1)])
  have "?b \<notin> set (freelist (clear_magic (list_remove s ?b) ch) l)" for l
    using lr(4) [of l] by (simp add: clear_magic_def)
  then have "hole_inv s' (blk o' ch \<union> blk o' ?b)"
    unfolding s' by (rule clear_magic_ok [OF h1])
  then show h: "hole_inv s' (blk (Suc o') (lower o' ch))"
    by (simp only: buddy_facts(3) [OF al])
  show "pg_frame s s'" unfolding s'
    using lr(3) by (simp add: pg_frame_def clear_magic_def)
  show "free_set s' = free_set s - blk o' ?b"
    unfolding s' clear_magic_frame(2) by (rule lr(2))
  show "set (freelist s' l) = set (freelist s l) - {?b}" for l
    unfolding s' using lists_okD(1) [OF I(2)] by (simp add: clear_magic_def list_remove_def)
  note I' = hole_invD [OF h]
  have "order2size (Suc o') < 2 ^ 64"
    using managed_bounds(4) [OF I'(1) I'(3) [unfolded blk_def]] by simp
  then have "Suc o' + 12 < 64" unfolding order2size_def by (rule power_less_imp_less_exp [rotated]) simp
  then show "Suc o' < FREELIST_LEVELS" by simp
qed

lemma pgfree_merge_ok:
  assumes "hole_inv s (blk o' ch)" "order2size o' dvd ch" "o' < FREELIST_LEVELS"
  shows "\<exists>s2 ch2 o2. pgfree_merge s ch o' = Inr (s2, ch2, o2) \<and> o2 < FREELIST_LEVELS \<and>
    order2size o2 dvd ch2 \<and> hole_inv s2 (blk o2 ch2) \<and> pg_frame s s2 \<and>
    free_set s2 \<union> blk o2 ch2 = free_set s \<union> blk o' ch \<and>
    buddy o2 ch2 \<notin> set (freelist s2 o2) \<and> (\<forall>l. set (freelist s2 l) \<subseteq> set (freelist s l))"
  using assms
proof (induction "FREELIST_LEVELS - o'" arbitrary: s ch o' rule: less_induct)
  case less
  note step = pgfree_merge_step [OF less(2-4)] and B = buddy_facts [OF less(3)]
  show ?case
  proof (cases "buddy o' ch \<in> set (freelist s o')")
    case False
    with step less(2-4) show ?thesis by auto
  next
    case True
    let ?s = "list_remove (clear_magic (clear_magic s ch) (buddy o' ch)) (buddy o' ch)"
    note R = merge_round [OF less(2,3) True]
    obtain s2 ch2 o2 where r: "pgfree_merge ?s (lower o' ch) (Suc o') = Inr (s2, ch2, o2)"
      "o2 < FREELIST_LEVELS" "order2size o2 dvd ch2" "hole_inv s2 (blk o2 ch2)" "pg_frame ?s s2"
      "free_set s2 \<union> blk o2 ch2 = free_set ?s \<union> blk (Suc o') (lower o' ch)"
      "buddy o2 ch2 \<notin> set (freelist s2 o2)" "\<And>l. set (freelist s2 l) \<subseteq> set (freelist ?s l)"
      using less(1) [OF diff_less_mono2 [OF lessI less(4)] R(1) B(2) R(4)] by blast
    have "blk o' (buddy o' ch) \<subseteq> free_set s" using True free_setI by blast
    then have "free_set ?s \<union> blk (Suc o') (lower o' ch) = free_set s \<union> blk o' ch"
      unfolding R(3) B(3) [symmetric] by blast
    moreover have "set (freelist s2 l) \<subseteq> set (freelist s l)" for l using r(8) R(5) by blast
    ultimately show ?thesis
      using r pg_frame_trans [OF R(2) r(5)] True by (subst step) auto
  qed
qed

lemma accounts_free:
  assumes "accounts s" "pg_frame s s'" "free_set s' = free_set s" "blk l a \<subseteq> managed_set s"
    "blk l a \<inter> free_set s = {}" "maxpage_addr s < 2 ^ 64" "lists_ok s"
    and u: "u = s'\<lparr>pgalloc_usedkb := sub64 (pgalloc_usedkb s') (drop_bit 10 (order2size l))\<rparr>"
    and v: "pg_frame u v" "free_set v = free_set s \<union> blk l a"
  shows "accounts v"
proof -
  let ?k = "drop_bit 10 (order2size l)"
  have fin: "finite (free_set s)" using assms(7) by (rule finite_free_set)
  have c: "card (free_set v) = card (free_set s) + ?k * 1024"
    using card_Un_disjoint [OF fin finite_blk] assms(5) by (simp add: v(2) Int_commute card_blk drop_bit_10)
  have "card (free_set s) + ?k * 1024 \<le> card (managed_set s)"
    unfolding c [symmetric] v(2)
    using free_set_managed [OF assms(7)] assms(4) by (intro card_mono) (auto simp: managed_set_def)
  with assms(1) have k: "?k * 1024 \<le> pgalloc_usedkb s * 1024" and t: "pgalloc_usedkb s * 1024 < 2 ^ 64"
    using assms(6) unfolding accounts_def card_managed by linarith+
  then have "sub64 (pgalloc_usedkb s) ?k = pgalloc_usedkb s - ?k" by (intro sub64_diff) simp_all
  moreover have "(pgalloc_usedkb s - ?k) * 1024 = pgalloc_usedkb s * 1024 - ?k * 1024"
    by (rule diff_mult_distrib)
  ultimately show ?thesis
    using assms(1,2) v(1) c k by (simp add: accounts_def pg_frame_def u)
qed

lemma pgfree_ok:
  assumes inv: "pg_inv s" and o: "order < FREELIST_LEVELS" and al: "order2size order dvd p"
    and live: "blk order p \<subseteq> managed_set s" "blk order p \<inter> free_set s = {}"
  obtains s' where "bmk_pgfree s p order = Inr s'" "pg_inv s'"
    "free_set s' = free_set s \<union> blk order p" "managed_set s' = managed_set s"
proof -
  from inv have h: "hole_inv s {}" and co: "coalesced s" and acc: "accounts s"
    by (simp_all add: pg_inv_def)
  note I = hole_invD [OF h]
  have "PAGE_SIZE dvd p" using al order2size_page dvd_trans by blast
  then obtain s1 where s1: "map_free s p (2 ^ order) = Inr s1" "hole_inv s1 (blk order p)"
    "pg_frame s s1" "free_set s1 = free_set s" "freelist s1 = freelist s"
    using map_free_hole [OF h, of "blk order p" p "2 ^ order"] live
    by (auto simp: blk_def order2size_pages)
  define u where "u = s1\<lparr>pgalloc_usedkb := sub64 (pgalloc_usedkb s1) (drop_bit 10 (order2size order))\<rparr>"
  have hu: "hole_inv u (blk order p)" "free_set u = free_set s"
    using s1(2,4) by (simp_all add: u_def pg_inv_usedkb)
  obtain s2 ch2 o2 where r: "pgfree_merge u p order = Inr (s2, ch2, o2)" "o2 < FREELIST_LEVELS"
    "order2size o2 dvd ch2" "hole_inv s2 (blk o2 ch2)" "pg_frame u s2"
    "free_set s2 \<union> blk o2 ch2 = free_set s \<union> blk order p" "buddy o2 ch2 \<notin> set (freelist s2 o2)"
    "\<And>l. set (freelist s2 l) \<subseteq> set (freelist u l)"
    using pgfree_merge_ok [OF hu(1) al o] unfolding hu(2) by blast
  have "hole_inv s2 ({} \<union> blk o2 ch2)" "{} \<inter> blk o2 ch2 = {}" using r(4) by simp_all
  note link = freechunk_link_ok [OF this r(2,3)]
  obtain s3 where s3: "freechunk_link s2 ch2 o2 = Inr s3" "hole_inv s3 {}" "pg_frame s2 s3"
    "free_set s3 = free_set s2 \<union> blk o2 ch2" "alloc_bitmap s3 = alloc_bitmap s2"
    by (rule link)
  have "bmk_pgfree s p order = Inr s3"
    using s1(1) r(1) s3(1) by (simp add: bmk_pgfree_def Let_def u_def)
  moreover have "accounts s3"
    using I(1) pg_frame_trans [OF r(5) s3(3)] r(6) s3(4)
    by (intro accounts_free [OF acc s1(3,4) live _ I(2) u_def]) (simp_all add: geom_def)
  moreover have "managed_set s3 = managed_set s"
    using s1(3) r(5) s3(3) by (simp add: u_def managed_set_def pg_frame_def)
  moreover have "coalesced s2"
    using r(8) s1(5) by (intro coalesced_subset [OF co]) (simp add: u_def)
  then have "coalesced s3"
    by (rule link_coalesced [OF s3(1) _ r(7) hole_invD(2) [OF r(4)] r(3)])
  ultimately show ?thesis using that s3(2,4) r(6) by (simp add: pg_inv_def)
qed

section \<open>Completeness of the search\<close>

text \<open>
  A free aligned block lies within one chunk: were it made of several, the smallest of them
  would have its buddy free as a whole, and the two would have been merged.
\<close>

lemma free_block_in_chunk:
  assumes lo: "lists_ok s" and co: "coalesced s" and al: "order2size o' dvd p"
    and sub: "blk o' p \<subseteq> free_set s"
  shows "\<exists>l a. o' \<le> l \<and> a \<in> set (freelist s l) \<and> blk o' p \<subseteq> blk l a"
proof (rule ccontr)
  assume no: "\<nexists>l a. o' \<le> l \<and> a \<in> set (freelist s l) \<and> blk o' p \<subseteq> blk l a"
  let ?P = "\<lambda>l. \<exists>a. a \<in> set (freelist s l) \<and> blk l a \<inter> blk o' p \<noteq> {}"
  have aligned: "a \<in> set (freelist s l) \<Longrightarrow> order2size l dvd a" for l a
    using lists_okD(2) [OF lo] by (auto simp: chunk_ok_def)
  have "p \<in> free_set s" using sub blk_head by blast
  then obtain l0 a0 where "a0 \<in> set (freelist s l0)" "p \<in> blk l0 a0" by (rule free_setE)
  then have P0: "?P l0" using blk_head by blast
  define l where "l = (LEAST l. ?P l)"
  have "?P l" unfolding l_def by (rule LeastI [of ?P, OF P0])
  have least: "l \<le> k" if "?P k" for k unfolding l_def by (rule Least_le [of ?P, OF that])
  from \<open>?P l\<close> obtain a x where a: "a \<in> set (freelist s l)" "x \<in> blk l a" "x \<in> blk o' p" by blast
  note B = buddy_facts [OF aligned [OF a(1)]]
  have l: "l < o'"
  proof (rule ccontr)
    assume "\<not> l < o'"
    then have le: "o' \<le> l" by simp
    have "blk o' p \<subseteq> blk l a" by (rule blk_nested [OF al aligned [OF a(1)] le a(3,2)])
    then show False using no a(1) le by blast
  qed
  have "x \<in> blk (Suc l) (lower l a)" using B(3) a(2) by blast
  then have "blk (Suc l) (lower l a) \<subseteq> blk o' p"
    using l a(3) by (intro blk_nested [OF B(2) al, of x]) simp_all
  then have b: "buddy l a \<in> blk o' p" using B(3) blk_head by blast
  then have "buddy l a \<in> free_set s" using sub by blast
  then obtain l' a' where a': "a' \<in> set (freelist s l')" "buddy l a \<in> blk l' a'" by (rule free_setE)
  then have "l \<le> l'" using b by (intro least) blast
  show False
  proof (cases "l' = l")
    case True
    then have "a' = buddy l a" using blk_same [OF aligned [OF a'(1)] B(1)] a'(2) by simp
    then show False using co a(1) a'(1) True by (simp add: coalesced_def)
  next
    case False
    have "buddy l a \<in> blk (Suc l) (lower l a)" using B(3) blk_head by blast
    with False have "blk (Suc l) (lower l a) \<subseteq> blk l' a'"
      using \<open>l \<le> l'\<close> a'(2) by (intro blk_nested [OF B(2) aligned [OF a'(1)], of "buddy l a"]) simp_all
    then have "a \<in> blk l' a'" using B(3) blk_head by blast
    then show False using lists_okD(3) [OF lo a(1) a'(1) blk_head] False by blast
  qed
qed

lemma no_chunk_no_block:
  assumes "pg_inv s" "no_chunk s order align" "order2size order dvd p" "align = 2 ^ k" "align dvd p"
  shows "\<not> blk order p \<subseteq> free_set s"
proof
  assume sub: "blk order p \<subseteq> free_set s"
  have lo: "lists_ok s" "coalesced s"
    using assms(1) unfolding pg_inv_def hole_inv_def by simp_all
  obtain l a where a: "order \<le> l" "a \<in> set (freelist s l)" "p \<in> blk l a"
    using free_block_in_chunk [OF lo assms(3) sub] blk_head [of p order] by blast
  have ok: "l < FREELIST_LEVELS" "order2size l dvd a"
    using lists_okD(2) [OF lo(1) a(2)] by (simp_all add: chunk_ok_def)
  have "align dvd a"
  proof (cases "k \<le> l + 12")
    case True
    then have "align dvd order2size l" by (simp add: order2size_def assms(4) le_imp_power_dvd)
    then show ?thesis using ok(2) by (rule dvd_trans)
  next
    case False
    define j where "j = k - 12"
    with False have j: "k = j + 12" "l \<le> j" by simp_all
    have "order2size j dvd p" using assms(5) unfolding assms(4) j(1) order2size_def .
    then have "a = p" using a(3) by (intro blk_same [OF ok(2) _ j(2)])
    then show ?thesis using assms(5) by simp
  qed
  then show False using assms(2) a ok(1) by (auto simp: no_chunk_def)
qed

end
