(* ===== verification/PgallocIface.thy ===== *)
theory PgallocIface
  imports PgallocCorrect
begin

text \<open>
  What the page allocator promises to the rest of the system: the correctness statements of
  its entry points, the interface that its clients rely on, the runs of an arbitrary client,
  and the statistics and debugging aids.
\<close>

section \<open>The entry points\<close>

text \<open>
  C28. \<open>bmk_pgalloc_loadmem\<close> never faults on a memory range that has room for the bitmap and
  at least one page: it rounds the range inwards to pages, takes the bitmap from its low end,
  and leaves every remaining byte free in a fully coalesced set of chunks, with the books in
  balance and nothing in use.
\<close>

theorem bmk_pgalloc_loadmem_correct:
  assumes "\<not> pg_called s" "max0 < 2 ^ 64"
    and "page_up min0 + bitmap_bytes (page_up min0) (bmk_trunc_page max0) < bmk_trunc_page max0"
  shows "\<exists>s'. bmk_pgalloc_loadmem s min0 max0 = Inr s' \<and> pg_inv s' \<and>
    free_set s' = {page_up min0 + bitmap_bytes (page_up min0) (bmk_trunc_page max0)..<bmk_trunc_page max0} \<and>
    managed_set s' = free_set s' \<and> pgalloc_usedkb s' = 0"
proof -
  obtain s' where "bmk_pgalloc_loadmem s min0 max0 = Inr s'" "pg_inv s'"
    "minpage_addr s' = page_up min0 + bitmap_bytes (page_up min0) (bmk_trunc_page max0)"
    "maxpage_addr s' = bmk_trunc_page max0"
    "free_set s' = {page_up min0 + bitmap_bytes (page_up min0) (bmk_trunc_page max0)..<bmk_trunc_page max0}"
    "pgalloc_usedkb s' = 0"
    by (rule loadmem_ok [OF assms])
  then show ?thesis by (simp add: managed_set_def)
qed

lemma boot_range:
  "page_up 0x1001 + bitmap_bytes (page_up 0x1001) 0x20000 = 0x3000"
  "bmk_trunc_page 0x20123 = 0x20000"
  by (simp_all add: page_up_def bitmap_bytes_def bmk_trunc_page_def)

theorem bmk_pgalloc_loadmem_correct_witness:
  "\<exists>s'. bmk_pgalloc_loadmem pg_init 0x1001 0x20123 = Inr s' \<and> pg_inv s' \<and>
    free_set s' = {0x3000..<0x20000} \<and> managed_set s' = free_set s' \<and> pgalloc_usedkb s' = 0"
  using bmk_pgalloc_loadmem_correct [of pg_init "0x20123" "0x1001"] unfolding boot_range
  by (simp add: pg_init_def)

text \<open>The state after loading that memory, for the witnesses below.\<close>

definition boot_state :: pgstate where
  "boot_state = (case bmk_pgalloc_loadmem pg_init 0x1001 0x20123 of Inr s \<Rightarrow> s | Inl _ \<Rightarrow> pg_init)"

lemma boot_state_inv:
  "pg_inv boot_state" "free_set boot_state = {0x3000..<0x20000}"
  "managed_set boot_state = {0x3000..<0x20000}"
proof -
  have "\<not> pg_called pg_init" "(0x20123::nat) < 2 ^ 64"
    "page_up 0x1001 + bitmap_bytes (page_up 0x1001) (bmk_trunc_page 0x20123) < bmk_trunc_page 0x20123"
    unfolding boot_range by (simp_all add: pg_init_def)
  note load = loadmem_ok [OF this, unfolded boot_range]
  obtain s' where s': "bmk_pgalloc_loadmem pg_init 0x1001 0x20123 = Inr s'" "pg_inv s'"
    "minpage_addr s' = 0x3000" "maxpage_addr s' = 0x20000" "free_set s' = {0x3000..<0x20000}"
    "pgalloc_usedkb s' = 0"
    by (rule load)
  then have "boot_state = s'" by (simp add: boot_state_def)
  then show "pg_inv boot_state" "free_set boot_state = {0x3000..<0x20000}"
    "managed_set boot_state = {0x3000..<0x20000}"
    using s' by (simp_all only: managed_set_def)
qed

text \<open>
  C8. \<open>bmk_pgalloc_align\<close> on a valid request never faults and keeps the invariant. It
  succeeds exactly when some naturally and suitably aligned block of the requested size is
  entirely free, and then returns such a block and takes exactly its bytes out of the free
  memory; when it fails the state is unchanged.
\<close>

theorem bmk_pgalloc_align_correct:
  assumes "pg_inv s" "order < FREELIST_LEVELS" "PAGE_SIZE \<le> align" "align AND (align - 1) = 0"
  shows "case bmk_pgalloc_align s order align of
      Inl _ \<Rightarrow> False
    | Inr (None, s') \<Rightarrow> s' = s \<and>
        (\<nexists>p. align dvd p \<and> order2size order dvd p \<and> blk order p \<subseteq> free_set s)
    | Inr (Some p, s') \<Rightarrow> pg_inv s' \<and> align dvd p \<and> order2size order dvd p \<and>
        blk order p \<subseteq> free_set s \<and> free_set s' = free_set s - blk order p \<and>
        managed_set s' = managed_set s"
proof -
  obtain k where k: "align = 2 ^ k" using pow2_of_and [of align] assms(3,4) by auto
  show ?thesis
    by (rule pgalloc_align_cases [OF assms]) (use no_chunk_no_block [OF assms(1)] k in auto)
qed

theorem bmk_pgalloc_align_correct_witness:
  "pg_inv boot_state \<and> (1::nat) < FREELIST_LEVELS \<and> PAGE_SIZE \<le> (0x4000::nat) \<and>
   (case bmk_pgalloc_align boot_state 1 0x4000 of
      Inl _ \<Rightarrow> False
    | Inr (None, s') \<Rightarrow> False
    | Inr (Some p, s') \<Rightarrow> pg_inv s' \<and> 0x4000 dvd p \<and> free_set s' = {0x3000..<0x20000} - blk 1 p)"
proof -
  have "0x4000 AND (0x4000 - 1) = (0::nat)" by simp
  note r = bmk_pgalloc_align_correct [OF boot_state_inv(1), of 1 "0x4000", OF _ _ this]
  have "\<exists>p. 0x4000 dvd p \<and> order2size 1 dvd p \<and> blk 1 p \<subseteq> free_set boot_state"
    by (rule exI [of _ "0x4000"]) (simp add: order2size_def blk_def boot_state_inv)
  with r show ?thesis
    by (auto simp: boot_state_inv split: sum.splits option.splits prod.splits)
qed

text \<open>
  C9. \<open>bmk_pgfree\<close> of an allocated, naturally aligned block never faults: neither the
  assertion on the header of the chunk it tries to merge with, nor the free-list index after
  merging, nor any bitmap access fails. It keeps the invariant, full coalescing included, and
  makes exactly the bytes of the block free again.
\<close>

theorem bmk_pgfree_correct:
  assumes "pg_inv s" "order < FREELIST_LEVELS" "order2size order dvd p"
    and "blk order p \<subseteq> managed_set s" "blk order p \<inter> free_set s = {}"
  shows "\<exists>s'. bmk_pgfree s p order = Inr s' \<and> pg_inv s' \<and>
    free_set s' = free_set s \<union> blk order p \<and> managed_set s' = managed_set s"
  by (rule pgfree_ok [OF assms]) blast

text \<open>The state after one page has been taken from the memory of \<^const>\<open>boot_state\<close>.\<close>

definition one_page_state :: "nat \<times> pgstate" where
  "one_page_state = (case bmk_pgalloc boot_state 0 of
     Inr (Some p, s) \<Rightarrow> (p, s) | _ \<Rightarrow> (0, boot_state))"

lemma one_page_state_facts:
  "bmk_pgalloc boot_state 0 = Inr (Some (fst one_page_state), snd one_page_state)"
  "pg_inv (snd one_page_state)" "order2size 0 dvd fst one_page_state"
  "blk 0 (fst one_page_state) \<subseteq> {0x3000..<0x20000}"
  "free_set (snd one_page_state) = {0x3000..<0x20000} - blk 0 (fst one_page_state)"
  "managed_set (snd one_page_state) = {0x3000..<0x20000}"
proof -
  have al: "(0::nat) < FREELIST_LEVELS" "PAGE_SIZE \<le> PAGE_SIZE" "PAGE_SIZE AND (PAGE_SIZE - 1) = 0"
    by simp_all
  have nc: "\<not> no_chunk boot_state 0 PAGE_SIZE"
  proof
    assume n: "no_chunk boot_state 0 PAGE_SIZE"
    have "\<not> blk 0 0x3000 \<subseteq> free_set boot_state"
      by (rule no_chunk_no_block [OF boot_state_inv(1) n, of _ 12]) (simp_all add: order2size_def)
    then show False by (simp add: order2size_def blk_def boot_state_inv)
  qed
  obtain p s' where "bmk_pgalloc boot_state 0 = Inr (Some p, s')" "pg_inv s'"
    "order2size 0 dvd p" "blk 0 p \<subseteq> free_set boot_state"
    "free_set s' = free_set boot_state - blk 0 p" "managed_set s' = managed_set boot_state"
    unfolding bmk_pgalloc_def
    by (rule pgalloc_align_cases [OF boot_state_inv(1) al]) (use nc in simp_all)
  then show "bmk_pgalloc boot_state 0 = Inr (Some (fst one_page_state), snd one_page_state)"
    "pg_inv (snd one_page_state)" "order2size 0 dvd fst one_page_state"
    "blk 0 (fst one_page_state) \<subseteq> {0x3000..<0x20000}"
    "free_set (snd one_page_state) = {0x3000..<0x20000} - blk 0 (fst one_page_state)"
    "managed_set (snd one_page_state) = {0x3000..<0x20000}"
    by (simp_all add: one_page_state_def boot_state_inv)
qed

theorem bmk_pgfree_correct_witness:
  "\<exists>s'. bmk_pgfree (snd one_page_state) (fst one_page_state) 0 = Inr s' \<and> pg_inv s' \<and>
    free_set s' = {0x3000..<0x20000}"
  using bmk_pgfree_correct [OF one_page_state_facts(2) _ one_page_state_facts(3)] one_page_state_facts(4)
  unfolding one_page_state_facts(5,6) by (auto simp: Int_commute Diff_Int_distrib Un_absorb2)

section \<open>The interface to clients\<close>

definition region :: "nat \<times> nat \<Rightarrow> nat set" where
  "region b = blk (snd b) (fst b)"

text \<open>
  The contract that the users of pages rely on: which memory is available is an abstract set;
  an allocation hands out an available aligned block or leaves everything as it was, and a
  block that is not available can be given back.
\<close>

locale page_allocator =
  fixes alloc :: "'s \<Rightarrow> nat \<Rightarrow> (nat option \<times> 's) res"
    and free :: "'s \<Rightarrow> nat \<Rightarrow> nat \<Rightarrow> 's res"
    and inv :: "'s \<Rightarrow> bool" and avail :: "'s \<Rightarrow> nat set" and managed :: "'s \<Rightarrow> nat set"
  assumes avail_managed: "inv s \<Longrightarrow> avail s \<subseteq> managed s"
    and managed_pos: "inv s \<Longrightarrow> x \<in> managed s \<Longrightarrow> 0 < x \<and> Suc x < 2 ^ 64"
    and alloc_law: "inv s \<Longrightarrow> order < FREELIST_LEVELS \<Longrightarrow>
      alloc s order = Inr (None, s) \<or>
      (\<exists>p s'. alloc s order = Inr (Some p, s') \<and> inv s' \<and> order2size order dvd p \<and>
         blk order p \<subseteq> avail s \<and> avail s' = avail s - blk order p \<and> managed s' = managed s)"
    and free_law: "inv s \<Longrightarrow> order < FREELIST_LEVELS \<Longrightarrow> order2size order dvd p \<Longrightarrow>
      blk order p \<subseteq> managed s \<Longrightarrow> blk order p \<inter> avail s = {} \<Longrightarrow>
      \<exists>s'. free s p order = Inr s' \<and> inv s' \<and> avail s' = avail s \<union> blk order p \<and> managed s' = managed s"
begin

text \<open>The blocks \<open>L\<close> a client holds: allocated, pairwise disjoint, and all that is missing from the pool.\<close>

definition holds :: "'s \<Rightarrow> (nat \<times> nat) list \<Rightarrow> bool" where
  "holds s L \<longleftrightarrow> inv s \<and> distinct L \<and>
     (\<forall>b \<in> set L. snd b < FREELIST_LEVELS \<and> order2size (snd b) dvd fst b) \<and>
     (\<forall>b \<in> set L. \<forall>c \<in> set L. b \<noteq> c \<longrightarrow> region b \<inter> region c = {}) \<and>
     managed s - avail s = (\<Union>b \<in> set L. region b)"

lemma holds_block:
  assumes "holds s L" "b \<in> set L"
  shows "region b \<subseteq> managed s" "region b \<inter> avail s = {}" "0 < fst b"
proof -
  have "region b \<subseteq> managed s - avail s" using assms by (auto simp: holds_def)
  then show "region b \<subseteq> managed s" "region b \<inter> avail s = {}" by auto
  then have "fst b \<in> managed s" using blk_head by (auto simp: region_def)
  then show "0 < fst b" using managed_pos assms(1) by (auto simp: holds_def)
qed

lemma holds_alloc:
  assumes h: "holds s L" and al: "alloc s order = Inr (Some p, s')" and o: "order < FREELIST_LEVELS"
  shows "holds s' ((p, order) # L)"
proof -
  have i: "inv s" using h by (simp add: holds_def)
  from alloc_law [OF i o] al have f: "inv s'" "order2size order dvd p"
    "region (p, order) \<subseteq> avail s" "avail s' = avail s - region (p, order)" "managed s' = managed s"
    by (auto simp: region_def)
  have dis: "region (p, order) \<inter> region c = {}" if "c \<in> set L" for c
    using holds_block(2) [OF h that] f(3) by blast
  have "fst b \<in> region b" for b using blk_head by (simp add: region_def)
  with dis have "(p, order) \<notin> set L" by blast
  moreover have "managed s' - avail s' = (\<Union>b \<in> set ((p, order) # L). region b)"
    using h f avail_managed [OF i] by (auto simp: holds_def)
  ultimately show ?thesis
    using h f(1,2) o dis unfolding holds_def by (simp add: Int_commute)
qed

lemma holds_free:
  assumes h: "holds s L" and m: "(p, order) \<in> set L"
  obtains s' where "free s p order = Inr s'" "holds s' (remove1 (p, order) L)"
proof -
  have i: "inv s" and o: "order < FREELIST_LEVELS" "order2size order dvd p" and d: "distinct L"
    using h m by (auto simp: holds_def)
  obtain s' where f: "free s p order = Inr s'" "inv s'" "avail s' = avail s \<union> region (p, order)"
    "managed s' = managed s"
    using free_law [OF i o] holds_block(1,2) [OF h m] by (auto simp: region_def)
  have dis: "region (p, order) \<inter> region c = {}" if "c \<in> set L - {(p, order)}" for c
    using h m that unfolding holds_def by fast
  have "managed s - avail s = (\<Union>b \<in> set L. region b)" using h by (simp add: holds_def)
  then have "managed s' - avail s' = (\<Union>b \<in> set L - {(p, order)}. region b)"
    unfolding f using dis m by blast
  then have "holds s' (remove1 (p, order) L)"
    using h f(2) d unfolding holds_def by simp
  with f(1) that show ?thesis by blast
qed

lemma holds_nothing: "holds s [] \<Longrightarrow> avail s = managed s"
  using avail_managed by (auto simp: holds_def)

end

interpretation pga: page_allocator bmk_pgalloc bmk_pgfree pg_inv free_set managed_set
proof
  fix s :: pgstate assume inv: "pg_inv s"
  then have h: "geom s" "lists_ok s" by (simp_all add: pg_inv_def hole_inv_def)
  show "free_set s \<subseteq> managed_set s" using h(2) by (rule free_set_managed)
  show "0 < x \<and> Suc x < 2 ^ 64" if "x \<in> managed_set s" for x
    using that h(1) unfolding managed_set_def geom_def
    by (auto intro: less_trans less_le_trans le_less_trans simp: Suc_le_eq [symmetric] simp del: Suc_le_eq power_numeral)
  fix order assume o: "order < FREELIST_LEVELS"
  have al: "PAGE_SIZE \<le> PAGE_SIZE" "PAGE_SIZE AND (PAGE_SIZE - 1) = 0" by simp_all
  show "bmk_pgalloc s order = Inr (None, s) \<or>
      (\<exists>p s'. bmk_pgalloc s order = Inr (Some p, s') \<and> pg_inv s' \<and> order2size order dvd p \<and>
         blk order p \<subseteq> free_set s \<and> free_set s' = free_set s - blk order p \<and>
         managed_set s' = managed_set s)"
    unfolding bmk_pgalloc_def by (rule pgalloc_align_cases [OF inv o al]) simp_all
  fix p assume "order2size order dvd p" "blk order p \<subseteq> managed_set s" "blk order p \<inter> free_set s = {}"
  then show "\<exists>s'. bmk_pgfree s p order = Inr s' \<and> pg_inv s' \<and>
      free_set s' = free_set s \<union> blk order p \<and> managed_set s' = managed_set s"
    by (rule pgfree_ok [OF inv o]) blast
qed

section \<open>Arbitrary clients\<close>

text \<open>
  Every step a client can take, with the list of the blocks it holds: a successful or failed
  allocation of any valid order, writing anything into the blocks it holds (which may overwrite
  stale chunk headers there), and giving back a block it holds.
\<close>

inductive pg_step :: "pgstate \<times> (nat \<times> nat) list \<Rightarrow> pgstate \<times> (nat \<times> nat) list \<Rightarrow> bool" where
  alloc_some: "order < FREELIST_LEVELS \<Longrightarrow> bmk_pgalloc s order = Inr (Some p, s') \<Longrightarrow>
    pg_step (s, L) (s', (p, order) # L)"
| alloc_none: "order < FREELIST_LEVELS \<Longrightarrow> bmk_pgalloc s order = Inr (None, s') \<Longrightarrow>
    pg_step (s, L) (s', L)"
| client_write: "(\<And>a. \<forall>b \<in> set L. a \<notin> region b \<Longrightarrow> ch a = chunks s a) \<Longrightarrow>
    pg_step (s, L) (s\<lparr>chunks := ch\<rparr>, L)"
| give_back: "(p, order) \<in> set L \<Longrightarrow> bmk_pgfree s p order = Inr s' \<Longrightarrow>
    pg_step (s, L) (s', remove1 (p, order) L)"

inductive_cases pg_stepE: "pg_step (s, L) (s', L')"

text \<open>Headers matter only at the head of free chunks.\<close>

lemma chunks_change:
  assumes inv: "pg_inv s" and ch: "\<And>a. a \<in> free_set s \<Longrightarrow> ch a = chunks s a"
  shows "pg_inv (s\<lparr>chunks := ch\<rparr>)" "free_set (s\<lparr>chunks := ch\<rparr>) = free_set s"
    "managed_set (s\<lparr>chunks := ch\<rparr>) = managed_set s"
proof -
  let ?s = "s\<lparr>chunks := ch\<rparr>"
  show f: "free_set ?s = free_set s" and m: "managed_set ?s = managed_set s"
    by (simp_all add: free_set_def managed_set_def)
  have i: "geom s" "lists_ok s" "coalesced s" "accounts s"
    "\<And>x. x \<in> managed_set s \<Longrightarrow> page_used s x \<longleftrightarrow> x \<notin> free_set s"
    using inv unfolding pg_inv_def hole_inv_def by auto
  have "chunk_ok ?s l a" if "a \<in> set (freelist s l)" for l a
    using lists_okD(2) [OF i(2) that] ch [OF head_in_free_set [OF that]]
    by (simp add: chunk_ok_def managed_set_def)
  then have "lists_ok ?s" using i(2) unfolding lists_ok_def by simp
  then have "hole_inv ?s {}"
    using i(1,5) by (intro hole_invI) (simp_all add: f m page_used_def va_to_pg_def geom_def)
  then show "pg_inv ?s"
    using i(3,4) by (simp add: pg_inv_def coalesced_def accounts_def f)
qed

lemma pg_step_holds:
  assumes "pg_step (s, L) (s', L')" "pga.holds s L"
  shows "pga.holds s' L'"
  using assms(1)
proof (rule pg_stepE)
  fix order p assume "L' = (p, order) # L" "order < FREELIST_LEVELS" "bmk_pgalloc s order = Inr (Some p, s')"
  then show ?thesis using pga.holds_alloc [OF assms(2)] by simp
next
  fix order assume n: "L' = L" "order < FREELIST_LEVELS" "bmk_pgalloc s order = Inr (None, s')"
  moreover have "pg_inv s" using assms(2) by (simp add: pga.holds_def)
  ultimately have "s' = s" using pga.alloc_law [of s order] by auto
  then show ?thesis using assms(2) n(1) by simp
next
  fix ch assume w: "s' = s\<lparr>chunks := ch\<rparr>" "L = L'"
    "\<And>a. \<forall>b \<in> set L'. a \<notin> region b \<Longrightarrow> ch a = chunks s a"
  have inv: "pg_inv s" using assms(2) by (simp add: pga.holds_def)
  have "\<forall>b \<in> set L. a \<notin> region b" if "a \<in> free_set s" for a
    using pga.holds_block(2) [OF assms(2)] that by blast
  then have "ch a = chunks s a" if "a \<in> free_set s" for a using w(2,3) that by blast
  note c = chunks_change [OF inv this]
  show ?thesis using assms(2) c unfolding pga.holds_def w(1,2) by simp
next
  fix p order assume g: "L' = remove1 (p, order) L" "(p, order) \<in> set L" "bmk_pgfree s p order = Inr s'"
  show ?thesis by (rule pga.holds_free [OF assms(2) g(2)]) (use g in simp)
qed

lemma pg_steps_holds:
  assumes "pg_step\<^sup>*\<^sup>* x y" "pga.holds (fst x) (snd x)"
  shows "pga.holds (fst y) (snd y)"
  using assms
proof (induction rule: rtranclp_induct)
  case (step y z)
  then show ?case using pg_step_holds [of "fst y" "snd y" "fst z" "snd z"] by simp
qed simp

text \<open>
  C2. However a client interleaves allocations, writes to what it holds, and frees, the
  blocks it holds are always pairwise disjoint, inside the managed memory and disjoint from
  the free memory, together they are exactly what is missing from the free memory, giving any
  of them back cannot fault, and once it holds nothing all of the memory is free again.
\<close>

theorem pgalloc_client_run:
  assumes "pg_inv s0" "free_set s0 = managed_set s0" "pg_step\<^sup>*\<^sup>* (s0, []) (s, L)"
  shows "pg_inv s \<and> (\<forall>b \<in> set L. \<forall>c \<in> set L. b \<noteq> c \<longrightarrow> region b \<inter> region c = {}) \<and>
    managed_set s - free_set s = (\<Union>b \<in> set L. region b) \<and>
    (\<forall>b \<in> set L. is_ok (bmk_pgfree s (fst b) (snd b))) \<and> (L = [] \<longrightarrow> free_set s = managed_set s)"
proof -
  have "pga.holds s0 []" using assms(1,2) by (simp add: pga.holds_def)
  then have h: "pga.holds s L" using pg_steps_holds [OF assms(3)] by simp
  have ok: "\<forall>b \<in> set L. is_ok (bmk_pgfree s (fst b) (snd b))"
  proof
    fix b assume "b \<in> set L"
    then have "(fst b, snd b) \<in> set L" by simp
    then show "is_ok (bmk_pgfree s (fst b) (snd b))"
      by (rule pga.holds_free [OF h]) (simp add: is_ok_def)
  qed
  show ?thesis
  proof (intro conjI impI)
    show "\<forall>b \<in> set L. is_ok (bmk_pgfree s (fst b) (snd b))" by (rule ok)
    show "free_set s = managed_set s" if "L = []"
      using h unfolding that by (rule pga.holds_nothing)
    show "pg_inv s" using h by (simp only: pga.holds_def)
    show "\<forall>b \<in> set L. \<forall>c \<in> set L. b \<noteq> c \<longrightarrow> region b \<inter> region c = {}"
      using h unfolding pga.holds_def by (elim conjE)
    show "managed_set s - free_set s = (\<Union>b \<in> set L. region b)"
      using h unfolding pga.holds_def by (elim conjE)
  qed
qed

theorem pgalloc_client_run_witness:
  "pg_step\<^sup>*\<^sup>* (boot_state, []) (snd one_page_state, [(fst one_page_state, 0)]) \<and>
   managed_set (snd one_page_state) - free_set (snd one_page_state) = region (fst one_page_state, 0)"
proof -
  have st: "pg_step\<^sup>*\<^sup>* (boot_state, []) (snd one_page_state, [(fst one_page_state, 0)])"
    using pg_step.alloc_some [OF _ one_page_state_facts(1)] by auto
  have "managed_set (snd one_page_state) - free_set (snd one_page_state) =
      (\<Union>b \<in> set [(fst one_page_state, 0)]. region b)"
    using pgalloc_client_run [OF boot_state_inv(1) _ st] boot_state_inv(2,3) by blast
  then show ?thesis using st by simp
qed

section \<open>Statistics and debugging aids\<close>

text \<open>The free memory, counted list by list.\<close>

lemma card_level:
  assumes "lists_ok s"
  shows "card (\<Union>a \<in> set (freelist s l). blk l a) = length (freelist s l) * order2size l"
proof -
  have "card (\<Union>a \<in> set (freelist s l). blk l a) = (\<Sum>a \<in> set (freelist s l). card (blk l a))"
    using lists_okD(3) [OF assms] by (intro card_UN_disjoint) (auto simp: finite_blk)
  then show ?thesis using lists_okD(1) [OF assms] by (simp add: card_blk distinct_card)
qed

lemma card_free_set:
  assumes "lists_ok s"
  shows "card (free_set s) = (\<Sum>l \<in> {0..<FREELIST_LEVELS}. length (freelist s l) * order2size l)"
proof -
  have "l < FREELIST_LEVELS" if "a \<in> set (freelist s l)" for l a
    using lists_okD(2) [OF assms that] by (simp add: chunk_ok_def)
  then have "free_set s = (\<Union>l \<in> {0..<FREELIST_LEVELS}. \<Union>a \<in> set (freelist s l). blk l a)"
    unfolding free_set_def by (fastforce simp del: atLeastLessThan_iff simp: atLeast0LessThan)
  also have "card \<dots> = (\<Sum>l \<in> {0..<FREELIST_LEVELS}. card (\<Union>a \<in> set (freelist s l). blk l a))"
    using lists_okD(3) [OF assms] by (intro card_UN_disjoint) (auto simp: finite_blk)
  finally show ?thesis by (simp only: card_level [OF assms])
qed

lemma dumpstats_levels_ok:
  assumes "\<And>l. l \<in> set ls \<Longrightarrow> freelist s l \<noteq> [] \<Longrightarrow> r \<noteq> 0"
    "\<And>l. l \<in> set ls \<Longrightarrow> length (freelist s l) * drop_bit 10 (order2size l) < 2 ^ 64"
  shows "\<exists>lines. dumpstats_levels s r ls = Inr lines \<and>
    sum_list (map (\<lambda>(kb, n, has, pc). has) lines) =
      sum_list (map (\<lambda>l. length (freelist s l) * drop_bit 10 (order2size l)) ls)"
  using assms
proof (induction ls)
  case (Cons l ls)
  then obtain lines where "dumpstats_levels s r ls = Inr lines"
    "sum_list (map (\<lambda>(kb, n, has, pc). has) lines) =
      sum_list (map (\<lambda>l. length (freelist s l) * drop_bit 10 (order2size l)) ls)" by auto
  then show ?case
    using Cons.prems(1,2) [of l]
    by (simp add: dumpstats_level_def Let_def wrap64_def)
qed simp

text \<open>
  \<open>bmk_pgalloc_dumpstats\<close> is consistent with the allocator's state: on any state that
  satisfies the invariant it does not divide by zero, even when nothing is left, the remaining
  kilobytes it prints are exactly the free bytes, and the per-level figures add up to them.
\<close>

lemma bmk_pgalloc_dumpstats_correct:
  assumes "pg_inv s"
  shows "\<exists>used lines. bmk_pgalloc_dumpstats s =
      Inr ((card (managed_set s) div 1024, used, card (free_set s) div 1024), lines) \<and>
    sum_list (map (\<lambda>(kb, n, has, pc). has) lines) = card (free_set s) div 1024"
proof -
  have h: "geom s" "lists_ok s" and acc: "accounts s"
    using assms unfolding pg_inv_def hole_inv_def by simp_all
  let ?kb = "\<lambda>l. length (freelist s l) * drop_bit 10 (order2size l)"
  have kb: "?kb l * 1024 = length (freelist s l) * order2size l" for l
    using drop_bit_10 [of l] by (simp add: mult.assoc)
  define F where "F = (\<Sum>l \<in> {0..<FREELIST_LEVELS}. ?kb l)"
  have "card (free_set s) = F * 1024"
    unfolding card_free_set [OF h(2)] F_def kb [symmetric] by (rule sum_distrib_right [symmetric])
  then have F: "card (free_set s) div 1024 = F" "pgalloc_totalkb s = pgalloc_usedkb s + F"
    "pgalloc_totalkb s * 1024 = card (managed_set s)"
    using acc by (simp_all add: accounts_def card_managed)
  have "pgalloc_totalkb s * 1024 < 2 ^ 64"
    using F(3) h(1) by (auto simp: card_managed geom_def)
  then have rem: "sub64 (pgalloc_totalkb s) (pgalloc_usedkb s) = F"
    using F(2) by (subst sub64_diff) auto
  have tot: "card (managed_set s) div 1024 = pgalloc_totalkb s" unfolding F(3) [symmetric] by simp
  have le: "?kb l \<le> F" if "l \<in> set [0..<FREELIST_LEVELS]" for l
    unfolding F_def using that by (intro member_le_sum) (simp_all only: set_upt finite_atLeastLessThan le0)
  have bound: "?kb l < 2 ^ 64" if "l \<in> set [0..<FREELIST_LEVELS]" for l
    using le [OF that] F(2) \<open>pgalloc_totalkb s * 1024 < 2 ^ 64\<close> by linarith
  have nz: "F \<noteq> 0" if "l \<in> set [0..<FREELIST_LEVELS]" "freelist s l \<noteq> []" for l
  proof -
    have "drop_bit 10 (order2size l) \<noteq> 0" using drop_bit_10 [of l] order2size_pos(2) [of l] by (metis mult_0)
    then have "?kb l \<noteq> 0" using that(2) by simp
    then show ?thesis using le [OF that(1)] by linarith
  qed
  have sum: "sum_list (map ?kb [0..<FREELIST_LEVELS]) = F"
    unfolding F_def by (simp only: sum_list_distinct_conv_sum_set distinct_upt set_upt)
  have "\<exists>lines. dumpstats_levels s F [0..<FREELIST_LEVELS] = Inr lines \<and>
      sum_list (map (\<lambda>(kb, n, has, pc). has) lines) = sum_list (map ?kb [0..<FREELIST_LEVELS])"
    by (rule dumpstats_levels_ok) (erule (1) nz, erule bound)
  then obtain lines where "dumpstats_levels s F [0..<FREELIST_LEVELS] = Inr lines"
    "sum_list (map (\<lambda>(kb, n, has, pc). has) lines) = F" unfolding sum by blast
  then show ?thesis
    unfolding bmk_pgalloc_dumpstats_def rem F(1) tot Let_def by (simp del: upt_rec_numeral)
qed

lemma bmk_pgalloc_dumpstats_correct_example:
  "\<exists>used lines. bmk_pgalloc_dumpstats boot_state = Inr ((116, used, 116), lines) \<and>
    sum_list (map (\<lambda>(kb, n, has, pc). has) lines) = 116"
  using bmk_pgalloc_dumpstats_correct [OF boot_state_inv(1)] unfolding boot_state_inv by simp





end
