(* ===== verification/MemallocInv.thy ===== *)
theory MemallocInv
  imports Memalloc PgallocIface "HOL-Library.Multiset"
begin

text \<open>
  The invariant of the general-purpose allocator. Its blocks, those on the bucket lists and
  those under the live allocations, form a multiset; no byte lies in two of them and every
  byte of them is in memory taken from the page allocator. The lemmas say how splitting a
  page, moving a block between a bucket and the live allocations, and taking and returning
  whole page blocks change that multiset.
\<close>

section \<open>Bucket sizes\<close>

lemma bucket_of_bounds:
  assumes "n < 2 ^ 63"
  shows "n \<le> 2 ^ (bucket_of n + 5)" "bucket_of n \<le> 58" "0 < bucket_of n \<Longrightarrow> 2 ^ (bucket_of n + 4) < n"
proof -
  have "n \<le> 2 ^ (bucket_of n + 5) \<and> bucket_of n \<le> 58 \<and> (0 < bucket_of n \<longrightarrow> 2 ^ (bucket_of n + 4) < n)"
  proof (cases "n < 2 ^ 5")
    case True
    then show ?thesis by (simp add: bucket_of_def)
  next
    case False
    define t where "t = top_bit n"
    have n0: "0 < n" using False by simp
    have lo: "2 ^ t \<le> n" unfolding t_def using n0 by (rule top_bit_le)
    have hi: "n < 2 ^ Suc t" using top_bit_ge [OF n0, of "Suc t"] by (simp add: t_def not_le)
    have t5: "5 \<le> t" using False top_bit_ge [OF n0, of 5] by (simp add: t_def)
    have "(2::nat) ^ t < 2 ^ 63" using lo assms by (rule le_less_trans)
    then have "t < 63" by (rule power_less_imp_less_exp [rotated]) simp
    have k0: "0 < n div 2 ^ 5" using False by (simp add: div_greater_zero_iff)
    have "top_bit (n div 2 ^ 5) = t - 5"
    proof (rule antisym)
      have "2 ^ (top_bit (n div 2 ^ 5) + 5) \<le> n"
        using top_bit_le [OF k0] by (simp add: power_add less_eq_div_iff_mult_less_eq)
      then show "top_bit (n div 2 ^ 5) \<le> t - 5" using top_bit_ge [OF n0] t_def by fastforce
      have "2 ^ (t - 5) * 2 ^ 5 \<le> n" using lo t5 by (simp add: power_add [symmetric] del: power_numeral)
      then have "2 ^ (t - 5) \<le> n div 2 ^ 5" by (simp add: less_eq_div_iff_mult_less_eq)
      then show "t - 5 \<le> top_bit (n div 2 ^ 5)" using top_bit_ge [OF k0] by blast
    qed
    then have b: "bucket_of n = (if n AND (n - 1) = 0 then t - 5 else t - 4)"
      using False t5 \<open>t < 63\<close>
      by (simp add: bucket_of_def builtin_clzl_def drop_bit_eq_div Let_def)
    show ?thesis
    proof (cases "n AND (n - 1) = 0")
      case True
      then obtain k where k: "n = 2 ^ k" using pow2_of_and [OF n0] by blast
      then have "k = t" using lo hi
        by (metis le_less_Suc_eq power_less_imp_less_exp power_le_imp_le_exp one_less_numeral_iff semiring_norm(76))
      then show ?thesis using b True t5 \<open>t < 63\<close> k by simp
    next
      case False
      have "n \<noteq> 2 ^ t"
      proof
        assume "n = 2 ^ t"
        moreover have "2 ^ t AND (2 ^ t - 1) = (2 ^ t mod 2 ^ t :: nat)"
          by (simp only: take_bit_eq_mod [symmetric] take_bit_eq_mask mask_eq_exp_minus_1)
        ultimately have "n AND (n - 1) = 0" by simp
        with False show False by simp
      qed
      then show ?thesis using b False t5 \<open>t < 63\<close> lo hi by (simp add: Suc_diff_le [symmetric])
    qed
  qed
  then show "n \<le> 2 ^ (bucket_of n + 5)" "bucket_of n \<le> 58"
    "0 < bucket_of n \<Longrightarrow> 2 ^ (bucket_of n + 4) < n" by blast+
qed

section \<open>Headers in memory\<close>

lemma load_hdr_cong:
  assumes "\<And>a. p \<le> a \<Longrightarrow> a < p + 8 \<Longrightarrow> m a = m' a"
  shows "load_hdr m p = load_hdr m' p"
  using assms by (simp add: load_hdr_def)

lemma unat_byte: "unat (of_nat n :: u8) = n mod 256"
  by (simp add: unat_of_nat)

text \<open>A number below \<open>256 ^ 2\<close> or \<open>256 ^ 4\<close> from its bytes, in base \<open>k\<close>.\<close>

lemma two_digits: "n < k * k \<Longrightarrow> n mod k + k * (n div k mod k) = (n :: nat)"
  by (simp add: less_mult_imp_div_less)

lemma four_digits:
  fixes n k :: nat
  assumes "n < k * k * (k * k)"
  shows "n mod k + k * (n div k mod k) + k * k * (n div (k * k) mod k) +
    k * k * k * (n div (k * k * k) mod k) = n"
proof -
  have "n mod (k * k) = k * (n div k mod k) + n mod k" by (rule mod_mult2_eq)
  moreover have "n div (k * k) < k * k" using assms by (rule less_mult_imp_div_less)
  then have "n div (k * k) mod k + k * (n div (k * k * k) mod k) = n div (k * k)"
    using two_digits [of "n div (k * k)" k] by (simp only: div_mult2_eq)
  then have "k * k * (n div (k * k)) =
      k * k * (n div (k * k) mod k) + k * k * k * (n div (k * k * k) mod k)"
    by (metis distrib_left mult.assoc)
  moreover have "n mod (k * k) + k * k * (n div (k * k)) = n" by (rule mod_mult_div_eq)
  ultimately show ?thesis by linarith
qed

lemma le_bytes_16: "(n::nat) < 2 ^ 16 \<Longrightarrow> n mod 256 + 256 * (n div 256 mod 256) = n"
  using two_digits [of n 256] by simp

lemma le_bytes_32:
  "(n::nat) < 2 ^ 32 \<Longrightarrow> n mod 256 + 256 * (n div 256 mod 256) + 65536 * (n div 65536 mod 256) +
    16777216 * (n div 16777216 mod 256) = n"
  using four_digits [of n 256] by simp

lemma load_store_hdr:
  assumes "mh_alignpad h < 2 ^ 32" "mh_magic h < 2 ^ 16" "mh_index h < 2 ^ 8" "mh_who h < 2 ^ 8"
  shows "load_hdr (store_hdr m p h) p = h"
  using assms le_bytes_16 [of "mh_magic h"] le_bytes_32 [of "mh_alignpad h"]
  by (cases h) (simp add: load_hdr_def store_hdr_def unat_byte)

lemma store_hdr_outside: "a < p \<or> p + 8 \<le> a \<Longrightarrow> store_hdr m p h a = m a"
  by (elim disjE) (simp_all add: store_hdr_def)

section \<open>Blocks\<close>

definition mblk :: "nat \<times> nat \<Rightarrow> nat set" where
  "mblk x = {fst x..<fst x + 2 ^ (snd x + MINSHIFT)}"

definition cover :: "(nat \<times> nat) multiset \<Rightarrow> nat \<Rightarrow> nat" where
  "cover M p = size {# x \<in># M. p \<in> mblk x #}"

text \<open>The bytes a multiset of blocks may use: those taken from the page allocator, each once.\<close>

definition quota :: "pgstate \<Rightarrow> nat \<Rightarrow> nat" where
  "quota pg p = (if p \<in> managed_set pg - free_set pg then 1 else 0)"

definition blocks_ok :: "pgstate \<Rightarrow> (nat \<times> nat) multiset \<Rightarrow> bool" where
  "blocks_ok pg M \<longleftrightarrow> (\<forall>x \<in># M. snd x \<le> 58 \<and> 2 ^ (snd x + MINSHIFT) dvd fst x) \<and>
     (\<forall>p. cover M p \<le> quota pg p)"

lemma cover_simps [simp]:
  "cover {#} p = 0"
  "cover (add_mset x M) p = (if p \<in> mblk x then 1 else 0) + cover M p"
  "cover (M + N) p = cover M p + cover N p"
  by (simp_all add: cover_def)

lemma cover_pos: "x \<in># M \<Longrightarrow> p \<in> mblk x \<Longrightarrow> 0 < cover M p"
  by (auto dest!: multi_member_split)

lemma blocks_ok_member:
  assumes "blocks_ok pg M" "x \<in># M"
  shows "snd x \<le> 58" "2 ^ (snd x + MINSHIFT) dvd fst x" "mblk x \<subseteq> managed_set pg - free_set pg"
proof -
  show "snd x \<le> 58" "2 ^ (snd x + MINSHIFT) dvd fst x" using assms by (simp_all add: blocks_ok_def)
  show "mblk x \<subseteq> managed_set pg - free_set pg"
  proof
    fix p assume "p \<in> mblk x"
    then have "0 < cover M p" using cover_pos assms(2) by blast
    also have "\<dots> \<le> quota pg p" using assms(1) by (simp add: blocks_ok_def)
    finally show "p \<in> managed_set pg - free_set pg" by (simp add: quota_def split: if_splits)
  qed
qed

lemma blocks_ok_disjoint:
  assumes "blocks_ok pg (add_mset x M)" "y \<in># M"
  shows "mblk x \<inter> mblk y = {}"
proof -
  have False if "p \<in> mblk x" "p \<in> mblk y" for p
  proof -
    have "cover (add_mset x M) p \<le> quota pg p" using assms(1) by (simp add: blocks_ok_def)
    moreover have "0 < cover M p" using cover_pos [OF assms(2) that(2)] .
    ultimately show False using that(1) by (simp add: quota_def split: if_splits)
  qed
  then show ?thesis by blast
qed

lemma mblk_head: "fst x \<in> mblk x"
  by (simp add: mblk_def)

lemma blk_mblk: "blk order p = mblk (p, order + 7)"
  by (simp add: blk_def mblk_def order2size_def add.commute [of 12])

section \<open>The invariant\<close>

definition bucket_list :: "nat \<Rightarrow> nat list \<Rightarrow> (nat \<times> nat) multiset" where
  "bucket_list b xs = image_mset (\<lambda>a. (a, b)) (mset xs)"

definition bucket_blocks :: "(nat \<Rightarrow> nat list) \<Rightarrow> (nat \<times> nat) multiset" where
  "bucket_blocks f = (\<Sum>b \<in> {..<LOCALBUCKETS}. bucket_list b (f b))"

definition own :: "mstate \<Rightarrow> nat \<Rightarrow> nat \<times> nat" where
  "own s rv = (rv - mh_alignpad (hdr_at s rv), mh_index (hdr_at s rv))"

definition live_blocks :: "mstate \<Rightarrow> nat list \<Rightarrow> (nat \<times> nat) multiset" where
  "live_blocks s L = image_mset (own s) (mset L)"

definition hdr_ok :: "memalloc_hdr \<Rightarrow> nat \<Rightarrow> bool" where
  "hdr_ok h rv \<longleftrightarrow> mh_magic h = MAGIC \<and> mh_who h \<le> 2 \<and> MINALIGN \<le> mh_alignpad h \<and>
     mh_alignpad h \<le> rv \<and> mh_alignpad h \<le> 2 ^ (mh_index h + MINSHIFT)"

definition live_in :: "mstate \<Rightarrow> nat list \<Rightarrow> nat \<Rightarrow> nat" where
  "live_in s L b = length (filter (\<lambda>rv. mh_index (hdr_at s rv) = b) L)"

text \<open>
  The invariant for the live allocations \<open>L\<close>, with the multiset \<open>X\<close> of the blocks that an
  operation in progress has in its hands and the counts \<open>c\<close> that it owes to \<open>nmalloc\<close>.
\<close>

definition mem_hole :: "mstate \<Rightarrow> nat list \<Rightarrow> (nat \<times> nat) multiset \<Rightarrow> (nat \<Rightarrow> u32) \<Rightarrow> bool" where
  "mem_hole s L X c \<longleftrightarrow> pg_inv (mpg s) \<and> (\<forall>rv \<in> set L. hdr_ok (hdr_at s rv) rv) \<and>
     blocks_ok (mpg s) (X + (live_blocks s L + bucket_blocks (freebuckets s))) \<and>
     (\<forall>b < LOCALBUCKETS. nmalloc s b = of_nat (live_in s L b) + c b)"

text \<open>
  Between operations nothing is owed. \<open>X\<close> are then the page blocks that others have taken
  directly from the page allocator, such as thread stacks.
\<close>

definition mem_holds :: "mstate \<Rightarrow> nat list \<Rightarrow> (nat \<times> nat) multiset \<Rightarrow> bool" where
  "mem_holds s L X \<longleftrightarrow> mem_hole s L X (\<lambda>_. 0)"

abbreviation mem_inv :: "mstate \<Rightarrow> nat list \<Rightarrow> bool" where
  "mem_inv s L \<equiv> mem_holds s L {#}"

definition user_region :: "mstate \<Rightarrow> nat \<Rightarrow> nat set" where
  "user_region s rv = {rv..<fst (own s rv) + 2 ^ (snd (own s rv) + MINSHIFT)}"

lemma bucket_list_simps [simp]:
  "bucket_list b [] = {#}"
  "bucket_list b (x # xs) = add_mset (x, b) (bucket_list b xs)"
  "bucket_list b (xs @ ys) = bucket_list b xs + bucket_list b ys"
  by (simp_all add: bucket_list_def)

lemma bucket_blocks_upd:
  assumes "b < LOCALBUCKETS"
  shows "bucket_blocks (f(b := xs)) + bucket_list b (f b) = bucket_blocks f + bucket_list b xs"
proof -
  have r: "bucket_blocks g = bucket_list b (g b) + (\<Sum>i \<in> {..<LOCALBUCKETS} - {b}. bucket_list i (g i))" for g
    unfolding bucket_blocks_def using assms by (subst sum.remove [of _ b]) auto
  have "(\<Sum>i \<in> {..<LOCALBUCKETS} - {b}. bucket_list i ((f(b := xs)) i)) =
      (\<Sum>i \<in> {..<LOCALBUCKETS} - {b}. bucket_list i (f i))"
    by (rule sum.cong) auto
  then show ?thesis by (subst (1 2) r) (simp add: ac_simps)
qed

lemma bucket_blocks_push:
  assumes "b < LOCALBUCKETS"
  shows "bucket_blocks (f(b := xs @ f b)) = bucket_list b xs + bucket_blocks f"
  using bucket_blocks_upd [OF assms, of f "xs @ f b"] by (simp add: ac_simps)

lemma live_blocks_Cons [simp]: "live_blocks s (rv # L) = add_mset (own s rv) (live_blocks s L)"
  by (simp add: live_blocks_def)

section \<open>Frames\<close>

lemma hdr_at_fields [simp]:
  "hdr_at (s\<lparr>mpg := pg\<rparr>) = hdr_at s" "hdr_at (s\<lparr>freebuckets := f\<rparr>) = hdr_at s"
  "hdr_at (s\<lparr>nmalloc := n\<rparr>) = hdr_at s"
  by (simp_all add: hdr_at_def fun_eq_iff)

lemma live_cong:
  assumes "\<And>rv. rv \<in> set L \<Longrightarrow> hdr_at s' rv = hdr_at s rv"
  shows "live_blocks s' L = live_blocks s L" "live_in s' L b = live_in s L b"
proof -
  show "live_blocks s' L = live_blocks s L"
    unfolding live_blocks_def by (rule image_mset_cong) (use assms in \<open>simp add: own_def\<close>)
  show "live_in s' L b = live_in s L b"
    unfolding live_in_def by (rule arg_cong [where f = length], rule filter_cong) (use assms in simp_all)
qed

lemma live_fields [simp]:
  "live_blocks (s\<lparr>mpg := pg\<rparr>) L = live_blocks s L" "live_in (s\<lparr>mpg := pg\<rparr>) L b = live_in s L b"
  "live_blocks (s\<lparr>freebuckets := f\<rparr>) L = live_blocks s L"
  "live_in (s\<lparr>freebuckets := f\<rparr>) L b = live_in s L b"
  "live_blocks (s\<lparr>nmalloc := n\<rparr>) L = live_blocks s L" "live_in (s\<lparr>nmalloc := n\<rparr>) L b = live_in s L b"
  by (rule live_cong, simp)+

lemma mem_hole_live:
  assumes "mem_hole s L X c" "rv \<in> set L"
  shows "hdr_ok (hdr_at s rv) rv" "rv < 2 ^ 64" "{rv - 8..<rv} \<subseteq> mblk (own s rv)"
    "own s rv \<in># live_blocks s L" "user_region s rv \<subseteq> mblk (own s rv)"
proof -
  let ?h = "hdr_at s rv"
  show h: "hdr_ok ?h rv" using assms by (simp add: mem_hole_def)
  show o: "own s rv \<in># live_blocks s L" using assms(2) by (auto simp: live_blocks_def)
  show sub: "{rv - 8..<rv} \<subseteq> mblk (own s rv)" "user_region s rv \<subseteq> mblk (own s rv)"
    using h by (auto simp: hdr_ok_def own_def mblk_def user_region_def)
  have pos: "8 \<le> rv" using h by (simp add: hdr_ok_def)
  then have "rv - 1 \<in> {rv - 8..<rv}" by simp
  then have "rv - 1 \<in> mblk (own s rv)" using sub(1) by blast
  moreover have "own s rv \<in># X + (live_blocks s L + bucket_blocks (freebuckets s))" using o by simp
  moreover have i: "pg_inv (mpg s)" "blocks_ok (mpg s) (X + (live_blocks s L + bucket_blocks (freebuckets s)))"
    using assms(1) by (simp_all only: mem_hole_def)
  ultimately have "rv - 1 \<in> managed_set (mpg s)" using blocks_ok_member(3) by blast
  then have "Suc (rv - 1) < 2 ^ 64" using pga.managed_pos [OF i(1)] by blast
  moreover have "Suc (rv - 1) = rv" using pos by simp
  ultimately show "rv < 2 ^ 64" by simp
qed

lemma hdr_at_frame:
  assumes "8 \<le> rv" "rv < 2 ^ 64" "\<And>a. rv - 8 \<le> a \<Longrightarrow> a < rv \<Longrightarrow> m a = cells s a"
  shows "hdr_at (s\<lparr>cells := m\<rparr>) rv = hdr_at s rv"
  unfolding hdr_at_def sub64_diff [OF assms(1,2)]
  by (rule load_hdr_cong) (use assms in simp)

lemma mem_hole_hdr_frame:
  assumes "mem_hole s L X c" "rv \<in> set L" "\<And>a. rv - 8 \<le> a \<Longrightarrow> a < rv \<Longrightarrow> m a = cells s a"
  shows "hdr_at (s\<lparr>cells := m\<rparr>) rv = hdr_at s rv"
  using mem_hole_live [OF assms(1,2)] assms(3) by (intro hdr_at_frame) (auto simp: hdr_ok_def)

lemma mem_hole_cells:
  assumes "mem_hole s L X c" "\<And>rv a. rv \<in> set L \<Longrightarrow> rv - 8 \<le> a \<Longrightarrow> a < rv \<Longrightarrow> m a = cells s a"
  shows "mem_hole (s\<lparr>cells := m\<rparr>) L X c"
proof -
  have h: "hdr_at (s\<lparr>cells := m\<rparr>) rv = hdr_at s rv" if "rv \<in> set L" for rv
    using mem_hole_hdr_frame [OF assms(1) that] assms(2) that by blast
  show ?thesis
    using assms(1) live_cong [of L "s\<lparr>cells := m\<rparr>" s, OF h] h by (simp add: mem_hole_def)
qed

section \<open>Splitting a page\<close>

lemma morecore_blocks_eq:
  "p + n * sz < 2 ^ 64 \<Longrightarrow>
    morecore_blocks p sz n fl = rev (map (\<lambda>i. p + Suc i * sz) [0..<n]) @ fl"
proof (induction n arbitrary: p fl)
  case (Suc n)
  have w: "wrap64 (p + sz) = p + sz" using Suc.prems by (simp add: wrap64_def)
  have "map (\<lambda>i. p + Suc i * sz) [0..<Suc n] = (p + sz) # map (\<lambda>i. p + sz + Suc i * sz) [0..<n]"
    by (simp only: upt_conv_Cons [of 0 "Suc n"] map_Suc_upt [symmetric] list.map map_map zero_less_Suc)
       (simp add: comp_def algebra_simps)
  moreover have "p + sz + n * sz < 2 ^ 64" using Suc.prems by (simp add: algebra_simps)
  ultimately show ?case using Suc.IH [of "p + sz"] by (simp only: morecore_blocks.simps w) simp
qed simp

lemma cover_split:
  "cover (bucket_list b (map (\<lambda>i. p + i * 2 ^ (b + MINSHIFT)) [0..<n])) x =
    (if p \<le> x \<and> x < p + n * 2 ^ (b + MINSHIFT) then 1 else 0)"
  by (induction n) (auto simp: mblk_def algebra_simps)

end
