(* ===== verification/MemallocCorrect.thy ===== *)
theory MemallocCorrect
  imports MemallocInv
begin

text \<open>
  Correctness of the general-purpose allocator over the interface of the page allocator:
  each entry point keeps the invariant, allocations are aligned, large enough and disjoint,
  release returns the block, and reallocation keeps the contents.
\<close>

section \<open>Blocks taken from and returned to the page allocator\<close>

lemma blocks_ok_grow:
  assumes ok: "blocks_ok pg M" and B: "B \<subseteq> free_set pg" "free_set pg \<subseteq> managed_set pg"
    and pg': "free_set pg' = free_set pg - B" "managed_set pg' = managed_set pg"
    and N: "\<forall>x \<in># N. snd x \<le> 58 \<and> 2 ^ (snd x + MINSHIFT) dvd fst x"
      "\<And>p. cover N p = (if p \<in> B then 1 else 0)"
  shows "blocks_ok pg' (N + M)"
proof -
  have "cover (N + M) p \<le> quota pg' p" for p
  proof -
    have "cover M p \<le> quota pg p" using ok by (simp only: blocks_ok_def)
    moreover have "quota pg' p = (if p \<in> B then 1 else 0) + quota pg p"
      using B by (auto simp: quota_def pg')
    ultimately show ?thesis by (simp add: N(2))
  qed
  then show ?thesis using ok N(1) unfolding blocks_ok_def by auto
qed

lemma blocks_ok_shrink:
  assumes ok: "blocks_ok pg (add_mset x M)"
    and pg': "free_set pg' = free_set pg \<union> mblk x" "managed_set pg' = managed_set pg"
  shows "blocks_ok pg' M"
proof -
  have "cover M p \<le> quota pg' p" for p
  proof -
    have "cover (add_mset x M) p \<le> quota pg p" using ok by (simp only: blocks_ok_def)
    moreover have "quota pg' p = (if p \<in> mblk x then 0 else quota pg p)" by (simp add: quota_def pg')
    moreover have "quota pg p \<le> 1" by (simp add: quota_def)
    ultimately show ?thesis by (auto split: if_splits)
  qed
  then show ?thesis using ok unfolding blocks_ok_def by auto
qed

lemma pgalloc_block:
  assumes inv: "pg_inv pg" and o: "order < FREELIST_LEVELS"
  obtains "bmk_pgalloc pg order = Inr (None, pg)"
  | p pg' where "bmk_pgalloc pg order = Inr (Some p, pg')" "pg_inv pg'" "order2size order dvd p"
      "blk order p \<subseteq> managed_set pg'"
      "\<And>M N. blocks_ok pg M \<Longrightarrow> \<forall>x \<in># N. snd x \<le> 58 \<and> 2 ^ (snd x + MINSHIFT) dvd fst x \<Longrightarrow>
        (\<And>q. cover N q = (if q \<in> blk order p then 1 else 0)) \<Longrightarrow> blocks_ok pg' (N + M)"
proof (cases "bmk_pgalloc pg order = Inr (None, pg)")
  case False
  with pga.alloc_law [OF inv o] obtain p pg' where p: "bmk_pgalloc pg order = Inr (Some p, pg')" "pg_inv pg'"
    "order2size order dvd p" "blk order p \<subseteq> free_set pg" "free_set pg' = free_set pg - blk order p"
    "managed_set pg' = managed_set pg" by blast
  have fm: "free_set pg \<subseteq> managed_set pg" using inv by (rule pga.avail_managed)
  show thesis
  proof (rule that(2) [OF p(1-3)])
    show "blk order p \<subseteq> managed_set pg'" using p(4,6) fm by simp
    show "blocks_ok pg' (N + M)" if "blocks_ok pg M"
      "\<forall>x \<in># N. snd x \<le> 58 \<and> 2 ^ (snd x + MINSHIFT) dvd fst x"
      "\<And>q. cover N q = (if q \<in> blk order p then 1 else 0)" for M N
      by (rule blocks_ok_grow [OF that(1) p(4) fm p(5,6) that(2,3)])
  qed
qed (rule that(1))

section \<open>Buckets\<close>

definition one_at :: "nat \<Rightarrow> nat \<Rightarrow> u32" where
  "one_at b i = (if i = b then 1 else 0)"

lemma page_blocks:
  assumes "b < LOCALBUCKETS"
  defines "n \<equiv> PAGE_SIZE div 2 ^ (b + MINSHIFT)"
  shows "1 < n" "n * 2 ^ (b + MINSHIFT) = PAGE_SIZE"
proof -
  have "b \<in> {0, 1, 2, 3, 4, 5, 6}" using assms(1) by auto
  then show "1 < n" "n * 2 ^ (b + MINSHIFT) = PAGE_SIZE" by (auto simp: n_def)
qed

lemma morecore_hole:
  assumes inv: "mem_holds s L X" and b: "b < LOCALBUCKETS"
  obtains "morecore s b = Inr (None, s)"
  | a s' where "morecore s b = Inr (Some a, s')" "mem_hole s' L (add_mset (a, b) X) (\<lambda>_. 0)" "cells s' = cells s"
proof -
  have pi: "pg_inv (mpg s)" and bo: "blocks_ok (mpg s) (X + (live_blocks s L + bucket_blocks (freebuckets s)))"
    using inv by (simp_all add: mem_holds_def mem_hole_def)
  define sz where "sz = (2::nat) ^ (b + MINSHIFT)"
  define n where "n = PAGE_SIZE div sz"
  have n: "1 < n" "n * sz = PAGE_SIZE" using page_blocks [OF b] by (simp_all add: n_def sz_def)
  have m: "morecore s b = bindR (bmk_pgalloc (mpg s) 0) (\<lambda>(p, pg).
      case p of None \<Rightarrow> Inr (None, s\<lparr>mpg := pg\<rparr>)
      | Some rv \<Rightarrow> Inr (Some rv, s\<lparr>mpg := pg, freebuckets := (freebuckets s)
          (b := morecore_blocks rv sz (n - 1) (freebuckets s b))\<rparr>))"
    using n(1) unfolding morecore_def Let_def sz_def [symmetric] n_def [symmetric] by simp
  have "(0::nat) < FREELIST_LEVELS" by simp
  from pi this show thesis
  proof (rule pgalloc_block)
    assume "bmk_pgalloc (mpg s) 0 = Inr (None, mpg s)"
    then show thesis using that(1) by (simp add: m)
  next
    fix p pg' assume p: "bmk_pgalloc (mpg s) 0 = Inr (Some p, pg')" "pg_inv pg'" "order2size 0 dvd p"
      "blk 0 p \<subseteq> managed_set pg'"
      and grow: "\<And>M N. blocks_ok (mpg s) M \<Longrightarrow> \<forall>x \<in># N. snd x \<le> 58 \<and> 2 ^ (snd x + MINSHIFT) dvd fst x \<Longrightarrow>
        (\<And>q. cover N q = (if q \<in> blk 0 p then 1 else 0)) \<Longrightarrow> blocks_ok pg' (N + M)"
    define xs where "xs = rev (map (\<lambda>i. p + Suc i * sz) [0..<n - 1])"
    have bl: "blk 0 p = {p..<p + n * sz}" by (simp add: blk_def order2size_def n(2))
    have "0 < sz" by (simp add: sz_def)
    then have "p + (n - 1) * sz \<in> blk 0 p" using n(1) unfolding bl by simp
    then have "p + (n - 1) * sz < 2 ^ 64"
      using p(4) pga.managed_pos [OF p(2)] by (blast dest: Suc_lessD)
    then have fl: "morecore_blocks p sz (n - 1) (freebuckets s b) = xs @ freebuckets s b"
      unfolding xs_def by (rule morecore_blocks_eq)
    define ys where "ys = map (\<lambda>i. p + i * sz) [0..<n]"
    have "ys = p # map (\<lambda>i. p + Suc i * sz) [0..<n - 1]"
      using n(1) unfolding ys_def by (intro nth_equalityI) (auto simp: nth_Cons split: nat.split)
    then have mset: "add_mset (p, b) (bucket_list b xs) = bucket_list b ys"
      by (simp add: bucket_list_def xs_def)
    have "blocks_ok pg' (bucket_list b ys + (X + (live_blocks s L + bucket_blocks (freebuckets s))))"
    proof (rule grow [OF bo])
      show "cover (bucket_list b ys) q = (if q \<in> blk 0 p then 1 else 0)" for q
        unfolding ys_def sz_def bl [unfolded sz_def] cover_split by simp
      have "order2size 0 = n * sz" by (simp add: order2size_def n(2))
      then have "sz dvd p" using p(3) dvd_trans [of sz "n * sz" p] by simp
      then show "\<forall>x \<in># bucket_list b ys. snd x \<le> 58 \<and> 2 ^ (snd x + MINSHIFT) dvd fst x"
        using b by (auto simp: bucket_list_def ys_def sz_def)
    qed
    then have "blocks_ok pg' (add_mset (p, b) (X + (live_blocks s L +
        bucket_blocks ((freebuckets s)(b := xs @ freebuckets s b)))))"
      unfolding bucket_blocks_push [OF b] mset [symmetric] by (simp add: ac_simps)
    then show thesis
      using that(2) [of p "s\<lparr>mpg := pg', freebuckets := (freebuckets s)(b := xs @ freebuckets s b)\<rparr>"]
        p(1,2) inv by (simp add: m fl [unfolded One_nat_def] mem_holds_def mem_hole_def)
  qed
qed

lemma bucketalloc_hole:
  assumes inv: "mem_holds s L X" and b: "b < LOCALBUCKETS"
  obtains "bucketalloc s b = Inr (None, s)"
  | a s' where "bucketalloc s b = Inr (Some a, s')" "mem_hole s' L (add_mset (a, b) X) (one_at b)" "cells s' = cells s"
proof (cases "freebuckets s b")
  case Nil
  from inv b show thesis
  proof (rule morecore_hole)
    assume "morecore s b = Inr (None, s)"
    then show thesis using that(1) Nil by (simp add: bucketalloc_def)
  next
    fix a s' assume m: "morecore s b = Inr (Some a, s')" "mem_hole s' L (add_mset (a, b) X) (\<lambda>_. 0)" "cells s' = cells s"
    have "mem_hole (s'\<lparr>nmalloc := (nmalloc s')(b := nmalloc s' b + 1)\<rparr>) L (add_mset (a, b) X) (one_at b)"
      using m(2) by (simp add: mem_hole_def one_at_def)
    then show thesis using that(2) m(1,3) Nil by (simp add: bucketalloc_def)
  qed
next
  case (Cons a rest)
  have "bucket_blocks (freebuckets s) = add_mset (a, b) (bucket_blocks ((freebuckets s)(b := rest)))"
    using bucket_blocks_upd [OF b, of "freebuckets s" rest] by (simp add: Cons)
  then have "mem_hole (s\<lparr>freebuckets := (freebuckets s)(b := rest), nmalloc := (nmalloc s)(b := nmalloc s b + 1)\<rparr>)
      L (add_mset (a, b) X) (one_at b)"
    using inv by (simp add: mem_holds_def mem_hole_def one_at_def)
  then show thesis using that(2) Cons by (simp add: bucketalloc_def)
qed

section \<open>Placing and removing a header\<close>

lemma aligned_after_header:
  fixes align hdr :: nat
  assumes "align dvd hdr" "MINALIGN \<le> align"
  shows "align_down (hdr + 8 + align - 1) align = hdr + align"
proof -
  obtain k where k: "hdr = align * k" using assms(1) by blast
  have "hdr + 8 + align - 1 = 7 + (k + 1) * align" using assms(2) by (simp add: k algebra_simps)
  moreover have "(7 + (k + 1) * align) div align = k + 1"
    using assms(2) by (subst div_mult_self1) simp_all
  ultimately have "align_down (hdr + 8 + align - 1) align = (k + 1) * align"
    by (simp only: align_down_def)
  then show ?thesis by (simp add: k algebra_simps)
qed

lemma place_header:
  assumes hole: "mem_hole s L (add_mset (a, b) X) (one_at b)" and al: "MINALIGN \<le> al" "al \<le> 2 ^ 31" "al \<le> 2 ^ (b + MINSHIFT)"
    and h: "h = \<lparr>mh_alignpad = al, mh_magic = MAGIC, mh_index = b, mh_who = memwho_val who\<rparr>"
  defines "s' \<equiv> s\<lparr>cells := store_hdr (cells s) (a + al - 8) h\<rparr>"
  shows "mem_holds s' ((a + al) # L) X" "hdr_at s' (a + al) = h" "own s' (a + al) = (a, b)"
    "\<And>rv. rv \<in> set L \<Longrightarrow> hdr_at s' rv = hdr_at s rv"
    "\<And>x. x < a + al - 8 \<or> a + al \<le> x \<Longrightarrow> cells s' x = cells s x"
proof -
  let ?M = "X + (live_blocks s L + bucket_blocks (freebuckets s))"
  have bo: "pg_inv (mpg s)" "blocks_ok (mpg s) (add_mset (a, b) ?M)"
    using hole by (simp_all add: mem_hole_def)
  have b58: "b \<le> 58" and sub: "mblk (a, b) \<subseteq> managed_set (mpg s)"
    using blocks_ok_member [OF bo(2), of "(a, b)"] by auto
  have "a + al - 1 \<in> mblk (a, b)" using al by (auto simp: mblk_def)
  then have "a + al - 1 \<in> managed_set (mpg s)" using sub by blast
  then have "Suc (a + al - 1) < 2 ^ 64" using pga.managed_pos [OF bo(1)] by blast
  moreover have "Suc (a + al - 1) = a + al" using al by simp
  ultimately have lt: "a + al < 2 ^ 64" by simp
  have sub8: "sub64 (a + al) 8 = a + al - 8" by (rule sub64_diff) (use al lt in simp_all)
  show out: "cells s' x = cells s x" if "x < a + al - 8 \<or> a + al \<le> x" for x
    unfolding s'_def using that al by (simp add: store_hdr_outside)
  have "memwho_val who \<le> 2" by (cases who) simp_all
  moreover have "al < 2 ^ 32" using al(2) by (rule le_less_trans) simp
  ultimately show hd: "hdr_at s' (a + al) = h"
    unfolding hdr_at_def sub8 s'_def using b58 by (simp add: load_store_hdr h)
  then show own: "own s' (a + al) = (a, b)" by (simp add: own_def h)
  have hin: "{a + al - 8..<a + al} \<subseteq> mblk (a, b)" using al by (auto simp: mblk_def)
  have fr: "cells s' x = cells s x" if "rv \<in> set L" "rv - 8 \<le> x" "x < rv" for rv x
  proof -
    have "x \<in> mblk (own s rv)" "own s rv \<in># ?M"
      using mem_hole_live(3,4) [OF hole that(1)] that(2,3) by auto
    then have "x \<notin> mblk (a, b)" using blocks_ok_disjoint [OF bo(2)] by blast
    then have "x \<notin> {a + al - 8..<a + al}" using hin by blast
    then show ?thesis by (intro out) auto
  qed
  show hl: "hdr_at s' rv = hdr_at s rv" if "rv \<in> set L" for rv
    unfolding s'_def
    by (rule mem_hole_hdr_frame [OF hole that]) (use fr [OF that] in \<open>simp add: s'_def\<close>)
  have m: "mem_hole s' L (add_mset (a, b) X) (one_at b)"
    unfolding s'_def by (rule mem_hole_cells [OF hole]) (use fr in \<open>simp add: s'_def\<close>)
  have "hdr_ok (hdr_at s' (a + al)) (a + al)"
    unfolding hd using al \<open>memwho_val who \<le> 2\<close> by (simp add: hdr_ok_def h)
  then show "mem_holds s' ((a + al) # L) X"
    using m own unfolding mem_holds_def mem_hole_def
    by (auto simp: live_in_def one_at_def hd h)
qed

lemma take_live:
  assumes inv: "mem_holds s L X" and rv: "rv \<in> set L"
  shows "mem_hole s (remove1 rv L) (add_mset (own s rv) X) (one_at (snd (own s rv)))"
proof -
  define K where "K = remove1 rv L"
  have m: "mset L = add_mset rv (mset K)" using rv by (simp add: K_def)
  have "live_blocks s L = add_mset (own s rv) (live_blocks s K)"
    unfolding live_blocks_def m by simp
  moreover have "live_in s L b = (if b = snd (own s rv) then 1 else 0) + live_in s K b" for b
  proof -
    have "live_in s J b = size (filter_mset (\<lambda>rv. mh_index (hdr_at s rv) = b) (mset J))" for J
      unfolding live_in_def size_mset [symmetric] mset_filter ..
    then show ?thesis unfolding m by (simp add: own_def m)
  qed
  moreover have "set K \<subseteq> set L" unfolding K_def by (rule set_remove1_subset)
  ultimately show ?thesis
    using inv unfolding mem_holds_def mem_hole_def K_def [symmetric] by (simp add: one_at_def subset_iff)
qed

section \<open>Allocation\<close>

lemma dvd_gap: "d dvd x \<Longrightarrow> d dvd y \<Longrightarrow> x < y \<Longrightarrow> x + d \<le> (y :: nat)"
  using dvd_imp_le [of d "y - x"] by (simp add: dvd_diff_nat)

lemma hole_block_end:
  assumes hole: "mem_hole s L (add_mset (a, b) X) c"
  shows "2 ^ (b + MINSHIFT) dvd a" "a + 2 ^ (b + MINSHIFT) + 32 \<le> 2 ^ 64"
proof -
  have bo: "pg_inv (mpg s)" "blocks_ok (mpg s) (add_mset (a, b) (X + (live_blocks s L + bucket_blocks (freebuckets s))))"
    using hole by (simp_all add: mem_hole_def)
  show d: "2 ^ (b + MINSHIFT) dvd a" using blocks_ok_member(2) [OF bo(2), of "(a, b)"] by simp
  have sub: "mblk (a, b) \<subseteq> managed_set (mpg s) - free_set (mpg s)"
    using blocks_ok_member(3) [OF bo(2), of "(a, b)"] by simp
  define sz where "sz = (2::nat) ^ (b + MINSHIFT)"
  have "0 < sz" by (simp add: sz_def)
  then have "a + sz - 1 \<in> mblk (a, b)" by (simp add: mblk_def flip: sz_def)
  then have "Suc (a + sz - 1) < 2 ^ 64" using sub pga.managed_pos [OF bo(1)] by blast
  then have "a + sz < 2 ^ 64" using \<open>0 < sz\<close> by simp
  moreover have "(2::nat) ^ 5 dvd sz" unfolding sz_def by (rule le_imp_power_dvd) simp
  moreover have "(2::nat) ^ 5 dvd 2 ^ 64" by (rule le_imp_power_dvd) simp
  ultimately have "a + sz + 2 ^ 5 \<le> 2 ^ 64"
    using d by (intro dvd_gap) (auto simp only: sz_def [symmetric] intro: dvd_add dvd_trans)
  then show "a + 2 ^ (b + MINSHIFT) + 32 \<le> 2 ^ 64" by (simp add: sz_def)
qed

text \<open>The last part of \<open>bmk_memalloc\<close>, for the block it has been given.\<close>

lemma finish_alloc:
  fixes who :: memwho and nbytes :: nat and s1 :: mstate
  assumes hole: "mem_hole s1 L (add_mset (a, b) X) (one_at b)" and same: "cells s1 = cells s"
    and al: "MINALIGN \<le> al" "al \<le> 2 ^ 31" "al = 2 ^ k" and fit: "nbytes + al \<le> 2 ^ (b + MINSHIFT)"
  defines "rv \<equiv> align_down (wrap64 (a + 8 + al - 1)) al"
  defines "s' \<equiv> s1\<lparr>cells := store_hdr (cells s1) (sub64 rv 8)
      \<lparr>mh_alignpad = sub64 rv a, mh_magic = MAGIC, mh_index = b, mh_who = memwho_val who\<rparr>\<rparr>"
  shows "mem_holds s' (rv # L) X" "al dvd rv" "{rv..<rv + nbytes} \<subseteq> user_region s' rv"
    "mh_who (hdr_at s' rv) = memwho_val who" "\<And>r. r \<in> set L \<Longrightarrow> hdr_at s' r = hdr_at s r"
    "\<And>x. x < rv - 8 \<or> rv \<le> x \<Longrightarrow> cells s' x = cells s x" "mh_index (hdr_at s' rv) = b"
proof -
  note e = hole_block_end [OF hole]
  have alb: "al \<le> 2 ^ (b + MINSHIFT)" using fit by simp
  then have "k \<le> b + MINSHIFT" unfolding al(3) by (rule power_le_imp_le_exp [rotated]) simp
  then have "al dvd a" using e(1) unfolding al(3) by (blast intro: dvd_trans le_imp_power_dvd)
  moreover have "a + 8 + al - 1 < 2 ^ 64"
    using e(2) alb by (rule_tac less_le_trans [of _ "a + 2 ^ (b + MINSHIFT) + 32"]) auto
  then have "wrap64 (a + 8 + al - 1) = a + 8 + al - 1" by (simp only: wrap64_def mod_less)
  ultimately have rv: "rv = a + al" using aligned_after_header [of al a] al(1) by (simp only: rv_def)
  have "a + al < 2 ^ 64" using e(2) alb by (rule_tac less_le_trans [of _ "a + 2 ^ (b + MINSHIFT) + 32"]) auto
  then have subs: "sub64 rv a = al" "sub64 rv 8 = a + al - 8"
    unfolding rv using al(1) sub64_diff [of a "a + al"] sub64_diff [of 8 "a + al"] by simp_all
  define h where "h = \<lparr>mh_alignpad = al, mh_magic = MAGIC, mh_index = b, mh_who = memwho_val who\<rparr>"
  have s': "s' = s1\<lparr>cells := store_hdr (cells s1) (a + al - 8) h\<rparr>"
    unfolding s'_def subs h_def ..
  note p = place_header [OF hole al(1,2) alb h_def, folded s']
  show "mem_holds s' (rv # L) X" unfolding rv by (rule p)
  show "al dvd rv" unfolding rv using \<open>al dvd a\<close> by simp
  show "{rv..<rv + nbytes} \<subseteq> user_region s' rv"
    unfolding user_region_def rv p(3) using fit by auto
  show "mh_who (hdr_at s' rv) = memwho_val who" "mh_index (hdr_at s' rv) = b"
    unfolding rv p(2) by (simp_all add: h_def)
  show "hdr_at s' r = hdr_at s r" if "r \<in> set L" for r
    using p(4) [OF that] same by (simp add: hdr_at_def)
  show "cells s' x = cells s x" if "x < rv - 8 \<or> rv \<le> x" for x
    using p(5) [of x] that unfolding rv same by blast
qed

lemma alloc_bytes_eq:
  assumes "MINALIGN \<le> al" "nbytes + al < 2 ^ 63"
  shows "alloc_bytes nbytes al = nbytes + al"
proof -
  have "8 + (al - 1) = 0 + 8 + al - 1" using assms(1) by simp
  then have "align_down (8 + (al - 1)) al = al" using aligned_after_header [of al 0] assms(1) by (simp only: dvd_0_right add_0)
  moreover have "nbytes + al < 2 ^ 64" using assms(2) by (rule less_trans) simp
  ultimately show ?thesis by (simp only: alloc_bytes_def wrap64_def mod_less)
qed

lemma block_for_request:
  assumes inv: "mem_holds s L X" and b: "b \<le> 58"
  defines "r \<equiv> (if b \<ge> LOCALBUCKETS
     then bindR (bmk_pgalloc (mpg s) (b + MINSHIFT - PAGE_SHIFT)) (\<lambda>(p, pg). Inr (p, s\<lparr>mpg := pg\<rparr>))
     else bucketalloc s b)"
  obtains "r = Inr (None, s)"
  | a s1 where "r = Inr (Some a, s1)" "mem_hole s1 L (add_mset (a, b) X) (one_at b)" "cells s1 = cells s"
proof (cases "b \<ge> LOCALBUCKETS")
  case True
  have pi: "pg_inv (mpg s)" and bo: "blocks_ok (mpg s) (X + (live_blocks s L + bucket_blocks (freebuckets s)))"
    using inv by (simp_all add: mem_holds_def mem_hole_def)
  have o: "b + MINSHIFT - PAGE_SHIFT < FREELIST_LEVELS" using b by simp
  have ob: "b + MINSHIFT - PAGE_SHIFT + 7 = b" using True by simp
  from pi o show thesis
  proof (rule pgalloc_block)
    assume "bmk_pgalloc (mpg s) (b + MINSHIFT - PAGE_SHIFT) = Inr (None, mpg s)"
    then show thesis using that(1) True by (simp add: r_def)
  next
    fix p pg' assume p: "bmk_pgalloc (mpg s) (b + MINSHIFT - PAGE_SHIFT) = Inr (Some p, pg')" "pg_inv pg'"
        "order2size (b + MINSHIFT - PAGE_SHIFT) dvd p"
      and grow: "\<And>M N. blocks_ok (mpg s) M \<Longrightarrow> \<forall>x \<in># N. snd x \<le> 58 \<and> 2 ^ (snd x + MINSHIFT) dvd fst x \<Longrightarrow>
        (\<And>q. cover N q = (if q \<in> blk (b + MINSHIFT - PAGE_SHIFT) p then 1 else 0)) \<Longrightarrow> blocks_ok pg' (N + M)"
    have "order2size (b + MINSHIFT - PAGE_SHIFT) = 2 ^ (b + MINSHIFT)"
      unfolding order2size_def using True by simp
    then have "2 ^ (b + MINSHIFT) dvd p" using p(3) by simp
    then have "blocks_ok pg' ({#(p, b)#} + (X + (live_blocks s L + bucket_blocks (freebuckets s))))"
      by (intro grow [OF bo]) (use b in \<open>simp_all only: blk_mblk ob\<close>, simp_all)
    moreover have "one_at b i = 0" if "i < LOCALBUCKETS" for i using that True by (simp add: one_at_def)
    ultimately have "mem_hole (s\<lparr>mpg := pg'\<rparr>) L (add_mset (p, b) X) (one_at b)"
      using inv p(2) by (simp add: mem_holds_def mem_hole_def)
    then show thesis using that(2) p(1) True by (simp add: r_def)
  qed
next
  case False
  then have "b < LOCALBUCKETS" by simp
  from inv this show thesis
    by (rule bucketalloc_hole) (use that False in \<open>simp_all add: r_def\<close>)
qed

lemma memalloc_cases:
  assumes inv: "mem_holds s L X" and a2: "align AND (align - 1) = 0" and a31: "align \<le> 2 ^ 31"
    and n: "nbytes + max MINALIGN align < 2 ^ 63"
  obtains "bmk_memalloc s nbytes align who = Inr (None, s)"
  | rv s' where "bmk_memalloc s nbytes align who = Inr (Some rv, s')" "mem_holds s' (rv # L) X"
      "max MINALIGN align dvd rv" "{rv..<rv + nbytes} \<subseteq> user_region s' rv"
      "mh_who (hdr_at s' rv) = memwho_val who" "\<And>r. r \<in> set L \<Longrightarrow> hdr_at s' r = hdr_at s r"
      "\<And>x. x < rv - 8 \<or> rv \<le> x \<Longrightarrow> cells s' x = cells s x"
      "mh_index (hdr_at s' rv) = bucket_of (nbytes + max MINALIGN align)"
proof -
  define al where "al = max MINALIGN align"
  have ali: "(if align < MINALIGN then MINALIGN else align) = al" by (simp add: al_def max_def)
  have al: "MINALIGN \<le> al" "al \<le> 2 ^ 31" using a31 by (simp_all add: al_def)
  have "\<exists>k. al = 2 ^ k"
  proof (cases "align \<le> MINALIGN")
    case True
    then have "al = 2 ^ 4" by (simp add: al_def)
    then show ?thesis by blast
  next
    case False
    then show ?thesis using pow2_of_and [OF _ a2] by (auto simp: al_def max_def)
  qed
  then obtain k where k: "al = 2 ^ k" by blast
  have n': "nbytes + al < 2 ^ 63" using n by (simp only: al_def)
  define b where "b = bucket_of (nbytes + al)"
  have b: "b \<le> 58" "nbytes + al \<le> 2 ^ (b + MINSHIFT)"
    unfolding b_def by (rule bucket_of_bounds [OF n'])+
  note m = bmk_memalloc_def [of s nbytes align who, unfolded ali Let_def alloc_bytes_eq [OF al(1) n'], folded b_def]
  from inv b(1) show thesis
  proof (rule block_for_request)
    assume "(if b \<ge> LOCALBUCKETS
       then bindR (bmk_pgalloc (mpg s) (b + MINSHIFT - PAGE_SHIFT)) (\<lambda>(p, pg). Inr (p, s\<lparr>mpg := pg\<rparr>))
       else bucketalloc s b) = Inr (None, s)"
    then show thesis by (intro that(1)) (simp add: m a2 [simplified] al [simplified])
  next
    fix a s1 assume r: "(if b \<ge> LOCALBUCKETS
       then bindR (bmk_pgalloc (mpg s) (b + MINSHIFT - PAGE_SHIFT)) (\<lambda>(p, pg). Inr (p, s\<lparr>mpg := pg\<rparr>))
       else bucketalloc s b) = Inr (Some a, s1)"
      and h: "mem_hole s1 L (add_mset (a, b) X) (one_at b)" "cells s1 = cells s"
    define rv where "rv = align_down (wrap64 (a + 8 + al - 1)) al"
    define s' where "s' = s1\<lparr>cells := store_hdr (cells s1) (sub64 rv 8)
      \<lparr>mh_alignpad = sub64 rv a, mh_magic = MAGIC, mh_index = b, mh_who = memwho_val who\<rparr>\<rparr>"
    have "bmk_memalloc s nbytes align who = Inr (Some rv, s')"
      by (simp add: m r a2 [simplified] al [simplified] rv_def s'_def)
    moreover note f = finish_alloc(1,3-7) [OF h al k b(2), where who = who, folded rv_def, folded s'_def]
    moreover note finish_alloc(2) [OF h al k b(2), folded rv_def]
    ultimately show thesis by (intro that(2) [folded al_def, folded b_def])
  qed
qed

section \<open>Live allocations\<close>

lemma live_disjoint:
  assumes inv: "mem_holds s L X" and rv: "rv \<in> set L" "r \<in> set (remove1 rv L)"
  shows "mblk (own s rv) \<inter> mblk (own s r) = {}"
proof -
  have hole: "mem_hole s (remove1 rv L) (add_mset (own s rv) X) (one_at (snd (own s rv)))"
    using inv rv(1) by (rule take_live)
  then have "blocks_ok (mpg s) (add_mset (own s rv)
      (X + (live_blocks s (remove1 rv L) + bucket_blocks (freebuckets s))))"
    by (simp add: mem_hole_def)
  then show ?thesis by (rule blocks_ok_disjoint) (use mem_hole_live(4) [OF hole rv(2)] in simp)
qed

lemma mem_holds_distinct:
  assumes "mem_holds s L X"
  shows "distinct L"
proof -
  have "count (mset L) rv \<le> 1" for rv
  proof (rule ccontr)
    assume "\<not> count (mset L) rv \<le> 1"
    then have "rv \<in> set L" "rv \<in> set (remove1 rv L)"
      by (auto simp flip: count_greater_zero_iff set_mset_mset)
    then have "mblk (own s rv) = {}" using live_disjoint [OF assms] by blast
    then show False using mblk_head by blast
  qed
  then show ?thesis by (metis distinct_count_atmost_1 le_less_Suc_eq less_one not_le count_greater_zero_iff One_nat_def set_mset_mset count_inI le_antisym Suc_leI count_greater_eq_one_iff)
qed

lemma live_disjoint_regions:
  assumes "mem_holds s L X" "rv \<in> set L" "r \<in> set L" "r \<noteq> rv"
  shows "mblk (own s rv) \<inter> mblk (own s r) = {}"
  by (rule live_disjoint [OF assms(1,2)]) (use assms(3,4) in simp)

lemma live_taken:
  assumes "mem_holds s L X" "rv \<in> set L"
  shows "mblk (own s rv) \<subseteq> managed_set (mpg s) - free_set (mpg s)"
  using assms mem_hole_live(4) [of s L X "\<lambda>_. 0" rv] blocks_ok_member(3)
  unfolding mem_holds_def mem_hole_def by (metis union_iff)

text \<open>What a client writes into the bytes it was given leaves every header alone.\<close>

lemma user_write:
  assumes inv: "mem_holds s L X" and rv: "rv \<in> set L"
    and m: "\<And>x. x \<notin> user_region s rv \<Longrightarrow> m x = cells s x"
  shows "mem_holds (s\<lparr>cells := m\<rparr>) L X" "\<And>r. r \<in> set L \<Longrightarrow> hdr_at (s\<lparr>cells := m\<rparr>) r = hdr_at s r"
proof -
  have hole: "mem_hole s L X (\<lambda>_. 0)" using inv by (simp only: mem_holds_def)
  have fr: "m a = cells s a" if "r \<in> set L" "r - 8 \<le> a" "a < r" for r a
  proof (rule m)
    show "a \<notin> user_region s rv"
    proof (cases "r = rv")
      case True
      then show ?thesis using that(3) by (simp add: user_region_def)
    next
      case False
      have "a \<in> mblk (own s r)" using mem_hole_live(3) [OF hole that(1)] that(2,3) by auto
      then show ?thesis
        using live_disjoint_regions [OF inv rv that(1) False] mem_hole_live(5) [OF hole rv] by blast
    qed
  qed
  show "mem_holds (s\<lparr>cells := m\<rparr>) L X" unfolding mem_holds_def by (rule mem_hole_cells [OF hole fr])
  show "hdr_at (s\<lparr>cells := m\<rparr>) r = hdr_at s r" if "r \<in> set L" for r
    by (rule mem_hole_hdr_frame [OF hole that fr [OF that]])
qed

section \<open>Release\<close>

lemma memfree_ok:
  assumes inv: "mem_holds s L X" and rv: "rv \<in> set L" and who: "mh_who (hdr_at s rv) = memwho_val who"
  obtains s' where "bmk_memfree s (Some rv) who = Inr s'" "mem_holds s' (remove1 rv L) X" "cells s' = cells s"
proof -
  obtain a b where own: "own s rv = (a, b)" by fastforce
  have hole: "mem_hole s (remove1 rv L) (add_mset (a, b) X) (one_at b)"
    using take_live [OF inv rv] by (simp add: own)
  have bo: "pg_inv (mpg s)"
    "blocks_ok (mpg s) (add_mset (a, b) (X + (live_blocks s (remove1 rv L) + bucket_blocks (freebuckets s))))"
    using hole by (simp_all add: mem_hole_def)
  have h: "mh_index (hdr_at s rv) = b" "rv - mh_alignpad (hdr_at s rv) = a" using own by (simp_all add: own_def)
  have l: "hdr_ok (hdr_at s rv) rv" "rv < 2 ^ 64"
    using mem_hole_live [OF inv [unfolded mem_holds_def] rv] by blast+
  have orig: "sub64 rv (mh_alignpad (hdr_at s rv)) = a"
    using sub64_diff [of "mh_alignpad (hdr_at s rv)" rv] l h(2) by (simp add: hdr_ok_def)
  have f: "bmk_memfree s (Some rv) who = (if b \<ge> LOCALBUCKETS
      then bindR (bmk_pgfree (mpg s) a (b + MINSHIFT - PAGE_SHIFT)) (\<lambda>pg. Inr (s\<lparr>mpg := pg\<rparr>))
      else Inr (s\<lparr>freebuckets := (freebuckets s)(b := a # freebuckets s b),
                 nmalloc := (nmalloc s)(b := nmalloc s b - 1)\<rparr>))"
    using l(1) who by (simp add: bmk_memfree_def orig h(1) hdr_ok_def Let_def)
  note blk = blocks_ok_member [OF bo(2), of "(a, b)", simplified]
  show thesis
  proof (cases "b \<ge> LOCALBUCKETS")
    case True
    define order where "order = b + MINSHIFT - PAGE_SHIFT"
    have o: "order < FREELIST_LEVELS" "order + 7 = b" "order2size order = 2 ^ (b + MINSHIFT)"
      using True blk(1) by (simp_all add: order_def order2size_def)
    then have "blk order a = mblk (a, b)" by (simp add: blk_mblk)
    then obtain pg' where pg': "bmk_pgfree (mpg s) a order = Inr pg'" "pg_inv pg'"
      "free_set pg' = free_set (mpg s) \<union> mblk (a, b)" "managed_set pg' = managed_set (mpg s)"
      using pga.free_law [OF bo(1) o(1), of a] blk(2,3) o(3) by auto
    have "one_at b i = 0" if "i < LOCALBUCKETS" for i using that True by (simp add: one_at_def)
    then have "mem_holds (s\<lparr>mpg := pg'\<rparr>) (remove1 rv L) X"
      using hole pg'(2) blocks_ok_shrink [OF bo(2) pg'(3,4)] by (simp add: mem_holds_def mem_hole_def)
    then show thesis using that f True pg'(1) by (simp add: order_def)
  next
    case False
    then have "bucket_blocks ((freebuckets s)(b := a # freebuckets s b)) =
        add_mset (a, b) (bucket_blocks (freebuckets s))"
      using bucket_blocks_push [of b "freebuckets s" "[a]"] by simp
    then have "mem_holds (s\<lparr>freebuckets := (freebuckets s)(b := a # freebuckets s b),
        nmalloc := (nmalloc s)(b := nmalloc s b - 1)\<rparr>) (remove1 rv L) X"
      using hole False unfolding mem_holds_def mem_hole_def by (auto simp: one_at_def)
    then show thesis using that f False by simp
  qed
qed

section \<open>Page blocks taken beside the heap\<close>

lemma pages_take:
  assumes inv: "mem_holds s L X" and o: "order < FREELIST_LEVELS"
  obtains "bmk_pgalloc (mpg s) order = Inr (None, mpg s)"
  | p pg where "bmk_pgalloc (mpg s) order = Inr (Some p, pg)"
      "mem_holds (s\<lparr>mpg := pg\<rparr>) L (add_mset (p, order + 7) X)"
proof -
  have pi: "pg_inv (mpg s)" and bo: "blocks_ok (mpg s) (X + (live_blocks s L + bucket_blocks (freebuckets s)))"
    using inv by (simp_all add: mem_holds_def mem_hole_def)
  from pi o show thesis
  proof (rule pgalloc_block)
    assume "bmk_pgalloc (mpg s) order = Inr (None, mpg s)"
    then show thesis by (rule that(1))
  next
    fix p pg' assume p: "bmk_pgalloc (mpg s) order = Inr (Some p, pg')" "pg_inv pg'" "order2size order dvd p"
      and grow: "\<And>M N. blocks_ok (mpg s) M \<Longrightarrow> \<forall>x \<in># N. snd x \<le> 58 \<and> 2 ^ (snd x + MINSHIFT) dvd fst x \<Longrightarrow>
        (\<And>q. cover N q = (if q \<in> blk order p then 1 else 0)) \<Longrightarrow> blocks_ok pg' (N + M)"
    have "2 ^ (order + 7 + MINSHIFT) dvd p" using p(3) by (simp add: order2size_def add.commute)
    then have "blocks_ok pg' ({#(p, order + 7)#} + (X + (live_blocks s L + bucket_blocks (freebuckets s))))"
      using o by (intro grow [OF bo]) (simp_all add: blk_mblk)
    then have "mem_holds (s\<lparr>mpg := pg'\<rparr>) L (add_mset (p, order + 7) X)"
      using inv p(2) by (simp add: mem_holds_def mem_hole_def)
    then show thesis using p(1) by (intro that(2))
  qed
qed

lemma pages_give_back:
  assumes inv: "mem_holds s L (add_mset (p, order + 7) X)"
  obtains pg where "bmk_pgfree (mpg s) p order = Inr pg" "mem_holds (s\<lparr>mpg := pg\<rparr>) L X"
proof -
  have bo: "pg_inv (mpg s)"
    "blocks_ok (mpg s) (add_mset (p, order + 7) (X + (live_blocks s L + bucket_blocks (freebuckets s))))"
    using inv by (simp_all add: mem_holds_def mem_hole_def)
  note blk = blocks_ok_member [OF bo(2), of "(p, order + 7)", simplified]
  have o: "order < FREELIST_LEVELS" "order2size order dvd p"
    using blk(1,2) by (simp_all add: order2size_def add.commute)
  obtain pg where pg: "bmk_pgfree (mpg s) p order = Inr pg" "pg_inv pg"
      "free_set pg = free_set (mpg s) \<union> mblk (p, order + 7)" "managed_set pg = managed_set (mpg s)"
    using pga.free_law [OF bo(1) o(1,2)] blk(3) unfolding blk_mblk by (auto simp: add.commute)
  have "mem_holds (s\<lparr>mpg := pg\<rparr>) L X"
    using inv pg(2) blocks_ok_shrink [OF bo(2) pg(3,4)] by (simp add: mem_holds_def mem_hole_def)
  with pg(1) show thesis by (rule that)
qed

text \<open>Writing into a page block that somebody holds leaves every header alone.\<close>

lemma page_write:
  assumes inv: "mem_holds s L X" and x: "x \<in># X" and m: "\<And>a. a \<notin> mblk x \<Longrightarrow> m a = cells s a"
  shows "mem_holds (s\<lparr>cells := m\<rparr>) L X" "\<And>r. r \<in> set L \<Longrightarrow> hdr_at (s\<lparr>cells := m\<rparr>) r = hdr_at s r"
proof -
  have hole: "mem_hole s L X (\<lambda>_. 0)" using inv by (simp only: mem_holds_def)
  obtain X' where X': "X = add_mset x X'" using x by (rule mset_add)
  have ok: "blocks_ok (mpg s) (add_mset x (X' + (live_blocks s L + bucket_blocks (freebuckets s))))"
    using hole by (simp add: mem_hole_def X')
  have fr: "m a = cells s a" if "r \<in> set L" "r - 8 \<le> a" "a < r" for r a
  proof (rule m)
    have "a \<in> mblk (own s r)" using mem_hole_live(3) [OF hole that(1)] that(2,3) by auto
    moreover have "mblk x \<inter> mblk (own s r) = {}"
      by (rule blocks_ok_disjoint [OF ok]) (use mem_hole_live(4) [OF hole that(1)] in simp)
    ultimately show "a \<notin> mblk x" by blast
  qed
  show "mem_holds (s\<lparr>cells := m\<rparr>) L X" unfolding mem_holds_def by (rule mem_hole_cells [OF hole fr])
  show "hdr_at (s\<lparr>cells := m\<rparr>) r = hdr_at s r" if "r \<in> set L" for r
    by (rule mem_hole_hdr_frame [OF hole that fr [OF that]])
qed

end
