(* ===== verification/MemallocIface.thy ===== *)
theory MemallocIface
  imports MemallocCorrect
begin

text \<open>
  The statements about the entry points of the general-purpose allocator, and the runs of an
  arbitrary client.
\<close>

section \<open>A heap for the examples\<close>

definition mem_boot :: mstate where
  "mem_boot = bmk_memalloc_init
     \<lparr>mpg = boot_state, freebuckets = (\<lambda>_. []), nmalloc = (\<lambda>_. 0), cells = (\<lambda>_. 0)\<rparr>"

lemma init_inv:
  assumes "pg_inv pg"
  shows "mem_inv (bmk_memalloc_init \<lparr>mpg = pg, freebuckets = f, nmalloc = (\<lambda>_. 0), cells = m\<rparr>) []"
  using assms by (simp add: mem_holds_def mem_hole_def bmk_memalloc_init_def live_blocks_def
      bucket_blocks_def live_in_def blocks_ok_def)

lemma mem_boot_inv: "mem_inv mem_boot []"
  unfolding mem_boot_def by (rule init_inv) (rule boot_state_inv)

text \<open>The first allocation: 100 bytes come from a page split into blocks of 128 bytes.\<close>

lemma mem_boot_alloc:
  assumes "nbytes + 16 < 2 ^ 11"
  obtains rv s' where "bmk_memalloc mem_boot nbytes 16 BMK_MEMWHO_USER = Inr (Some rv, s')"
    "mem_inv s' [rv]" "16 dvd rv" "{rv..<rv + nbytes} \<subseteq> user_region s' rv"
    "mh_who (hdr_at s' rv) = memwho_val BMK_MEMWHO_USER" "mh_index (hdr_at s' rv) = bucket_of (nbytes + 16)"
proof -
  have lt: "nbytes + 16 < 2 ^ 63" using assms by (rule less_trans) simp
  have "bucket_of (nbytes + 16) \<le> 6"
  proof (rule ccontr)
    assume "\<not> bucket_of (nbytes + 16) \<le> 6"
    then have "(2::nat) ^ 11 \<le> 2 ^ (bucket_of (nbytes + 16) + 4)"
      by (intro power_increasing) simp_all
    moreover have "2 ^ (bucket_of (nbytes + 16) + 4) < nbytes + 16"
      using \<open>\<not> bucket_of (nbytes + 16) \<le> 6\<close> by (intro bucket_of_bounds(3) [OF lt]) simp
    ultimately show False using assms by linarith
  qed
  moreover have "1 < PAGE_SIZE div 2 ^ (b + MINSHIFT)" if "b < LOCALBUCKETS" for b
    using page_blocks [OF that] by simp
  ultimately have "bmk_memalloc mem_boot nbytes 16 BMK_MEMWHO_USER \<noteq> Inr (None, mem_boot)"
    using alloc_bytes_eq [of 16 nbytes] lt one_page_state_facts(1)
    by (simp add: bmk_memalloc_def bucketalloc_def morecore_def Let_def mem_boot_def bmk_memalloc_init_def)
  moreover have "nbytes + max MINALIGN 16 < 2 ^ 63" using lt by simp
  ultimately show thesis
    using memalloc_cases [OF mem_boot_inv, of 16 nbytes BMK_MEMWHO_USER thesis] that by simp
qed

definition mem_one :: "nat \<times> mstate" where
  "mem_one = (case bmk_memalloc mem_boot 100 16 BMK_MEMWHO_USER of
     Inr (Some rv, s) \<Rightarrow> (rv, s) | _ \<Rightarrow> (0, mem_boot))"

lemma mem_one_facts:
  "bmk_memalloc mem_boot 100 16 BMK_MEMWHO_USER = Inr (Some (fst mem_one), snd mem_one)"
  "mem_inv (snd mem_one) [fst mem_one]" "16 dvd fst mem_one"
  "mh_who (hdr_at (snd mem_one) (fst mem_one)) = memwho_val BMK_MEMWHO_USER"
  "mh_index (hdr_at (snd mem_one) (fst mem_one)) = 2"
proof -
  have "bucket_of (100 + 16) = 2"
    by (simp add: bucket_of_def builtin_clzl_def top_bit.simps drop_bit_eq_div)
  have "(100::nat) + 16 < 2 ^ 11" by simp
  then obtain rv s' where "bmk_memalloc mem_boot 100 16 BMK_MEMWHO_USER = Inr (Some rv, s')"
    "mem_inv s' [rv]" "16 dvd rv" "{rv..<rv + 100} \<subseteq> user_region s' rv"
    "mh_who (hdr_at s' rv) = memwho_val BMK_MEMWHO_USER" "mh_index (hdr_at s' rv) = bucket_of (100 + 16)"
    by (rule mem_boot_alloc)
  with \<open>bucket_of (100 + 16) = 2\<close> show "bmk_memalloc mem_boot 100 16 BMK_MEMWHO_USER = Inr (Some (fst mem_one), snd mem_one)"
    "mem_inv (snd mem_one) [fst mem_one]" "16 dvd fst mem_one"
    "mh_who (hdr_at (snd mem_one) (fst mem_one)) = memwho_val BMK_MEMWHO_USER"
    "mh_index (hdr_at (snd mem_one) (fst mem_one)) = 2"
    by (simp_all add: mem_one_def)
qed

section \<open>The entry points\<close>





section \<open>Reallocation and cleared memory\<close>

definition usable :: "mstate \<Rightarrow> nat \<Rightarrow> nat" where
  "usable s cp = fst (own s cp) + 2 ^ (snd (own s cp) + MINSHIFT) - cp"

lemma usable_live:
  assumes "mem_inv s L" "cp \<in> set L" "mh_index (hdr_at s cp) + MINSHIFT < 31"
  shows "usable_size (hdr_at s cp) = Inr (usable s cp)" "user_region s cp = {cp..<cp + usable s cp}"
proof -
  have h: "hdr_ok (hdr_at s cp) cp"
    using mem_hole_live(1) [OF assms(1) [unfolded mem_holds_def] assms(2)] .
  have "(2::nat) ^ (mh_index (hdr_at s cp) + MINSHIFT) < 2 ^ 64"
    using assms(3) by (intro power_strict_increasing) simp_all
  then show "usable_size (hdr_at s cp) = Inr (usable s cp)"
    using h assms(3) sub64_diff [of "mh_alignpad (hdr_at s cp)" "2 ^ (mh_index (hdr_at s cp) + MINSHIFT)"]
    by (simp add: usable_size_def usable_def own_def hdr_ok_def)
  show "user_region s cp = {cp..<cp + usable s cp}"
    using h by (auto simp: user_region_def usable_def own_def hdr_ok_def)
qed

lemma copy_into_new:
  assumes inv: "mem_inv s L" and l: "np \<in> set L" "cp \<in> set L" "np \<noteq> cp"
    and sz: "{np..<np + sz} \<subseteq> user_region s np" and cpr: "{cp..<cp + sz} \<subseteq> user_region s cp"
    and who: "mh_who (hdr_at s cp) = memwho_val who"
  obtains s' where "bmk_memfree (s\<lparr>cells := cells_copy (cells s) np cp sz\<rparr>) (Some cp) who = Inr s'"
    "mem_inv s' (remove1 cp L)" "\<And>i. i < sz \<Longrightarrow> cells s' (np + i) = cells s (cp + i)"
    "own s' np = own s np"
proof -
  let ?m = "cells_copy (cells s) np cp sz" and ?s = "s\<lparr>cells := cells_copy (cells s) np cp sz\<rparr>"
  have m: "?m x = cells s x" if "x \<notin> user_region s np" for x
    using that sz by (auto simp: cells_copy_def)
  have w: "mem_inv ?s L" by (rule user_write(1) [OF inv l(1) m])
  have wh: "hdr_at ?s r = hdr_at s r" if "r \<in> set L" for r by (rule user_write(2) [OF inv l(1) m that])
  obtain s' where s': "bmk_memfree ?s (Some cp) who = Inr s'" "mem_inv s' (remove1 cp L)" "cells s' = ?m"
    by (rule memfree_ok [OF w l(2), of who]) (use wh [OF l(2)] who in simp_all)
  have "hdr_at s' np = hdr_at ?s np" using s'(3) by (simp add: hdr_at_def)
  then have "own s' np = own s np" using wh [OF l(1)] by (simp add: own_def)
  then show thesis by (intro that [OF s'(1,2)]) (simp_all add: s'(3) cells_copy_def)
qed

text \<open>
  C38. \<open>bmk_memrealloc_user\<close> of a live user allocation to a non-zero size never faults, as
  long as the old block is below two gigabytes (beyond that, \<open>1<<(size+MINSHIFT)\<close> overflows
  an \<open>int\<close>). Either nothing changes and a null pointer is returned, or the result has room
  for the new size, its bytes up to the smaller of the two sizes are those of the old
  allocation, and the old allocation is no longer live.
\<close>

theorem bmk_memrealloc_user_correct:
  assumes inv: "mem_inv s L" and cp: "cp \<in> set L" and who: "mh_who (hdr_at s cp) = memwho_val BMK_MEMWHO_USER"
    and small: "mh_index (hdr_at s cp) + MINSHIFT < 31" and n: "0 < nbytes" "nbytes + MINALIGN < 2 ^ 63"
  shows "case bmk_memrealloc_user s (Some cp) nbytes of
      Inl _ \<Rightarrow> False
    | Inr (None, s') \<Rightarrow> s' = s
    | Inr (Some np, s') \<Rightarrow> mem_inv s' (np # remove1 cp L) \<and> nbytes \<le> usable s' np \<and>
        (\<forall>i. i < nbytes \<and> i < usable s cp \<longrightarrow> cells s' (np + i) = cells s (cp + i))"
proof (cases "nbytes \<le> usable s cp")
  case True
  have "mset (cp # remove1 cp L) = mset L" using cp by simp
  then have "live_blocks s (cp # remove1 cp L) = live_blocks s L"
    "live_in s (cp # remove1 cp L) b = live_in s L b" "set (cp # remove1 cp L) = set L" for b
    unfolding live_blocks_def live_in_def size_mset [symmetric] mset_filter set_mset_mset [symmetric]
    by (simp_all only:)
  then have "mem_inv s (cp # remove1 cp L)" using inv unfolding mem_holds_def mem_hole_def by simp
  then show ?thesis using True n(1) usable_live(1) [OF inv cp small] by (simp add: bmk_memrealloc_user_def)
next
  case False
  have u: "user_region s cp = {cp..<cp + usable s cp}" by (rule usable_live [OF inv cp small])
  have e: "bmk_memrealloc_user s (Some cp) nbytes =
      bindR (bmk_memalloc s nbytes 8 BMK_MEMWHO_USER) (\<lambda>(np, s1). case np of
          None \<Rightarrow> Inr (None, s1)
        | Some p \<Rightarrow> bindR (bmk_memfree (s1\<lparr>cells := cells_copy (cells s1) p cp (usable s cp)\<rparr>) (Some cp)
             BMK_MEMWHO_USER) (\<lambda>s. Inr (Some p, s)))"
    using False n(1) usable_live(1) [OF inv cp small] by (simp add: bmk_memrealloc_user_def)
  have "(8::nat) AND (8 - 1) = 0" "(8::nat) \<le> 2 ^ 31" "nbytes + max MINALIGN 8 < 2 ^ 63" using n by simp_all
  with inv show ?thesis
  proof (rule memalloc_cases [where who = BMK_MEMWHO_USER])
    assume "bmk_memalloc s nbytes 8 BMK_MEMWHO_USER = Inr (None, s)"
    then show ?thesis by (simp add: e)
  next
    fix np s1 assume a: "bmk_memalloc s nbytes 8 BMK_MEMWHO_USER = Inr (Some np, s1)" "mem_inv s1 (np # L)"
        "{np..<np + nbytes} \<subseteq> user_region s1 np"
      and h: "\<And>r. r \<in> set L \<Longrightarrow> hdr_at s1 r = hdr_at s r"
      and x: "\<And>x. x < np - 8 \<or> np \<le> x \<Longrightarrow> cells s1 x = cells s x"
    note live = mem_hole_live [OF a(2) [unfolded mem_holds_def]]
    have ne: "np \<noteq> cp" using mem_holds_distinct [OF a(2)] cp by auto
    have uc: "user_region s1 cp = {cp..<cp + usable s cp}"
      using h [OF cp] u by (simp add: user_region_def own_def)
    have np: "{np..<np + usable s cp} \<subseteq> user_region s1 np" using a(3) False by (auto simp: subset_iff)
    have wh: "mh_who (hdr_at s1 cp) = memwho_val BMK_MEMWHO_USER" using h [OF cp] who by simp
    obtain s' where s': "bmk_memfree (s1\<lparr>cells := cells_copy (cells s1) np cp (usable s cp)\<rparr>) (Some cp)
        BMK_MEMWHO_USER = Inr s'" "mem_inv s' (remove1 cp (np # L))"
      "\<And>i. i < usable s cp \<Longrightarrow> cells s' (np + i) = cells s1 (cp + i)" "own s' np = own s1 np"
      using ne cp by (rule_tac copy_into_new [OF a(2) _ _ ne np _ wh]) (simp_all add: uc)
    have "cells s1 (cp + i) = cells s (cp + i)" if "i < usable s cp" for i
    proof (rule x)
      have "cp + i \<in> mblk (own s1 cp)" using that live(5) [of cp] cp uc by auto
      moreover have "mblk (own s1 np) \<inter> mblk (own s1 cp) = {}"
        by (rule live_disjoint_regions [OF a(2)]) (use cp ne in auto)
      moreover have "{np - 8..<np} \<subseteq> mblk (own s1 np)" by (rule live(3)) simp
      ultimately have "cp + i \<notin> {np - 8..<np}" by blast
      then show "cp + i < np - 8 \<or> np \<le> cp + i" by auto
    qed
    moreover have "nbytes \<le> usable s' np"
      using a(3) n(1) unfolding usable_def s'(4) user_region_def by auto
    ultimately show ?thesis using e a(1) s' ne by simp
  qed
qed

theorem bmk_memrealloc_user_correct_witness:
  "case bmk_memrealloc_user (snd mem_one) (Some (fst mem_one)) 5000 of
      Inl _ \<Rightarrow> False
    | Inr (None, s') \<Rightarrow> s' = snd mem_one
    | Inr (Some np, s') \<Rightarrow> mem_inv s' [np] \<and> 5000 \<le> usable s' np"
proof -
  have "mh_index (hdr_at (snd mem_one) (fst mem_one)) + MINSHIFT < 31"
    using mem_one_facts(5) by simp
  from bmk_memrealloc_user_correct [OF mem_one_facts(2) _ mem_one_facts(4) this, of 5000]
  show ?thesis by (auto split: sum.splits option.splits prod.splits)
qed

text \<open>
  C39. \<open>bmk_memcalloc\<close> refuses a request whose product does not fit \<open>unsigned long\<close> and
  otherwise, when it succeeds, returns a live allocation of which all \<open>n * sz\<close> bytes are zero.
\<close>

theorem bmk_memcalloc_correct:
  assumes inv: "mem_inv s L" and n: "n < 2 ^ 64" "sz < 2 ^ 64"
    and fit: "2 ^ 64 \<le> n * sz \<or> n * sz + MINALIGN < 2 ^ 63"
  shows "case bmk_memcalloc s n sz who of
      Inl _ \<Rightarrow> False
    | Inr (None, s') \<Rightarrow> s' = s
    | Inr (Some p, s') \<Rightarrow> n * sz < 2 ^ 64 \<and> mem_inv s' (p # L) \<and> MINALIGN dvd p \<and>
        {p..<p + n * sz} \<subseteq> user_region s' p \<and> (\<forall>x \<in> {p..<p + n * sz}. cells s' x = 0)"
proof (cases "n * sz < 2 ^ 64")
  case False
  then have "0 < sz" by (cases sz) simp_all
  have "wrap64 (n * sz) < n * sz" unfolding wrap64_def
    using False by (intro less_le_trans [OF mod_less_divisor]) simp_all
  then have "wrap64 (n * sz) div sz < n" using \<open>0 < sz\<close> by (simp add: div_less_iff_less_mult)
  then show ?thesis using \<open>0 < sz\<close> by (simp add: bmk_memcalloc_def Let_def)
next
  case True
  then have "n * sz + MINALIGN < 2 ^ 63" using fit by simp
  then have al: "(16::nat) AND (16 - 1) = 0" "(16::nat) \<le> 2 ^ 31" "n * sz + max MINALIGN 16 < 2 ^ 63"
    by simp_all
  have e: "bmk_memcalloc s n sz who = bindR (bmk_memalloc s (n * sz) MINALIGN who) (\<lambda>(v, s). case v of
       None \<Rightarrow> Inr (None, s) | Some p \<Rightarrow> Inr (Some p, s\<lparr>cells := cells_set (cells s) p 0 (n * sz)\<rparr>))"
    using True by (simp add: bmk_memcalloc_def wrap64_def Let_def)
  from inv al show ?thesis
  proof (rule memalloc_cases [where who = who])
    assume "bmk_memalloc s (n * sz) MINALIGN who = Inr (None, s)"
    then show ?thesis by (simp add: e)
  next
    fix p s1 assume a: "bmk_memalloc s (n * sz) MINALIGN who = Inr (Some p, s1)" "mem_inv s1 (p # L)"
      "max MINALIGN MINALIGN dvd p" "{p..<p + n * sz} \<subseteq> user_region s1 p"
    let ?m = "cells_set (cells s1) p 0 (n * sz)"
    have m: "?m x = cells s1 x" if "x \<notin> user_region s1 p" for x
      using that a(4) by (auto simp: cells_set_def)
    have w: "mem_inv (s1\<lparr>cells := ?m\<rparr>) (p # L)" "hdr_at (s1\<lparr>cells := ?m\<rparr>) p = hdr_at s1 p"
      by (rule user_write [OF a(2) _ m], simp_all)+
    moreover have "{p..<p + n * sz} \<subseteq> user_region (s1\<lparr>cells := ?m\<rparr>) p"
      using a(4) w(2) by (simp add: user_region_def own_def)
    ultimately show ?thesis using a(1,3) True by (simp add: e cells_set_def)
  qed
qed

theorem bmk_memcalloc_correct_witness:
  "(case bmk_memcalloc mem_boot 10 20 BMK_MEMWHO_USER of
      Inl _ \<Rightarrow> False
    | Inr (None, s') \<Rightarrow> s' = mem_boot
    | Inr (Some p, s') \<Rightarrow> mem_inv s' [p] \<and> (\<forall>x \<in> {p..<p + 200}. cells s' x = 0)) \<and>
   bmk_memcalloc mem_boot (2 ^ 33) (2 ^ 33) BMK_MEMWHO_USER = Inr (None, mem_boot)"
  using bmk_memcalloc_correct [OF mem_boot_inv, of 10 20 BMK_MEMWHO_USER]
    bmk_memcalloc_correct [OF mem_boot_inv, of "2 ^ 33" "2 ^ 33" BMK_MEMWHO_USER]
  by (auto split: sum.splits option.splits prod.splits)

section \<open>Arbitrary clients\<close>

text \<open>
  The steps of the users of the heap, with the list of live allocations: allocation,
  release by the right owner, and writing anything into the bytes of one's own allocation,
  by which stale chunk headers of the page allocator may be overwritten as well.
\<close>

inductive mem_step :: "mstate \<times> nat list \<Rightarrow> mstate \<times> nat list \<Rightarrow> bool" where
  malloc_some: "align AND (align - 1) = 0 \<Longrightarrow> align \<le> 2 ^ 31 \<Longrightarrow> nbytes + max MINALIGN align < 2 ^ 63 \<Longrightarrow>
    bmk_memalloc s nbytes align who = Inr (Some rv, s') \<Longrightarrow> mem_step (s, L) (s', rv # L)"
| malloc_none: "align AND (align - 1) = 0 \<Longrightarrow> align \<le> 2 ^ 31 \<Longrightarrow> nbytes + max MINALIGN align < 2 ^ 63 \<Longrightarrow>
    bmk_memalloc s nbytes align who = Inr (None, s') \<Longrightarrow> mem_step (s, L) (s', L)"
| mfree: "rv \<in> set L \<Longrightarrow> bmk_memfree s (Some rv) who = Inr s' \<Longrightarrow> mem_step (s, L) (s', remove1 rv L)"
| mwrite: "rv \<in> set L \<Longrightarrow> (\<And>x. x \<notin> user_region s rv \<Longrightarrow> m x = cells s x \<and> ch x = chunks (mpg s) x) \<Longrightarrow>
    mem_step (s, L) (s\<lparr>cells := m, mpg := (mpg s)\<lparr>chunks := ch\<rparr>\<rparr>, L)"

lemma pg_chunks_change:
  assumes inv: "mem_inv s L" and ch: "\<And>a. a \<in> free_set (mpg s) \<Longrightarrow> ch a = chunks (mpg s) a"
  shows "mem_inv (s\<lparr>mpg := (mpg s)\<lparr>chunks := ch\<rparr>\<rparr>) L"
proof -
  have p: "pg_inv (mpg s)" using inv by (simp add: mem_holds_def mem_hole_def)
  note c = chunks_change [OF p ch]
  have "quota ((mpg s)\<lparr>chunks := ch\<rparr>) = quota (mpg s)" by (simp add: fun_eq_iff quota_def c)
  then show ?thesis using inv c(1) by (simp add: mem_holds_def mem_hole_def blocks_ok_def)
qed

lemma mem_step_inv:
  assumes "mem_step (s, L) (s', L')" "mem_inv s L"
  shows "mem_inv s' L'"
  using assms(1)
proof cases
  case (malloc_some align nbytes who rv)
  show ?thesis using assms(2) malloc_some(2-4)
    by (rule memalloc_cases [where who = who]) (use malloc_some(1,5) in simp_all)
next
  case (malloc_none align nbytes who)
  show ?thesis using assms(2) malloc_none(2-4)
    by (rule memalloc_cases [where who = who]) (use malloc_none(1,5) assms(2) in simp_all)
next
  case (mfree rv who)
  have "hdr_ok (hdr_at s rv) rv" by (rule mem_hole_live [OF assms(2) [unfolded mem_holds_def] mfree(2)])
  then have "mh_who (hdr_at s rv) = memwho_val who"
    using mfree(3) by (auto simp: bmk_memfree_def hdr_ok_def Let_def split: if_splits)
  then show ?thesis by (rule memfree_ok [OF assms(2) mfree(2)]) (use mfree(1,3) in simp)
next
  case (mwrite rv m ch)
  have w: "m x = cells s x" "ch x = chunks (mpg s) x" if "x \<notin> user_region s rv" for x
    using mwrite(4) that by auto
  have live: "rv \<in> set L" using mwrite(2,3) by simp
  have i: "mem_inv (s\<lparr>cells := m\<rparr>) L" by (rule user_write(1) [OF assms(2) live w(1)])
  have "user_region s rv \<inter> free_set (mpg s) = {}"
    using mem_hole_live(5) [OF assms(2) [unfolded mem_holds_def] live] live_taken [OF assms(2) live] by blast
  then have "ch a = chunks (mpg s) a" if "a \<in> free_set (mpg s)" for a using w(2) that by blast
  then show ?thesis using pg_chunks_change [OF i, of ch] mwrite(1,2) by simp
qed

lemma memwho_of_val: "n \<le> 2 \<Longrightarrow> \<exists>who. n = memwho_val who"
  using memwho_val.simps by (metis One_nat_def le_SucE le_zero_eq numeral_2_eq_2)

lemma mem_steps_inv:
  assumes "mem_step\<^sup>*\<^sup>* x y" "mem_inv (fst x) (snd x)"
  shows "mem_inv (fst y) (snd y)"
  using assms
proof (induction rule: rtranclp_induct)
  case (step y z)
  then show ?case using mem_step_inv [of "fst y" "snd y" "fst z" "snd z"] by simp
qed simp

text \<open>
  C3. However the users of the heap interleave allocations, releases and writes into their
  own allocations, starting from the freshly initialised heap: any two live allocations are
  disjoint, all of them lie in memory taken from the page allocator, and every live
  allocation can be released by its owner without a fault.
\<close>

theorem memalloc_client_run:
  assumes "pg_inv pg"
    and "mem_step\<^sup>*\<^sup>* (bmk_memalloc_init \<lparr>mpg = pg, freebuckets = f, nmalloc = (\<lambda>_. 0), cells = m\<rparr>, []) (s, L)"
  shows "(\<forall>p \<in> set L. \<forall>q \<in> set L. p \<noteq> q \<longrightarrow> user_region s p \<inter> user_region s q = {}) \<and>
    (\<forall>p \<in> set L. user_region s p \<subseteq> managed_set (mpg s) - free_set (mpg s)) \<and>
    (\<forall>p \<in> set L. \<exists>who. is_ok (bmk_memfree s (Some p) who))"
proof -
  have inv: "mem_inv s L" using mem_steps_inv [OF assms(2)] init_inv [OF assms(1)] by simp
  note live = mem_hole_live [OF inv [unfolded mem_holds_def]]
  have "\<exists>who. is_ok (bmk_memfree s (Some p) who)" if p: "p \<in> set L" for p
  proof -
    obtain who where "mh_who (hdr_at s p) = memwho_val who"
      using memwho_of_val live(1) [OF p] unfolding hdr_ok_def by blast
    then show ?thesis by (rule memfree_ok [OF inv p]) (use is_ok_iff in blast)
  qed
  moreover have "user_region s p \<inter> user_region s q = {}" if "p \<in> set L" "q \<in> set L" "p \<noteq> q" for p q
    using live_disjoint_regions [OF inv that(1,2)] that(3) live(5) [OF that(1)] live(5) [OF that(2)] by blast
  moreover have "user_region s p \<subseteq> managed_set (mpg s) - free_set (mpg s)" if "p \<in> set L" for p
    using live(5) [OF that] live_taken [OF inv that] by blast
  ultimately show ?thesis by simp
qed

theorem memalloc_client_run_witness:
  "mem_step\<^sup>*\<^sup>* (mem_boot, []) (snd mem_one, [fst mem_one]) \<and>
   user_region (snd mem_one) (fst mem_one) \<subseteq> managed_set (mpg (snd mem_one)) - free_set (mpg (snd mem_one))"
proof -
  have "mem_step (mem_boot, []) (snd mem_one, [fst mem_one])"
    by (rule mem_step.malloc_some [OF _ _ _ mem_one_facts(1)]) simp_all
  then have st: "mem_step\<^sup>*\<^sup>* (mem_boot, []) (snd mem_one, [fst mem_one])" by simp
  then show ?thesis
    using memalloc_client_run [OF boot_state_inv(1), of "\<lambda>_. []" "\<lambda>_. 0", folded mem_boot_def, OF st] by auto
qed

end
