(* ===== verification/SchedInv.thy ===== *)
theory SchedInv
  imports Sched MemallocIface
begin

text \<open>
  The invariants of the scheduler: how the flags of a thread, the queue it is on, its
  deadline and its continuation belong together.
\<close>

section \<open>Flags\<close>

lemma flag_tests [simp]:
  fixes w :: u32
  shows "w AND THR_RUNQ = 0 \<longleftrightarrow> \<not> bit w 0"
    "w AND THR_RUNNING = 0 \<longleftrightarrow> \<not> bit w 3" "w AND THR_TIMEDOUT = 0 \<longleftrightarrow> \<not> bit w 4"
    "w AND THR_MUSTJOIN = 0 \<longleftrightarrow> \<not> bit w 5" "w AND THR_JOINED = 0 \<longleftrightarrow> \<not> bit w 6"
    "w AND THR_EXTSTACK = 0 \<longleftrightarrow> \<not> bit w 8" "w AND THR_DEAD = 0 \<longleftrightarrow> \<not> bit w 9"
    "w AND THR_BLOCKPREP = 0 \<longleftrightarrow> \<not> bit w 10"
  using and_exp_eq_0_iff_not_bit [of w 0] and_exp_eq_0_iff_not_bit [of w 3]
    and_exp_eq_0_iff_not_bit [of w 4] and_exp_eq_0_iff_not_bit [of w 5]
    and_exp_eq_0_iff_not_bit [of w 6] and_exp_eq_0_iff_not_bit [of w 8]
    and_exp_eq_0_iff_not_bit [of w 9] and_exp_eq_0_iff_not_bit [of w 10]
  by simp_all

lemma small_numeral_bits: "bit (v :: u32) n \<Longrightarrow> v < 16 \<Longrightarrow> n < 4"
proof -
  assume b: "bit v n" and v: "v < 16"
  have "bit (unat v) n" using b by (simp add: bit_unsigned_iff)
  then have "unat v div 2 ^ n \<noteq> 0" unfolding bit_iff_odd by (metis even_zero)
  then have "2 ^ n \<le> unat v" by (simp add: div_eq_0_iff)
  also have "\<dots> < 2 ^ 4" using v by (simp add: word_less_nat_alt)
  finally show "n < 4" by (rule power_less_imp_less_exp [rotated]) simp
qed

lemma low_bits_eq:
  fixes w v m :: u32
  assumes "m < 16" "v < 16"
  shows "w AND m = v \<longleftrightarrow> (\<forall>n \<in> {0, 1, 2, 3}. (bit w n \<and> bit m n) = bit v n)"
proof
  assume e: "\<forall>n \<in> {0, 1, 2, 3}. (bit w n \<and> bit m n) = bit v n"
  have "(bit w n \<and> bit m n) = bit v n" for n
  proof (cases "n < 4")
    case True
    then have "n \<in> {0, 1, 2, 3}" by auto
    then show ?thesis using e by blast
  next
    case False
    then show ?thesis using small_numeral_bits assms by blast
  qed
  then show "w AND m = v" by (intro bit_word_eqI) (simp add: bit_and_iff)
qed (auto simp: bit_and_iff)

lemma queue_tests [simp]:
  fixes w :: u32
  shows "w AND THR_RUNQ = THR_RUNQ \<longleftrightarrow> bit w 0"
    "w AND THR_QMASK = 0 \<longleftrightarrow> \<not> bit w 0 \<and> \<not> bit w 1 \<and> \<not> bit w 2"
    "w AND THR_QMASK = THR_TIMEQ \<longleftrightarrow> \<not> bit w 0 \<and> bit w 1 \<and> \<not> bit w 2"
    "w AND THR_QMASK = THR_BLOCKQ \<longleftrightarrow> \<not> bit w 0 \<and> \<not> bit w 1 \<and> bit w 2"
    "w AND 0xF = THR_RUNNING \<longleftrightarrow> \<not> bit w 0 \<and> \<not> bit w 1 \<and> \<not> bit w 2 \<and> bit w 3"
proof -
  show "w AND THR_RUNQ = THR_RUNQ \<longleftrightarrow> bit w 0" by (subst low_bits_eq) auto
  show "w AND THR_QMASK = 0 \<longleftrightarrow> \<not> bit w 0 \<and> \<not> bit w 1 \<and> \<not> bit w 2" by (subst low_bits_eq) auto
  show "w AND THR_QMASK = THR_TIMEQ \<longleftrightarrow> \<not> bit w 0 \<and> bit w 1 \<and> \<not> bit w 2"
    by (subst low_bits_eq) auto
  show "w AND THR_QMASK = THR_BLOCKQ \<longleftrightarrow> \<not> bit w 0 \<and> \<not> bit w 1 \<and> bit w 2"
    by (subst low_bits_eq) auto
  show "w AND 0xF = THR_RUNNING \<longleftrightarrow> \<not> bit w 0 \<and> \<not> bit w 1 \<and> \<not> bit w 2 \<and> bit w 3"
    by (subst low_bits_eq) auto
qed

text \<open>The flags after \<open>setflags\<close>, bit by bit.\<close>

definition updfl :: "u32 \<Rightarrow> u32 \<Rightarrow> u32 \<Rightarrow> u32" where
  "updfl w r a = (w AND NOT r) OR a"

lemma updfl_bit [simp]: "bit (updfl w r a) n \<longleftrightarrow> (bit w n \<and> \<not> bit r n) \<or> bit a n"
  unfolding updfl_def by (auto simp: bit_simps dest: bit_imp_le_length)

section \<open>Reading updated states\<close>

lemma setflags_fields [simp]:
  "heap (setflags s t a r) = heap s" "kcont (setflags s t a r) = kcont s"
  "threadq (setflags s t a r) = threadq s" "zombieq (setflags s t a r) = zombieq s"
  "runq (setflags s t a r) = runq s" "blockq (setflags s t a r) = blockq s"
  "timeq (setflags s t a r) = timeq s" "joinwq (setflags s t a r) = joinwq s"
  "bmk_current (setflags s t a r) = bmk_current s" "spl (setflags s t a r) = spl s"
  "idle_calls (setflags s t a r) = idle_calls s"
  "bmk_stackpageorder (setflags s t a r) = bmk_stackpageorder s"
  "bt_stackbase (threads (setflags s t a r) u) = bt_stackbase (threads s u)"
  by (simp_all add: setflags_def)

lemma set_wakeup_fields [simp]:
  "heap (set_wakeup s t w) = heap s" "kcont (set_wakeup s t w) = kcont s"
  "threadq (set_wakeup s t w) = threadq s" "zombieq (set_wakeup s t w) = zombieq s"
  "runq (set_wakeup s t w) = runq s" "blockq (set_wakeup s t w) = blockq s"
  "timeq (set_wakeup s t w) = timeq s" "joinwq (set_wakeup s t w) = joinwq s"
  "bmk_current (set_wakeup s t w) = bmk_current s" "spl (set_wakeup s t w) = spl s"
  "idle_calls (set_wakeup s t w) = idle_calls s"
  "bmk_stackpageorder (set_wakeup s t w) = bmk_stackpageorder s"
  "bt_stackbase (threads (set_wakeup s t w) u) = bt_stackbase (threads s u)"
  by (simp_all add: set_wakeup_def)

lemma flags_of_upd [simp]:
  "flags_of (setflags s t a r) u = (if u = t then updfl (flags_of s t) r a else flags_of s u)"
  "flags_of (set_wakeup s t w) u = flags_of s u"
  "flags_of (s\<lparr>runq := q\<rparr>) = flags_of s" "flags_of (s\<lparr>timeq := q\<rparr>) = flags_of s"
  "flags_of (s\<lparr>blockq := q\<rparr>) = flags_of s" "flags_of (s\<lparr>threadq := q\<rparr>) = flags_of s"
  "flags_of (s\<lparr>zombieq := q\<rparr>) = flags_of s" "flags_of (s\<lparr>joinwq := jq\<rparr>) = flags_of s"
  "flags_of (s\<lparr>bmk_current := c\<rparr>) = flags_of s" "flags_of (s\<lparr>spl := b\<rparr>) = flags_of s"
  "flags_of (s\<lparr>kcont := k\<rparr>) = flags_of s" "flags_of (s\<lparr>heap := h\<rparr>) = flags_of s"
  "flags_of (s\<lparr>idle_calls := ic\<rparr>) = flags_of s" "flags_of (s\<lparr>hook_calls := hc\<rparr>) = flags_of s"
  "flags_of (s\<lparr>block_result := br\<rparr>) = flags_of s"
  by (simp_all add: flags_of_def setflags_def set_wakeup_def updfl_def fun_eq_iff)

lemma wakeup_of_upd [simp]:
  "wakeup_of (setflags s t a r) u = wakeup_of s u"
  "wakeup_of (set_wakeup s t w) u = (if u = t then w else wakeup_of s u)"
  "wakeup_of (s\<lparr>runq := q\<rparr>) = wakeup_of s" "wakeup_of (s\<lparr>timeq := q\<rparr>) = wakeup_of s"
  "wakeup_of (s\<lparr>blockq := q\<rparr>) = wakeup_of s" "wakeup_of (s\<lparr>threadq := q\<rparr>) = wakeup_of s"
  "wakeup_of (s\<lparr>zombieq := q\<rparr>) = wakeup_of s" "wakeup_of (s\<lparr>joinwq := jq\<rparr>) = wakeup_of s"
  "wakeup_of (s\<lparr>bmk_current := c\<rparr>) = wakeup_of s" "wakeup_of (s\<lparr>spl := b\<rparr>) = wakeup_of s"
  "wakeup_of (s\<lparr>kcont := k\<rparr>) = wakeup_of s" "wakeup_of (s\<lparr>heap := h\<rparr>) = wakeup_of s"
  "wakeup_of (s\<lparr>idle_calls := ic\<rparr>) = wakeup_of s" "wakeup_of (s\<lparr>hook_calls := hc\<rparr>) = wakeup_of s"
  "wakeup_of (s\<lparr>block_result := br\<rparr>) = wakeup_of s"
  by (simp_all add: wakeup_of_def setflags_def set_wakeup_def fun_eq_iff)

section \<open>The invariant\<close>

text \<open>One thread: its flags name the queue it is on, and only a deadline puts it on \<open>timeq\<close>.\<close>

definition thr_ok :: "sched \<Rightarrow> nat \<Rightarrow> bool" where
  "thr_ok s t \<longleftrightarrow>
     (t \<in> set (runq s) \<longleftrightarrow> bit (flags_of s t) 0) \<and> (t \<in> set (timeq s) \<longleftrightarrow> bit (flags_of s t) 1) \<and>
     (t \<in> set (blockq s) \<longleftrightarrow> bit (flags_of s t) 2) \<and>
     \<not> (bit (flags_of s t) 0 \<and> bit (flags_of s t) 1) \<and> \<not> (bit (flags_of s t) 0 \<and> bit (flags_of s t) 2) \<and>
     \<not> (bit (flags_of s t) 1 \<and> bit (flags_of s t) 2) \<and>
     (bit (flags_of s t) 0 \<or> bit (flags_of s t) 1 \<or> bit (flags_of s t) 2 \<or> bit (flags_of s t) 3) \<and>
     \<not> bit (flags_of s t) 9 \<and> (bit (flags_of s t) 3 \<longrightarrow> t = bmk_current s) \<and>
     (wakeup_of s t \<noteq> BLOCK_INFTIME \<longleftrightarrow> bit (flags_of s t) 1) \<and>
     (bit (flags_of s t) 4 \<longrightarrow> bit (flags_of s t) 0 \<and> bit (flags_of s t) 10)"

definition queues_ok :: "sched \<Rightarrow> bool" where
  "queues_ok s \<longleftrightarrow> distinct (threadq s @ zombieq s) \<and>
     distinct (runq s) \<and> distinct (timeq s) \<and> distinct (blockq s) \<and>
     set (runq s) \<subseteq> set (threadq s) \<and> set (timeq s) \<subseteq> set (threadq s) \<and> set (blockq s) \<subseteq> set (threadq s) \<and>
     sorted_wrt (\<lambda>a b. wakeup_of s a \<le> wakeup_of s b) (timeq s) \<and> (\<forall>t \<in> set (threadq s). thr_ok s t)"

text \<open>
  A thread that is switched out is on a queue: after a yield, or before it has ever run, it is
  runnable; in all other cases it has prepared to block. A dead thread is never switched to.
\<close>

definition kont_ok :: "sched \<Rightarrow> nat \<Rightarrow> bool" where
  "kont_ok s t \<longleftrightarrow> kcont s t \<noteq> K_exit \<and>
     (bit (flags_of s t) 0 \<or> bit (flags_of s t) 1 \<or> bit (flags_of s t) 2) \<and>
     (if kcont s t = K_start \<or> kcont s t = K_yield
      then bit (flags_of s t) 0 \<and> \<not> bit (flags_of s t) 10 else bit (flags_of s t) 10)"

text \<open>
  The join protocol for the threads \<open>W\<close> that are switched out: the waiters of \<open>joinwq\<close> are the
  threads inside \<open>bmk_sched_join\<close>, they wait for different live joinable threads, a waiter
  whose target has reached its exit is runnable, and so is a thread at its exit gate once it
  has been joined.
\<close>

definition joins_ok :: "sched \<Rightarrow> nat set \<Rightarrow> bool" where
  "joins_ok s W \<longleftrightarrow> distinct (map fst (joinwq s)) \<and> distinct (map snd (joinwq s)) \<and>
     (\<forall>(t, j) \<in> set (joinwq s). t \<in> W \<and> kcont s t = K_join j \<and> j \<in> set (threadq s) \<and> t \<noteq> j \<and>
        bit (flags_of s j) 5 \<and> (bit (flags_of s j) 6 \<longrightarrow> t \<in> set (runq s))) \<and>
     (\<forall>t \<in> W. \<forall>j. kcont s t = K_join j \<longrightarrow> (t, j) \<in> set (joinwq s)) \<and>
     (\<forall>t \<in> W. kcont s t = K_exitgate \<longrightarrow>
        bit (flags_of s t) 6 \<and> (bit (flags_of s t) 5 \<or> t \<in> set (runq s)))"

definition sched_inv :: "sched \<Rightarrow> nat set \<Rightarrow> bool" where
  "sched_inv s W \<longleftrightarrow> queues_ok s \<and> W \<subseteq> set (threadq s) \<and> (\<forall>t \<in> W. kont_ok s t) \<and> joins_ok s W"

text \<open>While a thread runs outside of the scheduler.\<close>

definition sched_user :: "sched \<Rightarrow> bool" where
  "sched_user s \<longleftrightarrow> sched_inv s (set (threadq s) - {bmk_current s}) \<and> \<not> spl s \<and>
     bmk_current s \<in> set (threadq s) \<and> bit (flags_of s (bmk_current s)) 3 \<and>
     \<not> bit (flags_of s (bmk_current s)) 4 \<and>
     (bit (flags_of s (bmk_current s)) 10 \<longleftrightarrow> bit (flags_of s (bmk_current s)) 0 \<or>
        bit (flags_of s (bmk_current s)) 1 \<or> bit (flags_of s (bmk_current s)) 2)"

section \<open>Wake-ups\<close>

text \<open>What a wake-up does to a live thread, whichever queue it is on.\<close>

definition woken :: "sched \<Rightarrow> nat \<Rightarrow> sched" where
  "woken s t =
     (let s1 = set_wakeup s t BLOCK_INFTIME in
      if bit (flags_of s t) 1 \<or> bit (flags_of s t) 2
      then setflags (s1\<lparr>timeq := remove1 t (timeq s), blockq := remove1 t (blockq s),
                        runq := runq s @ [t]\<rparr>) t THR_RUNQ THR_QMASK
      else s1)"

lemma wake_ok:
  assumes "queues_ok s" "t \<in> set (threadq s)"
  shows "bmk_sched_wake s t = Inr (woken s t)"
proof -
  have ok: "thr_ok s t" using assms by (simp add: queues_ok_def)
  have eq: "timeq s' = q \<Longrightarrow> s'\<lparr>timeq := q, blockq := bq, runq := rq\<rparr> = s'\<lparr>blockq := bq, runq := rq\<rparr>"
    "blockq s' = q \<Longrightarrow> s'\<lparr>timeq := tq, blockq := q, runq := rq\<rparr> = s'\<lparr>timeq := tq, runq := rq\<rparr>"
    for s' :: sched and q tq bq rq by auto
  show ?thesis
    using ok by (auto simp: bmk_sched_wake_def set_runnable_def woken_def Let_def thr_ok_def remove1_idem eq)
qed

lemma woken_fields [simp]:
  "heap (woken s t) = heap s" "kcont (woken s t) = kcont s"
  "threadq (woken s t) = threadq s" "zombieq (woken s t) = zombieq s"
  "joinwq (woken s t) = joinwq s" "bmk_current (woken s t) = bmk_current s" "spl (woken s t) = spl s"
  "idle_calls (woken s t) = idle_calls s" "bmk_stackpageorder (woken s t) = bmk_stackpageorder s"
  "bt_stackbase (threads (woken s t) u) = bt_stackbase (threads s u)"
  "wakeup_of (woken s t) u = (if u = t then BLOCK_INFTIME else wakeup_of s u)"
  by (simp_all add: woken_def Let_def)

definition is_blocked :: "sched \<Rightarrow> nat \<Rightarrow> bool" where
  "is_blocked s t \<longleftrightarrow> bit (flags_of s t) 1 \<or> bit (flags_of s t) 2"

lemma woken_queues:
  "runq (woken s t) = (if is_blocked s t then runq s @ [t] else runq s)"
  "timeq (woken s t) = (if is_blocked s t then remove1 t (timeq s) else timeq s)"
  "blockq (woken s t) = (if is_blocked s t then remove1 t (blockq s) else blockq s)"
  "flags_of (woken s t) u = (if u = t \<and> is_blocked s t then updfl (flags_of s t) THR_QMASK THR_RUNQ
     else flags_of s u)"
  by (simp_all add: woken_def Let_def is_blocked_def)

lemma queues_okD:
  assumes "queues_ok s"
  shows "distinct (threadq s @ zombieq s)" "distinct (runq s)" "distinct (timeq s)" "distinct (blockq s)"
    "set (runq s) \<subseteq> set (threadq s)" "set (timeq s) \<subseteq> set (threadq s)" "set (blockq s) \<subseteq> set (threadq s)"
    "sorted_wrt (\<lambda>a b. wakeup_of s a \<le> wakeup_of s b) (timeq s)" "\<And>t. t \<in> set (threadq s) \<Longrightarrow> thr_ok s t"
  using assms by (simp_all add: queues_ok_def)

lemma sorted_wrt_cong_set:
  "sorted_wrt P xs \<Longrightarrow> (\<And>a b. a \<in> set xs \<Longrightarrow> b \<in> set xs \<Longrightarrow> P a b \<Longrightarrow> Q a b) \<Longrightarrow> sorted_wrt Q xs"
  by (induction xs) auto

lemma sorted_wrt_remove1: "sorted_wrt P xs \<Longrightarrow> sorted_wrt P (remove1 x xs)"
  by (induction xs) (auto dest: notin_set_remove1)

lemma queues_ok_woken:
  assumes ok: "queues_ok s" and t: "t \<in> set (threadq s)"
  shows "queues_ok (woken s t)"
proof -
  note q = queues_okD [OF ok]
  have tt: "thr_ok s t" using q(9) t by blast
  have "thr_ok (woken s t) u" if "u \<in> set (threadq s)" for u
  proof (cases "u = t")
    case True
    show ?thesis
    proof (cases "is_blocked s t")
      case True
      then show ?thesis
        using tt q(3,4) unfolding \<open>u = t\<close> thr_ok_def woken_queues by (simp add: is_blocked_def)
    next
      case False
      then show ?thesis
        using tt unfolding \<open>u = t\<close> thr_ok_def woken_queues by (simp add: is_blocked_def)
    qed
  next
    case False
    then show ?thesis using q(9) [OF that] by (cases "is_blocked s t") (simp_all add: thr_ok_def woken_queues)
  qed
  moreover have "sorted_wrt (\<lambda>a b. wakeup_of (woken s t) a \<le> wakeup_of (woken s t) b) (timeq (woken s t))"
  proof (cases "is_blocked s t")
    case True
    have "sorted_wrt (\<lambda>a b. wakeup_of s a \<le> wakeup_of s b) (remove1 t (timeq s))"
      using q(8) by (rule sorted_wrt_remove1)
    then show ?thesis unfolding woken_queues if_P [OF True]
      by (rule sorted_wrt_cong_set) (use q(3) in auto)
  next
    case False
    then have "t \<notin> set (timeq s)" using tt by (simp add: thr_ok_def is_blocked_def)
    then show ?thesis unfolding woken_queues if_not_P [OF False]
      using q(8) by (auto elim!: sorted_wrt_cong_set)
  qed
  moreover have "t \<notin> set (runq s)" if "is_blocked s t" using tt that by (auto simp: thr_ok_def is_blocked_def)
  ultimately show ?thesis
    using q(1-7) t unfolding queues_ok_def by (auto simp: woken_queues dest: notin_set_remove1)
qed

lemma kont_ok_woken:
  assumes "queues_ok s" "kont_ok s u" "u \<in> set (threadq s)"
  shows "kont_ok (woken s t) u"
  using assms queues_okD(9) [OF assms(1,3)]
  by (auto simp: kont_ok_def woken_queues is_blocked_def thr_ok_def)

lemma joins_okI:
  assumes "distinct (map fst (joinwq s))" "distinct (map snd (joinwq s))"
    "\<And>t j. (t, j) \<in> set (joinwq s) \<Longrightarrow> t \<in> W \<and> kcont s t = K_join j \<and> j \<in> set (threadq s) \<and> t \<noteq> j \<and>
        bit (flags_of s j) 5 \<and> (bit (flags_of s j) 6 \<longrightarrow> t \<in> set (runq s))"
    "\<And>t j. t \<in> W \<Longrightarrow> kcont s t = K_join j \<Longrightarrow> (t, j) \<in> set (joinwq s)"
    "\<And>t. t \<in> W \<Longrightarrow> kcont s t = K_exitgate \<Longrightarrow>
        bit (flags_of s t) 6 \<and> (bit (flags_of s t) 5 \<or> t \<in> set (runq s))"
  shows "joins_ok s W"
  using assms unfolding joins_ok_def by blast

lemma joins_okD:
  assumes "joins_ok s W"
  shows "distinct (map fst (joinwq s))" "distinct (map snd (joinwq s))"
    "\<And>t j. (t, j) \<in> set (joinwq s) \<Longrightarrow> t \<in> W \<and> kcont s t = K_join j \<and> j \<in> set (threadq s) \<and> t \<noteq> j \<and>
        bit (flags_of s j) 5 \<and> (bit (flags_of s j) 6 \<longrightarrow> t \<in> set (runq s))"
    "\<And>t j. t \<in> W \<Longrightarrow> kcont s t = K_join j \<Longrightarrow> (t, j) \<in> set (joinwq s)"
    "\<And>t. t \<in> W \<Longrightarrow> kcont s t = K_exitgate \<Longrightarrow>
        bit (flags_of s t) 6 \<and> (bit (flags_of s t) 5 \<or> t \<in> set (runq s))"
  using assms unfolding joins_ok_def by blast+

text \<open>The join protocol depends on the queues only through who is runnable.\<close>

lemma joins_ok_frame:
  assumes "joins_ok s W" "joinwq s' = joinwq s" "\<And>t. t \<in> W \<Longrightarrow> kcont s' t = kcont s t"
    "set (threadq s) \<subseteq> set (threadq s')"
    "\<And>t. bit (flags_of s' t) 5 = bit (flags_of s t) 5" "\<And>t. bit (flags_of s' t) 6 = bit (flags_of s t) 6"
    "set (runq s) \<subseteq> set (runq s')"
  shows "joins_ok s' W"
proof -
  note d = joins_okD [OF assms(1)]
  show ?thesis
  proof (rule joins_okI, unfold assms(2))
    show "distinct (map fst (joinwq s))" "distinct (map snd (joinwq s))" by (rule d)+
    show "t \<in> W \<and> kcont s' t = K_join j \<and> j \<in> set (threadq s') \<and> t \<noteq> j \<and>
        bit (flags_of s' j) 5 \<and> (bit (flags_of s' j) 6 \<longrightarrow> t \<in> set (runq s'))"
      if "(t, j) \<in> set (joinwq s)" for t j
    proof -
      note e = d(3) [OF that]
      then have "kcont s' t = kcont s t" using assms(3) by blast
      then show ?thesis unfolding assms(5,6) using e assms(4,7) by (simp add: subset_iff)
    qed
    show "(t, j) \<in> set (joinwq s)" if "t \<in> W" "kcont s' t = K_join j" for t j
      using d(4) that assms(3) by simp
    show "bit (flags_of s' t) 6 \<and> (bit (flags_of s' t) 5 \<or> t \<in> set (runq s'))"
      if "t \<in> W" "kcont s' t = K_exitgate" for t
      unfolding assms(5,6) using d(5) [of t] that assms(3,7) by (simp add: subset_iff) blast
  qed
qed

lemma joins_ok_woken: "joins_ok s W \<Longrightarrow> joins_ok (woken s t) W"
  by (erule joins_ok_frame) (auto simp: woken_queues)

lemma sched_inv_woken:
  assumes "sched_inv s W" "t \<in> set (threadq s)"
  shows "sched_inv (woken s t) W"
  using assms queues_ok_woken kont_ok_woken joins_ok_woken unfolding sched_inv_def
  by (metis subset_iff woken_fields(3))

section \<open>What wake-ups leave alone\<close>

definition same_but_queues :: "sched \<Rightarrow> sched \<Rightarrow> bool" where
  "same_but_queues s s' \<longleftrightarrow> heap s' = heap s \<and> kcont s' = kcont s \<and> threadq s' = threadq s \<and>
     zombieq s' = zombieq s \<and> joinwq s' = joinwq s \<and> bmk_current s' = bmk_current s \<and> spl s' = spl s \<and>
     bmk_stackpageorder s' = bmk_stackpageorder s \<and>
     (\<forall>t. bt_stackbase (threads s' t) = bt_stackbase (threads s t)) \<and>
     (\<forall>t. \<forall>n \<in> {3, 5, 6, 8, 9, 10}. bit (flags_of s' t) n = bit (flags_of s t) n)"

lemma same_but_queues_refl [simp]: "same_but_queues s s"
  by (simp add: same_but_queues_def)

lemma same_but_queues_trans: "same_but_queues s s' \<Longrightarrow> same_but_queues s' s'' \<Longrightarrow> same_but_queues s s''"
  by (simp add: same_but_queues_def)

lemma same_but_queues_woken: "same_but_queues s (woken s t)"
  by (simp add: same_but_queues_def woken_queues)

lemma same_but_queues_idle: "same_but_queues s (s\<lparr>idle_calls := ic\<rparr>)"
  by (simp add: same_but_queues_def)

section \<open>Expired timeouts\<close>

definition timed_out :: "sched \<Rightarrow> nat \<Rightarrow> sched" where
  "timed_out s t = setflags (woken s t) t THR_TIMEDOUT 0"

lemma bit_16 [simp]: "bit (16 :: int) n \<longleftrightarrow> n = 4"
  using bit_exp_iff [where 'a = int, of 4 n] by auto

lemma timeout_wake:
  assumes "thr_ok s t" "t \<in> set (timeq s)"
  shows "bmk_sched_wake (setflags s t THR_TIMEDOUT 0) t = Inr (timed_out s t)"
proof -
  have b: "bit (flags_of s t) 1" "\<not> bit (flags_of s t) 0" "\<not> bit (flags_of s t) 2" "t \<notin> set (blockq s)"
    using assms by (auto simp: thr_ok_def)
  have "updfl (updfl f 0 THR_TIMEDOUT) THR_QMASK THR_RUNQ = updfl (updfl f THR_QMASK THR_RUNQ) 0 THR_TIMEDOUT" for f
    by (rule bit_word_eqI) auto
  then have swap: "setflags (setflags x t THR_TIMEDOUT 0) t THR_RUNQ THR_QMASK =
      setflags (setflags x t THR_RUNQ THR_QMASK) t THR_TIMEDOUT 0" for x
    by (simp add: setflags_def updfl_def)
  have bq: "blockq x = q \<Longrightarrow> x\<lparr>timeq := tq, blockq := q, runq := rq\<rparr> = x\<lparr>timeq := tq, runq := rq\<rparr>"
    for x :: sched and q tq rq by auto
  let ?s1 = "(set_wakeup s t BLOCK_INFTIME)\<lparr>timeq := remove1 t (timeq s), runq := runq s @ [t]\<rparr>"
  have "(set_wakeup (setflags s t THR_TIMEDOUT 0) t BLOCK_INFTIME)
      \<lparr>timeq := remove1 t (timeq s), runq := runq s @ [t]\<rparr> = setflags ?s1 t THR_TIMEDOUT 0"
    by (cases s, cases "threads s t") (simp add: setflags_def set_wakeup_def)
  moreover have "woken s t = setflags ?s1 t THR_RUNQ THR_QMASK"
    using b by (simp add: woken_def Let_def remove1_idem bq)
  ultimately show ?thesis
    using b swap [of ?s1] by (simp add: bmk_sched_wake_def set_runnable_def timed_out_def Let_def)
qed

end
