(* ===== verification/SchedPick.thy ===== *)
theory SchedPick
  imports SchedInv
begin

text \<open>
  The loop of \<open>schedule\<close>: expired timeouts become runnable in the order of their deadlines,
  the processor never sleeps past the next deadline, and the thread that is picked is the
  head of the run queue.
\<close>

section \<open>Timeouts\<close>

lemma sched_inv_timed_out:
  assumes inv: "sched_inv s (set (threadq s))" and t: "t \<in> set (timeq s)"
  shows "sched_inv (timed_out s t) (set (threadq s))"
proof -
  have q: "queues_ok s" using inv by (simp add: sched_inv_def)
  have live: "t \<in> set (threadq s)" using queues_okD(6) [OF q] t by blast
  have tt: "thr_ok s t" using queues_okD(9) [OF q live] .
  have b: "bit (flags_of s t) 1" using tt t by (simp add: thr_ok_def)
  have b10: "bit (flags_of s t) 10"
    using inv live tt b by (auto simp: sched_inv_def kont_ok_def thr_ok_def split: if_splits)
  have w: "sched_inv (woken s t) (set (threadq s))" using inv live by (rule sched_inv_woken)
  have fl: "flags_of (timed_out s t) u = (if u = t then updfl (flags_of (woken s t) t) 0 THR_TIMEDOUT
      else flags_of (woken s t) u)" for u by (simp add: timed_out_def)
  have "thr_ok (timed_out s t) u" if "u \<in> set (threadq s)" for u
  proof -
    have "thr_ok (woken s t) u"
      using w that queues_okD(9) [of "woken s t" u] by (simp add: sched_inv_def)
    then show ?thesis
      using b b10 tt by (cases "u = t") (auto simp: thr_ok_def fl timed_out_def woken_queues is_blocked_def)
  qed
  then have "queues_ok (timed_out s t)"
    using w by (auto simp: sched_inv_def queues_ok_def timed_out_def)
  moreover have "kont_ok (timed_out s t) u" if "u \<in> set (threadq s)" for u
    using w that by (auto simp: sched_inv_def kont_ok_def timed_out_def)
  moreover have "joins_ok (timed_out s t) (set (threadq s))"
  proof -
    have "joins_ok (woken s t) (set (threadq s))" using w by (simp add: sched_inv_def)
    then show ?thesis by (rule joins_ok_frame) (auto simp: timed_out_def)
  qed
  ultimately show ?thesis by (simp add: sched_inv_def timed_out_def)
qed

lemma timed_out_fields:
  assumes "thr_ok s t" "t \<in> set (timeq s)" "timeq s = t # q"
  shows "runq (timed_out s t) = runq s @ [t]" "timeq (timed_out s t) = q" "blockq (timed_out s t) = blockq s"
    "same_but_queues s (timed_out s t)" "idle_calls (timed_out s t) = idle_calls s"
    "\<And>u. wakeup_of (timed_out s t) u = (if u = t then BLOCK_INFTIME else wakeup_of s u)"
    "bit (flags_of (timed_out s t) t) 4" "\<And>u. u \<noteq> t \<Longrightarrow> flags_of (timed_out s t) u = flags_of s u"
proof -
  have b: "is_blocked s t" "t \<notin> set (blockq s)" using assms(1,2) by (auto simp: thr_ok_def is_blocked_def)
  then show "runq (timed_out s t) = runq s @ [t]" "timeq (timed_out s t) = q" "blockq (timed_out s t) = blockq s"
    "idle_calls (timed_out s t) = idle_calls s"
    "\<And>u. wakeup_of (timed_out s t) u = (if u = t then BLOCK_INFTIME else wakeup_of s u)"
    "bit (flags_of (timed_out s t) t) 4" "\<And>u. u \<noteq> t \<Longrightarrow> flags_of (timed_out s t) u = flags_of s u"
    by (simp_all add: timed_out_def woken_queues assms(3) remove1_idem)
  show "same_but_queues s (timed_out s t)"
    by (simp add: same_but_queues_def timed_out_def woken_queues)
qed

definition expired :: "sched \<Rightarrow> bmk_time \<Rightarrow> nat list" where
  "expired s now = takeWhile (\<lambda>t. wakeup_of s t \<le> now) (timeq s)"

definition pending :: "sched \<Rightarrow> bmk_time \<Rightarrow> nat list" where
  "pending s now = dropWhile (\<lambda>t. wakeup_of s t \<le> now) (timeq s)"

definition next_wake :: "sched \<Rightarrow> bmk_time \<Rightarrow> bmk_time \<Rightarrow> bmk_time" where
  "next_wake s now w = (case pending s now of [] \<Rightarrow> w | t # _ \<Rightarrow> min w (wakeup_of s t))"

lemma expire_ok:
  assumes "sched_inv s (set (threadq s))" "length (timeq s) \<le> n"
  shows "\<exists>s'. expire_timeouts n now w s = Inr (next_wake s now w, s') \<and> sched_inv s' (set (threadq s)) \<and>
    same_but_queues s s' \<and> runq s' = runq s @ expired s now \<and> timeq s' = pending s now \<and>
    blockq s' = blockq s \<and> idle_calls s' = idle_calls s \<and>
    (\<forall>u. u \<notin> set (expired s now) \<longrightarrow> wakeup_of s' u = wakeup_of s u \<and> flags_of s' u = flags_of s u) \<and>
    (\<forall>u \<in> set (expired s now). bit (flags_of s' u) 4)"
  using assms
proof (induction n arbitrary: s)
  case 0
  then have "timeq s = []" by simp
  then show ?case using 0
    by (subst expire_timeouts.simps) (simp add: expired_def pending_def next_wake_def)
next
  case (Suc n)
  show ?case
  proof (cases "timeq s")
    case Nil
    then show ?thesis using Suc.prems
      by (subst expire_timeouts.simps) (simp add: expired_def pending_def next_wake_def)
  next
    case (Cons t q)
    note tq = this
    show ?thesis
    proof (cases "wakeup_of s t \<le> now")
      case False
      then show ?thesis using Suc.prems Cons
        by (subst expire_timeouts.simps) (auto simp: expired_def pending_def next_wake_def min_def)
    next
      case True
      have qok: "queues_ok s" using Suc.prems by (simp add: sched_inv_def)
      have live: "t \<in> set (threadq s)" using queues_okD(6) [OF qok] Cons by auto
      have tt: "thr_ok s t" using queues_okD(9) [OF qok live] .
      have tin: "t \<in> set (timeq s)" and tnq: "t \<notin> set q" using Cons queues_okD(3) [OF qok] by simp_all
      note f = timed_out_fields [OF tt tin Cons]
      have same: "threadq (timed_out s t) = threadq s" using f(4) by (simp add: same_but_queues_def)
      have wk: "wakeup_of (timed_out s t) u = wakeup_of s u" if "u \<in> set q" for u
        using that tnq by (auto simp: f(6))
      have e: "expired (timed_out s t) now = takeWhile (\<lambda>u. wakeup_of s u \<le> now) q"
        "pending (timed_out s t) now = dropWhile (\<lambda>u. wakeup_of s u \<le> now) q"
        unfolding expired_def pending_def f(2) using wk by (auto intro: takeWhile_cong dropWhile_cong)
      have es: "expired s now = t # expired (timed_out s t) now" "pending s now = pending (timed_out s t) now"
        unfolding e unfolding expired_def pending_def Cons using True by simp_all
      have nw: "next_wake s now w = next_wake (timed_out s t) now w"
      proof (cases "pending s now")
        case (Cons u r)
        then have "u \<in> set q" using es(2) e(2) by (metis list.set_intros(1) set_dropWhileD)
        moreover have "pending (timed_out s t) now = u # r" using es(2) Cons by simp
        ultimately show ?thesis using Cons by (simp add: next_wake_def wk)
      qed (use es(2) in \<open>simp add: next_wake_def\<close>)
      have "sched_inv (timed_out s t) (set (threadq (timed_out s t)))" "length (timeq (timed_out s t)) \<le> n"
        using sched_inv_timed_out [OF Suc.prems(1) tin] Suc.prems(2) Cons by (simp_all add: same f(2))
      from Suc.IH [OF this] obtain s' where s':
        "expire_timeouts n now w (timed_out s t) = Inr (next_wake (timed_out s t) now w, s')"
        "sched_inv s' (set (threadq s))" "same_but_queues (timed_out s t) s'"
        "runq s' = runq (timed_out s t) @ expired (timed_out s t) now"
        "timeq s' = pending (timed_out s t) now" "blockq s' = blockq s" "idle_calls s' = idle_calls s"
        "\<And>u. u \<notin> set (expired (timed_out s t) now) \<Longrightarrow>
          wakeup_of s' u = wakeup_of (timed_out s t) u \<and> flags_of s' u = flags_of (timed_out s t) u"
        "\<forall>u \<in> set (expired (timed_out s t) now). bit (flags_of s' u) 4"
        unfolding same f(3,5) by blast
      have step: "expire_timeouts (Suc n) now w s = expire_timeouts n now w (timed_out s t)"
        using True timeout_wake [OF tt tin] by (subst expire_timeouts.simps) (simp add: Cons)
      have notin: "t \<notin> set (expired (timed_out s t) now)" using tnq set_takeWhileD unfolding e by metis
      show ?thesis
      proof (intro exI [of _ s'] conjI)
        show "same_but_queues s s'" using f(4) s'(3) by (rule same_but_queues_trans)
        show "\<forall>u. u \<notin> set (expired s now) \<longrightarrow> wakeup_of s' u = wakeup_of s u \<and> flags_of s' u = flags_of s u"
          using s'(8) f(6,8) by (auto simp: es(1))
        show "\<forall>u \<in> set (expired s now). bit (flags_of s' u) 4"
          using s'(8) [OF notin] s'(9) f(7) by (auto simp: es(1))
      qed (use s' step nw es f(1) in simp_all)
    qed
  qed
qed

section \<open>Wake-ups by interrupts\<close>

lemma wake_all_ok:
  assumes "sched_inv s W" "set ts \<subseteq> set (threadq s)"
  shows "\<exists>s'. wake_all ts s = Inr s' \<and> sched_inv s' W \<and> same_but_queues s s' \<and> idle_calls s' = idle_calls s \<and>
    set (runq s) \<subseteq> set (runq s') \<and> (\<forall>t \<in> set ts \<inter> W. t \<in> set (runq s'))"
  using assms
proof (induction ts arbitrary: s)
  case (Cons t ts)
  have q: "queues_ok s" and live: "t \<in> set (threadq s)" using Cons.prems by (simp_all add: sched_inv_def)
  have "sched_inv (woken s t) W" "set ts \<subseteq> set (threadq (woken s t))"
    using Cons.prems sched_inv_woken live by simp_all
  from Cons.IH [OF this] obtain s' where s': "wake_all ts (woken s t) = Inr s'" "sched_inv s' W"
    "same_but_queues (woken s t) s'" "idle_calls s' = idle_calls s" "set (runq (woken s t)) \<subseteq> set (runq s')"
    "\<forall>t \<in> set ts \<inter> W. t \<in> set (runq s')" by auto
  have "t \<in> set (runq (woken s t))" if "t \<in> W"
    using Cons.prems(1) that queues_okD(9) [OF q live]
    by (auto simp: sched_inv_def kont_ok_def woken_queues thr_ok_def is_blocked_def)
  moreover have "set (runq s) \<subseteq> set (runq (woken s t))" by (auto simp: woken_queues)
  ultimately show ?case
    using s' same_but_queues_trans [OF same_but_queues_woken s'(3)] by (auto simp: wake_ok [OF q live])
qed simp

section \<open>Picking the next thread\<close>

definition rounds_ok :: "rounds \<Rightarrow> nat set \<Rightarrow> bool" where
  "rounds_ok rs T \<longleftrightarrow> (\<forall>r \<in> set rs. set (snd r) \<subseteq> T)"

lemma sched_inv_idle: "sched_inv (s\<lparr>idle_calls := ic\<rparr>) W = sched_inv s W"
  by (simp add: sched_inv_def queues_ok_def thr_ok_def kont_ok_def joins_ok_def)

lemma sched_pick_ok:
  assumes "sched_inv s (set (threadq s))" "rounds_ok rs (set (threadq s))"
  shows "sched_pick rs s = Inl Out_of_fuel \<or>
    (\<exists>next s' rs' pre. sched_pick rs s = Inr (next, s', rs') \<and> rs = pre @ rs' \<and> sched_inv s' (set (threadq s)) \<and>
       same_but_queues s s' \<and> runq s' \<noteq> [] \<and> next = hd (runq s'))"
  using assms
proof (induction rs arbitrary: s)
  case (Cons r rs)
  obtain now ints where r: "r = (now, ints)" by fastforce
  from expire_ok [OF Cons.prems(1) order_refl, of now "now + BLOCKTIME_MAX"] obtain w s1 where
    e: "expire_timeouts (length (timeq s)) now (now + BLOCKTIME_MAX) s = Inr (w, s1)"
    and inv: "sched_inv s1 (set (threadq s))" and same: "same_but_queues s s1" by blast
  have tq: "threadq s1 = threadq s" using same by (simp add: same_but_queues_def)
  show ?case
  proof (cases "runq s1")
    case Nil
    define s2 where "s2 = s1\<lparr>idle_calls := w # idle_calls s1\<rparr>"
    have "sched_inv s2 (set (threadq s))" using inv by (simp add: s2_def sched_inv_idle)
    moreover have "set ints \<subseteq> set (threadq s2)" using Cons.prems(2) by (simp add: rounds_ok_def r s2_def tq)
    ultimately obtain s3 where s3: "wake_all ints s2 = Inr s3" "sched_inv s3 (set (threadq s))"
      "same_but_queues s2 s3" using wake_all_ok [of s2 "set (threadq s)" ints] by auto
    have same3: "same_but_queues s s3"
      using same same_but_queues_idle s3(3) unfolding s2_def by (blast intro: same_but_queues_trans)
    then have tq3: "threadq s3 = threadq s" by (simp add: same_but_queues_def)
    have "rounds_ok rs (set (threadq s3))" using Cons.prems(2) by (simp add: rounds_ok_def tq3)
    then have IH: "sched_pick rs s3 = Inl Out_of_fuel \<or>
      (\<exists>next s' rs' pre. sched_pick rs s3 = Inr (next, s', rs') \<and> rs = pre @ rs' \<and> sched_inv s' (set (threadq s)) \<and>
         same_but_queues s3 s' \<and> runq s' \<noteq> [] \<and> next = hd (runq s'))"
      using Cons.IH [of s3] s3(2) by (simp only: tq3)
    have step: "sched_pick (r # rs) s = sched_pick rs s3" by (simp add: r e Nil s3(1) s2_def [symmetric])
    from IH show ?thesis
    proof (elim disjE exE conjE)
      fix nx s' rs' pre assume a: "sched_pick rs s3 = Inr (nx, s', rs')" "rs = pre @ rs'"
        "sched_inv s' (set (threadq s))" "same_but_queues s3 s'" "runq s' \<noteq> []" "nx = hd (runq s')"
      have "same_but_queues s s'" using same3 a(4) by (rule same_but_queues_trans)
      moreover have "r # rs = (r # pre) @ rs'" using a(2) by simp
      ultimately show ?thesis using a(1,3,5,6) unfolding step by blast
    qed (simp add: step)
  next
    case (Cons n q)
    have "n \<in> set (threadq s)" using inv queues_okD(5) [of s1] Cons tq by (auto simp: sched_inv_def)
    then have "thr_ok s1 n" using inv queues_okD(9) [of s1 n] tq by (simp add: sched_inv_def)
    then have "bit (flags_of s1 n) 0" "\<not> bit (flags_of s1 n) 9" using Cons by (auto simp: thr_ok_def)
    then have "sched_pick (r # rs) s = Inr (n, s1, rs)" using e by (simp add: r Cons)
    moreover have "r # rs = [r] @ rs" by simp
    moreover have "runq s1 \<noteq> []" "n = hd (runq s1)" using Cons by simp_all
    ultimately show ?thesis using inv same by blast
  qed
qed simp

text \<open>When the loop is bound to find a thread.\<close>

definition will_run :: "sched \<Rightarrow> rounds \<Rightarrow> bool" where
  "will_run s rs \<longleftrightarrow> rs \<noteq> [] \<and> (runq s \<noteq> [] \<or>
     (timeq s \<noteq> [] \<and> (\<exists>r \<in> set rs. wakeup_of s (hd (timeq s)) \<le> fst r)) \<or>
     (\<exists>r \<in> set (butlast rs). snd r \<noteq> []))"

lemma sched_pick_lives:
  assumes "sched_inv s (set (threadq s))" "rounds_ok rs (set (threadq s))" "will_run s rs"
  shows "sched_pick rs s \<noteq> Inl Out_of_fuel"
  using assms
proof (induction rs arbitrary: s)
  case Nil
  then show ?case by (simp add: will_run_def)
next
  case (Cons r rs)
  obtain now ints where r: "r = (now, ints)" by fastforce
  from expire_ok [OF Cons.prems(1) order_refl, of now "now + BLOCKTIME_MAX"] obtain w s1 where
    e: "expire_timeouts (length (timeq s)) now (now + BLOCKTIME_MAX) s = Inr (w, s1)"
    and inv: "sched_inv s1 (set (threadq s))" and same: "same_but_queues s s1"
    and rq: "runq s1 = runq s @ expired s now" and tq1: "timeq s1 = pending s now"
    and wk: "\<forall>u. u \<notin> set (expired s now) \<longrightarrow> wakeup_of s1 u = wakeup_of s u" by blast
  have tq: "threadq s1 = threadq s" using same by (simp add: same_but_queues_def)
  show ?case
  proof (cases "runq s1")
    case Nil
    then have ex: "runq s = []" "expired s now = []" using rq by simp_all
    then have tqs: "timeq s1 = timeq s" using tq1
      unfolding expired_def pending_def by (metis append_Nil takeWhile_dropWhile_id)
    define s2 where "s2 = s1\<lparr>idle_calls := w # idle_calls s1\<rparr>"
    have "sched_inv s2 (set (threadq s))" using inv by (simp add: s2_def sched_inv_idle)
    moreover have ints: "set ints \<subseteq> set (threadq s2)" using Cons.prems(2) by (simp add: rounds_ok_def r s2_def tq)
    ultimately obtain s3 where s3: "wake_all ints s2 = Inr s3" "sched_inv s3 (set (threadq s))"
      "same_but_queues s2 s3" "\<forall>t \<in> set ints \<inter> set (threadq s). t \<in> set (runq s3)"
      using wake_all_ok [of s2 "set (threadq s)" ints] by auto
    have tq3: "threadq s3 = threadq s" using s3(3) tq by (simp add: same_but_queues_def s2_def)
    have "will_run s3 rs"
    proof (cases "ints = []")
      case False
      then obtain t where "t \<in> set ints" using hd_in_set by blast
      then have "runq s3 \<noteq> []" using s3(4) ints by (auto simp: s2_def tq)
      moreover have "rs \<noteq> []"
      proof
        assume "rs = []"
        then have "\<exists>r \<in> set [r]. timeq s \<noteq> [] \<and> wakeup_of s (hd (timeq s)) \<le> fst r"
          using Cons.prems(3) ex(1) by (auto simp: will_run_def)
        then show False using ex(2) by (auto simp: expired_def r neq_Nil_conv)
      qed
      ultimately show ?thesis by (simp add: will_run_def)
    next
      case True
      then have "s3 = s2" using s3(1) by simp
      moreover have "\<not> (timeq s \<noteq> [] \<and> wakeup_of s (hd (timeq s)) \<le> now)"
        using ex(2) by (auto simp: expired_def neq_Nil_conv)
      ultimately show ?thesis
        using Cons.prems(3) ex True wk tqs unfolding will_run_def
        by (auto simp: s2_def r split: if_splits)
    qed
    moreover have "rounds_ok rs (set (threadq s3))" using Cons.prems(2) by (simp add: rounds_ok_def tq3)
    ultimately have "sched_pick rs s3 \<noteq> Inl Out_of_fuel" using Cons.IH [of s3] s3(2) tq3 by simp
    moreover have "sched_pick (r # rs) s = sched_pick rs s3" by (simp add: r e Nil s3(1) s2_def [symmetric])
    ultimately show ?thesis by simp
  next
    case (Cons n q)
    then show ?thesis using e by (simp add: r guardR_def)
  qed
qed

end
