(* ===== verification/SchedOps.thy ===== *)
theory SchedOps
  imports SchedPick
begin

text \<open>
  What the routines around \<open>schedule()\<close> do to the invariant: preparing to block, being
  switched to, leaving \<open>bmk_sched_block\<close>, and the two sides of the join protocol.
\<close>

section \<open>Threads that a step does not touch\<close>

lemma thr_ok_frame:
  assumes "thr_ok s x" "flags_of s' x = flags_of s x" "wakeup_of s' x = wakeup_of s x"
    "x \<in> set (runq s') \<longleftrightarrow> x \<in> set (runq s)" "x \<in> set (timeq s') \<longleftrightarrow> x \<in> set (timeq s)"
    "x \<in> set (blockq s') \<longleftrightarrow> x \<in> set (blockq s)"
    "bit (flags_of s x) 3 \<Longrightarrow> x = bmk_current s \<Longrightarrow> x = bmk_current s'"
  shows "thr_ok s' x"
  using assms(1,7) unfolding thr_ok_def assms(2-6) by blast

lemma kont_ok_frame:
  assumes "kont_ok s x" "flags_of s' x = flags_of s x" "kcont s' x = kcont s x"
  shows "kont_ok s' x"
  using assms by (simp add: kont_ok_def)

section \<open>Preparing to block\<close>

lemma timeq_place_cases:
  assumes "sorted_wrt (\<lambda>a b. w a \<le> w b) q"
  shows "timeq_place w t q = (if q = [] \<or> w (last q) \<le> w t then None
    else Some (takeWhile (\<lambda>u. w u \<le> w t) q @ t # dropWhile (\<lambda>u. w u \<le> w t) q))"
  using assms
proof (induction q)
  case (Cons u q)
  show ?case
  proof (cases "w u \<le> w t")
    case True
    then show ?thesis using Cons by (auto simp: not_le [symmetric])
  next
    case False
    have "w u \<le> w (last (u # q))" using Cons.prems by (cases q) auto
    then show ?thesis using False by auto
  qed
qed simp

lemma sorted_insert_at:
  fixes w :: "nat \<Rightarrow> int"
  assumes "sorted_wrt (\<lambda>a b. w a \<le> w b) q"
  shows "sorted_wrt (\<lambda>a b. w a \<le> w b) (takeWhile (\<lambda>u. w u \<le> w t) q @ t # dropWhile (\<lambda>u. w u \<le> w t) q)"
  using assms
proof (induction q)
  case (Cons u q)
  show ?case
  proof (cases "w u \<le> w t")
    case True
    then show ?thesis using Cons set_takeWhileD [of _ "\<lambda>u. w u \<le> w t" q] set_dropWhileD [of _ "\<lambda>u. w u \<le> w t" q]
      by auto
  next
    case False
    then show ?thesis using Cons.prems by (auto intro: order_trans [of "w t" "w u"])
  qed
qed simp

definition deadline_insert :: "(nat \<Rightarrow> bmk_time) \<Rightarrow> nat \<Rightarrow> nat list \<Rightarrow> nat list" where
  "deadline_insert w t q = takeWhile (\<lambda>u. w u \<le> w t) q @ t # dropWhile (\<lambda>u. w u \<le> w t) q"

lemma timeq_sorted_insert_ok:
  assumes "sorted_wrt (\<lambda>a b. wakeup_of s a \<le> wakeup_of s b) (timeq s)" "wakeup_of s t \<noteq> BLOCK_INFTIME"
  shows "timeq_sorted_insert s t = Inr (s\<lparr>timeq := deadline_insert (wakeup_of s) t (timeq s)\<rparr>)"
proof (cases "timeq s = [] \<or> wakeup_of s (last (timeq s)) \<le> wakeup_of s t")
  case True
  have "wakeup_of s u \<le> wakeup_of s t" if "u \<in> set (timeq s)" for u
  proof -
    have ne: "timeq s \<noteq> []" using that by auto
    have "sorted_wrt (\<lambda>a b. wakeup_of s a \<le> wakeup_of s b) (butlast (timeq s) @ [last (timeq s)])"
      using assms(1) ne by simp
    moreover have "u \<in> set (butlast (timeq s) @ [last (timeq s)])" using that ne by simp
    ultimately have "wakeup_of s u \<le> wakeup_of s (last (timeq s))"
      unfolding sorted_wrt_append by auto
    then show ?thesis using True ne by simp
  qed
  then have "deadline_insert (wakeup_of s) t (timeq s) = timeq s @ [t]"
    by (simp add: deadline_insert_def takeWhile_eq_all_conv [THEN iffD2] dropWhile_eq_Nil_conv [THEN iffD2])
  then show ?thesis
    using True assms timeq_place_cases [OF assms(1), of t] by (auto simp: timeq_sorted_insert_def)
next
  case False
  then show ?thesis
    using assms timeq_place_cases [OF assms(1), of t]
    by (auto simp: timeq_sorted_insert_def deadline_insert_def)
qed

lemma deadline_insert_set: "set (deadline_insert w t q) = insert t (set q)"
  unfolding deadline_insert_def by (metis (no_types, lifting) Un_insert_right list.simps(15) set_append takeWhile_dropWhile_id)

lemma deadline_insert_distinct: "distinct q \<Longrightarrow> t \<notin> set q \<Longrightarrow> distinct (deadline_insert w t q)"
  unfolding deadline_insert_def
  by (metis (no_types, lifting) distinct.simps(2) distinct_append set_append takeWhile_dropWhile_id
      disjoint_insert(1) list.simps(15) UnCI set_dropWhileD set_takeWhileD)

text \<open>The state after \<open>bmk_sched_blockprepare_timeout\<close>.\<close>

definition prepared :: "sched \<Rightarrow> bmk_time \<Rightarrow> sched" where
  "prepared s d =
     (let c = bmk_current s;
          s1 = setflags (set_wakeup s c d) c THR_BLOCKPREP 0
      in if d \<noteq> BLOCK_INFTIME
         then setflags (s1\<lparr>timeq := deadline_insert (wakeup_of s1) c (timeq s)\<rparr>) c THR_TIMEQ 0
         else setflags (s1\<lparr>blockq := blockq s @ [c]\<rparr>) c THR_BLOCKQ 0)"

lemma sched_userD:
  assumes "sched_user s"
  shows "sched_inv s (set (threadq s) - {bmk_current s})" "\<not> spl s" "bmk_current s \<in> set (threadq s)"
    "bit (flags_of s (bmk_current s)) 3" "\<not> bit (flags_of s (bmk_current s)) 4" "queues_ok s"
    "joins_ok s (set (threadq s) - {bmk_current s})"
    "\<And>t. t \<in> set (threadq s) \<Longrightarrow> t \<noteq> bmk_current s \<Longrightarrow> kont_ok s t"
  using assms by (simp_all add: sched_user_def sched_inv_def)

lemma blockprepare_ok:
  assumes u: "sched_user s" and nb: "\<not> bit (flags_of s (bmk_current s)) 10"
  shows "bmk_sched_blockprepare_timeout s d = Inr (prepared s d)"
proof -
  define c where "c = bmk_current s"
  note q = queues_okD [OF sched_userD(6) [OF u]]
  have tt: "thr_ok s c" using q(9) sched_userD(3) [OF u] by (simp add: c_def)
  have b: "\<not> bit (flags_of s c) 0" "\<not> bit (flags_of s c) 1" "\<not> bit (flags_of s c) 2"
    using u nb unfolding sched_user_def c_def [symmetric] by blast+
  have nt: "c \<notin> set (timeq s)" using tt b(2) by (simp add: thr_ok_def)
  define s1 where "s1 = setflags (set_wakeup s c d) c THR_BLOCKPREP 0"
  have w1: "wakeup_of s1 x = (if x = c then d else wakeup_of s x)" for x by (simp add: s1_def)
  have t1: "timeq s1 = timeq s" by (simp add: s1_def)
  have "sorted_wrt (\<lambda>a b. wakeup_of s1 a \<le> wakeup_of s1 b) (timeq s1)"
    unfolding t1 using q(8) by (rule sorted_wrt_cong_set) (use nt in \<open>auto simp: w1\<close>)
  then have "timeq_sorted_insert s1 c = Inr (s1\<lparr>timeq := deadline_insert (wakeup_of s1) c (timeq s1)\<rparr>)"
    if "d \<noteq> BLOCK_INFTIME" using that by (intro timeq_sorted_insert_ok) (simp_all add: w1)
  moreover have "bit (flags_of s c) 3" using sched_userD(4) [OF u] by (simp add: c_def)
  ultimately show ?thesis
    using b(1) nb unfolding bmk_sched_blockprepare_timeout_def clear_runnable_def prepared_def Let_def
      c_def [symmetric] s1_def [symmetric]
    by (simp add: w1) (simp add: s1_def c_def)
qed

lemma prepared_fields [simp]:
  "heap (prepared s d) = heap s" "kcont (prepared s d) = kcont s" "threadq (prepared s d) = threadq s"
  "zombieq (prepared s d) = zombieq s" "joinwq (prepared s d) = joinwq s" "runq (prepared s d) = runq s"
  "bmk_current (prepared s d) = bmk_current s" "spl (prepared s d) = spl s"
  "bmk_stackpageorder (prepared s d) = bmk_stackpageorder s"
  "bt_stackbase (threads (prepared s d) u) = bt_stackbase (threads s u)"
  "wakeup_of (prepared s d) u = (if u = bmk_current s then d else wakeup_of s u)"
  by (simp_all add: prepared_def Let_def)

lemma prepared_queues:
  "set (timeq (prepared s d)) = (if d \<noteq> BLOCK_INFTIME then insert (bmk_current s) (set (timeq s)) else set (timeq s))"
  "blockq (prepared s d) = (if d \<noteq> BLOCK_INFTIME then blockq s else blockq s @ [bmk_current s])"
  "flags_of (prepared s d) u = (if u = bmk_current s then updfl (updfl (flags_of s u) 0 THR_BLOCKPREP) 0
     (if d \<noteq> BLOCK_INFTIME then THR_TIMEQ else THR_BLOCKQ) else flags_of s u)"
  by (simp_all add: prepared_def Let_def deadline_insert_set)

lemma prepared_user:
  assumes u: "sched_user s" and nb: "\<not> bit (flags_of s (bmk_current s)) 10"
  shows "sched_user (prepared s d)" "bit (flags_of (prepared s d) (bmk_current s)) 10"
proof -
  define c where "c = bmk_current s"
  note uD = sched_userD [OF u] and q = queues_okD [OF sched_userD(6) [OF u]]
  have tt: "thr_ok s c" and c: "c \<in> set (threadq s)" "bit (flags_of s c) 3" "\<not> bit (flags_of s c) 4"
    using q(9) uD(3-5) by (simp_all add: c_def)
  have b: "\<not> bit (flags_of s c) 0" "\<not> bit (flags_of s c) 1" "\<not> bit (flags_of s c) 2"
    using u nb unfolding sched_user_def c_def [symmetric] by blast+
  have nt: "c \<notin> set (timeq s)" "c \<notin> set (blockq s)" "c \<notin> set (runq s)" using tt b by (simp_all add: thr_ok_def)
  have fl: "flags_of (prepared s d) x = (if x = c then updfl (updfl (flags_of s x) 0 THR_BLOCKPREP) 0
     (if d \<noteq> BLOCK_INFTIME then THR_TIMEQ else THR_BLOCKQ) else flags_of s x)" for x
    by (simp add: prepared_queues c_def)
  have "thr_ok (prepared s d) x" if "x \<in> set (threadq s)" for x
  proof (cases "x = c")
    case True
    then show ?thesis using tt b c nt
      by (cases "d \<noteq> BLOCK_INFTIME") (simp_all add: thr_ok_def fl prepared_queues c_def [symmetric])
  next
    case False
    then show ?thesis by (intro thr_ok_frame [OF q(9) [OF that]]) (simp_all add: fl prepared_queues flip: c_def)
  qed
  moreover have "sorted_wrt (\<lambda>a b. wakeup_of (prepared s d) a \<le> wakeup_of (prepared s d) b) (timeq (prepared s d))"
  proof (cases "d \<noteq> BLOCK_INFTIME")
    case True
    have w: "wakeup_of (prepared s d) = wakeup_of (setflags (set_wakeup s c d) c THR_BLOCKPREP 0)"
      by (simp add: fun_eq_iff c_def)
    have tq: "timeq (prepared s d) = deadline_insert (wakeup_of (prepared s d)) c (timeq s)"
      unfolding w using True by (simp add: prepared_def Let_def c_def)
    have "sorted_wrt (\<lambda>a b. wakeup_of (prepared s d) a \<le> wakeup_of (prepared s d) b) (timeq s)"
      using q(8) by (rule sorted_wrt_cong_set) (use nt(1) in \<open>auto simp: c_def\<close>)
    then show ?thesis unfolding tq deadline_insert_def by (rule sorted_insert_at)
  next
    case False
    have tq: "timeq (prepared s d) = timeq s" using False by (simp add: prepared_def Let_def)
    show ?thesis unfolding tq using q(8) by (rule sorted_wrt_cong_set) (use nt(1) in \<open>auto simp: c_def\<close>)
  qed
  moreover have "distinct (timeq (prepared s d))"
    using q(3) nt(1) deadline_insert_distinct [of "timeq s" c] by (auto simp: prepared_def Let_def c_def)
  moreover have "distinct (blockq (prepared s d))" using q(4) nt(2) by (simp add: prepared_queues c_def)
  ultimately have "queues_ok (prepared s d)"
    using q(1,2,5-7) c(1) unfolding queues_ok_def by (simp add: prepared_queues c_def)
  moreover have "kont_ok (prepared s d) x" if "x \<in> set (threadq s)" "x \<noteq> c" for x
    using uD(8) [OF that(1)] that(2) by (simp add: kont_ok_def fl c_def)
  moreover have "joins_ok (prepared s d) (set (threadq s) - {c})"
    using uD(7) unfolding c_def [symmetric] by (rule joins_ok_frame) (simp_all add: fl)
  ultimately show "sched_user (prepared s d)" "bit (flags_of (prepared s d) (bmk_current s)) 10"
    using uD(2) c b unfolding sched_user_def sched_inv_def by (simp_all add: fl flip: c_def)
qed

section \<open>Entering schedule()\<close>

lemma joins_ok_kcont:
  assumes j: "joins_ok s (T - {c})" and c: "c \<in> T" "T = set (threadq s)"
    and k: "k \<noteq> K_exitgate" "\<And>j. k \<noteq> K_join j"
  shows "joins_ok (s\<lparr>kcont := (kcont s)(c := k)\<rparr>) T"
  using assms unfolding joins_ok_def by (auto split: if_splits)

text \<open>A thread that has prepared to block enters \<open>schedule()\<close> from \<open>bmk_sched_block\<close>.\<close>

lemma enter_block:
  assumes u: "sched_user s" and b: "bit (flags_of s (bmk_current s)) 10"
  shows "sched_inv (s\<lparr>kcont := (kcont s)(bmk_current s := K_block)\<rparr>) (set (threadq s))"
proof -
  define c where "c = bmk_current s"
  note uD = sched_userD [OF u, folded c_def]
  let ?s = "s\<lparr>kcont := (kcont s)(c := K_block)\<rparr>"
  have "queues_ok ?s" using uD(6) by (simp add: queues_ok_def thr_ok_def)
  moreover have "kont_ok ?s x" if "x \<in> set (threadq s)" for x
    using uD(8) [OF that] u b by (cases "x = c") (auto simp: kont_ok_def sched_user_def c_def)
  moreover have "joins_ok ?s (set (threadq s))" using uD(7,3) by (intro joins_ok_kcont) simp_all
  ultimately show ?thesis by (simp add: sched_inv_def flip: c_def)
qed

lemma enter_yield:
  assumes u: "sched_user s" and b: "\<not> bit (flags_of s (bmk_current s)) 10"
  defines "s' \<equiv> setflags (s\<lparr>runq := runq s @ [bmk_current s]\<rparr>) (bmk_current s) THR_RUNQ THR_RUNNING"
  shows "sched_inv (s'\<lparr>kcont := (kcont s)(bmk_current s := K_yield)\<rparr>) (set (threadq s))"
proof -
  define c where "c = bmk_current s"
  note uD = sched_userD [OF u, folded c_def] and q = queues_okD [OF sched_userD(6) [OF u]]
  let ?s = "s'\<lparr>kcont := (kcont s)(c := K_yield)\<rparr>"
  have tt: "thr_ok s c" using q(9) uD(3) by simp
  have nb: "\<not> bit (flags_of s c) 0" "\<not> bit (flags_of s c) 1" "\<not> bit (flags_of s c) 2"
    using u b unfolding sched_user_def c_def [symmetric] by blast+
  have nt: "c \<notin> set (timeq s)" "c \<notin> set (blockq s)" "c \<notin> set (runq s)" using tt nb by (simp_all add: thr_ok_def)
  have fl: "flags_of ?s x = (if x = c then updfl (flags_of s c) THR_RUNNING THR_RUNQ else flags_of s x)" for x
    by (simp add: s'_def c_def)
  have wk: "wakeup_of ?s = wakeup_of s" by (simp add: s'_def fun_eq_iff)
  have "thr_ok ?s x" if "x \<in> set (threadq s)" for x
  proof (cases "x = c")
    case True
    then show ?thesis using tt nb nt uD(5) by (simp add: thr_ok_def fl wk) (simp add: s'_def c_def)
  next
    case False
    then show ?thesis by (intro thr_ok_frame [OF q(9) [OF that]]) (simp_all add: fl wk, simp_all add: s'_def c_def)
  qed
  then have "queues_ok ?s"
    using q nt(3) uD(3) unfolding queues_ok_def wk by (simp add: s'_def c_def)
  moreover have "kont_ok ?s x" if "x \<in> set (threadq s)" for x
    using uD(8) [OF that] b by (cases "x = c") (simp_all add: kont_ok_def fl c_def, simp_all add: s'_def)
  moreover have "joins_ok ?s (set (threadq s))"
  proof -
    have "joins_ok s' (set (threadq s) - {c})"
      using uD(7) by (rule joins_ok_frame) (auto simp: s'_def c_def)
    then have "joins_ok (s'\<lparr>kcont := (kcont s')(c := K_yield)\<rparr>) (set (threadq s))"
      using uD(3) by (intro joins_ok_kcont) (simp_all add: s'_def)
    then show ?thesis by (simp add: s'_def)
  qed
  ultimately show ?thesis by (simp add: sched_inv_def s'_def flip: c_def)
qed

section \<open>Exit and join\<close>

text \<open>What these routines leave alone.\<close>

definition same_threads :: "sched \<Rightarrow> sched \<Rightarrow> bool" where
  "same_threads s s' \<longleftrightarrow> heap s' = heap s \<and> kcont s' = kcont s \<and> threadq s' = threadq s \<and>
     zombieq s' = zombieq s \<and> bmk_current s' = bmk_current s \<and> spl s' = spl s \<and>
     bmk_stackpageorder s' = bmk_stackpageorder s \<and>
     (\<forall>t. bt_stackbase (threads s' t) = bt_stackbase (threads s t)) \<and>
     (\<forall>t. bit (flags_of s' t) 8 = bit (flags_of s t) 8)"

lemma same_threads_trans: "same_threads s s' \<Longrightarrow> same_threads s' s'' \<Longrightarrow> same_threads s s''"
  by (simp add: same_threads_def)

lemma same_threads_queues: "same_but_queues s s' \<Longrightarrow> same_threads s s'"
  by (simp add: same_threads_def same_but_queues_def)

lemma same_threads_prepared: "same_threads s (prepared s d)"
  by (simp add: same_threads_def prepared_queues)

lemma block_check_ok:
  assumes "sched_user s" "bit (flags_of s (bmk_current s)) 10"
  shows "block_check s = Inr s"
  using assms by (simp add: block_check_def sched_user_def)

text \<open>Setting \<open>THR_JOINED\<close> and waking the thread that waits for it.\<close>

definition joined_state :: "sched \<Rightarrow> sched" where
  "joined_state s =
     (let c = bmk_current s; s1 = setflags s c THR_JOINED 0
      in case find (\<lambda>jw. snd jw = c) (joinwq s) of None \<Rightarrow> s1 | Some jw \<Rightarrow> woken s1 (fst jw))"

lemma queues_ok_setflags:
  assumes "queues_ok s" "\<And>n. n \<in> {0, 1, 2, 3, 4, 9, 10} \<Longrightarrow> \<not> bit a n \<and> \<not> bit r n"
  shows "queues_ok (setflags s t a r)"
proof -
  have fl: "bit (flags_of (setflags s t a r) x) n = bit (flags_of s x) n" if "n \<in> {0, 1, 2, 3, 4, 9, 10}" for x n
    using assms(2) [OF that] by simp
  have "thr_ok (setflags s t a r) x = thr_ok s x" for x
    using fl [of 0 x] fl [of 1 x] fl [of 2 x] fl [of 3 x] fl [of 4 x] fl [of 9 x] fl [of 10 x]
    unfolding thr_ok_def setflags_fields wakeup_of_upd by (simp del: flags_of_upd)
  then show ?thesis using assms(1) unfolding queues_ok_def setflags_fields wakeup_of_upd by simp
qed

lemma kont_ok_setflags:
  assumes "kont_ok s x" "\<And>n. n \<in> {0, 1, 2, 3, 4, 9, 10} \<Longrightarrow> \<not> bit a n \<and> \<not> bit r n"
  shows "kont_ok (setflags s t a r) x"
proof -
  have fl: "bit (flags_of (setflags s t a r) x) n = bit (flags_of s x) n" if "n \<in> {0, 1, 2, 3, 4, 9, 10}" for n
    using assms(2) [OF that] by simp
  show ?thesis
    using assms(1) fl [of 0] fl [of 1] fl [of 2] fl [of 10]
    unfolding kont_ok_def setflags_fields by (simp del: flags_of_upd)
qed

lemma find_waiter:
  assumes "joins_ok s W" "find (\<lambda>jw. snd jw = c) (joinwq s) = Some jw"
  shows "snd jw = c" "jw \<in> set (joinwq s)" "fst jw \<in> W" "\<And>t. (t, c) \<in> set (joinwq s) \<Longrightarrow> t = fst jw"
proof -
  show jw: "snd jw = c" "jw \<in> set (joinwq s)" using assms(2) by (auto simp: find_Some_iff)
  show "fst jw \<in> W" using assms(1) jw(2) unfolding joins_ok_def by (cases jw) auto
  have "inj_on snd (set (joinwq s))" using assms(1) by (simp add: joins_ok_def distinct_map)
  then show "t = fst jw" if "(t, c) \<in> set (joinwq s)" for t
    using jw that by (metis inj_onD fst_conv snd_conv)
qed

lemma joined_state_user:
  assumes u: "sched_user s" and b: "\<not> bit (flags_of s (bmk_current s)) 10" "bit (flags_of s (bmk_current s)) 5"
  shows "sched_user (joined_state s)" "same_threads s (joined_state s)"
    "\<not> bit (flags_of (joined_state s) (bmk_current s)) 10" "bit (flags_of (joined_state s) (bmk_current s)) 5"
    "bit (flags_of (joined_state s) (bmk_current s)) 6"
    "(case find (\<lambda>jw. snd jw = bmk_current s) (joinwq s) of None \<Rightarrow> Inr (setflags s (bmk_current s) THR_JOINED 0)
      | Some jw \<Rightarrow> bmk_sched_wake (setflags s (bmk_current s) THR_JOINED 0) (fst jw)) = Inr (joined_state s)"
proof -
  define c where "c = bmk_current s"
  define s1 where "s1 = setflags s c THR_JOINED 0"
  note uD = sched_userD [OF u, folded c_def]
  let ?W = "set (threadq s) - {c}"
  have q1: "queues_ok s1" unfolding s1_def using uD(6) by (rule queues_ok_setflags) auto
  have k1: "kont_ok s1 x" if "x \<in> ?W" for x
    unfolding s1_def using that uD(8) by (intro kont_ok_setflags) auto
  have nq: "\<not> bit (flags_of s c) 0" "\<not> bit (flags_of s c) 1" "\<not> bit (flags_of s c) 2"
    using u b unfolding sched_user_def c_def [symmetric] by blast+
  have jdef: "joined_state s = (case find (\<lambda>jw. snd jw = c) (joinwq s) of None \<Rightarrow> s1 | Some jw \<Rightarrow> woken s1 (fst jw))"
    unfolding joined_state_def Let_def c_def s1_def ..
  have fl1: "flags_of s1 x = (if x = c then updfl (flags_of s c) 0 THR_JOINED else flags_of s x)" for x
    by (simp add: s1_def)
  have "joins_ok (joined_state s) ?W \<and> queues_ok (joined_state s) \<and> (\<forall>x \<in> ?W. kont_ok (joined_state s) x) \<and>
      same_threads s (joined_state s) \<and> flags_of (joined_state s) c = flags_of s1 c \<and> 
      (case find (\<lambda>jw. snd jw = c) (joinwq s) of None \<Rightarrow> Inr s1
        | Some jw \<Rightarrow> bmk_sched_wake s1 (fst jw)) = Inr (joined_state s)"
  proof (cases "find (\<lambda>jw. snd jw = c) (joinwq s)")
    case None
    then have "\<forall>(t, j) \<in> set (joinwq s). j \<noteq> c" by (auto simp: find_None_iff)
    then have "joins_ok s1 ?W" using uD(7) unfolding joins_ok_def by (auto simp: s1_def)
    then show ?thesis using q1 k1 None by (simp add: jdef same_threads_def fl1, simp add: s1_def)
  next
    case (Some jw)
    note f = find_waiter [OF uD(7) Some]
    have t: "fst jw \<in> set (threadq s1)" "fst jw \<noteq> c" using f(3) by (simp_all add: s1_def)
    have t_run: "fst jw \<in> set (runq (woken s1 (fst jw)))"
      using k1 [OF f(3)] queues_okD(9) [OF q1 t(1)] by (auto simp: woken_queues kont_ok_def thr_ok_def is_blocked_def)
    have "joins_ok (woken s1 (fst jw)) ?W"
    proof -
      have "\<forall>(t, j) \<in> set (joinwq s). t \<in> ?W \<and> kcont s t = K_join j \<and> j \<in> set (threadq s) \<and> t \<noteq> j \<and>
        bit (flags_of (woken s1 (fst jw)) j) 5 \<and> (bit (flags_of (woken s1 (fst jw)) j) 6 \<longrightarrow> t \<in> set (runq (woken s1 (fst jw))))"
      proof (intro ballI, clarify)
        fix t j assume m: "(t, j) \<in> set (joinwq s)"
        then have old: "t \<in> ?W \<and> kcont s t = K_join j \<and> j \<in> set (threadq s) \<and> t \<noteq> j \<and>
            bit (flags_of s j) 5 \<and> (bit (flags_of s j) 6 \<longrightarrow> t \<in> set (runq s))"
          using uD(7) unfolding joins_ok_def by auto
        moreover have "bit (flags_of (woken s1 (fst jw)) j) 5" using old by (auto simp: woken_queues fl1)
        moreover have "t \<in> set (runq (woken s1 (fst jw)))" if "bit (flags_of (woken s1 (fst jw)) j) 6"
        proof (cases "j = c")
          case True
          then have "t = fst jw" using f(4) m by simp
          then show ?thesis using t_run by simp
        next
          case False
          then have "bit (flags_of s j) 6" using that by (auto simp: woken_queues fl1 split: if_splits)
          then have "t \<in> set (runq s)" using old by blast
          then show ?thesis by (simp add: woken_queues s1_def)
        qed
        ultimately show "t \<in> ?W \<and> kcont s t = K_join j \<and> j \<in> set (threadq s) \<and> t \<noteq> j \<and>
          bit (flags_of (woken s1 (fst jw)) j) 5 \<and>
          (bit (flags_of (woken s1 (fst jw)) j) 6 \<longrightarrow> t \<in> set (runq (woken s1 (fst jw))))" by blast
      qed
      moreover have "bit (flags_of (woken s1 (fst jw)) x) n = bit (flags_of s x) n" if "x \<noteq> c" "n = 5 \<or> n = 6" for x n
        using that by (auto simp: woken_queues fl1)
      moreover have "set (runq s) \<subseteq> set (runq (woken s1 (fst jw)))" by (auto simp: woken_queues s1_def)
      ultimately show ?thesis using uD(7) unfolding joins_ok_def
        by (simp add: s1_def) blast
    qed
    moreover have "same_threads s (woken s1 (fst jw))"
      by (auto simp: same_threads_def woken_queues fl1) (simp_all add: s1_def)
    ultimately show ?thesis
      using queues_ok_woken [OF q1 t(1)] kont_ok_woken [OF q1 k1] t wake_ok [OF q1 t(1)] Some
      by (auto simp: jdef woken_queues) (auto simp: s1_def)
  qed
  then have r: "joins_ok (joined_state s) ?W" "queues_ok (joined_state s)" "\<forall>x \<in> ?W. kont_ok (joined_state s) x"
    "same_threads s (joined_state s)" "flags_of (joined_state s) c = flags_of s1 c"
    "(case find (\<lambda>jw. snd jw = c) (joinwq s) of None \<Rightarrow> Inr s1
        | Some jw \<Rightarrow> bmk_sched_wake s1 (fst jw)) = Inr (joined_state s)" by blast+
  have st: "threadq (joined_state s) = threadq s" "bmk_current (joined_state s) = c" "spl (joined_state s) = spl s"
    using r(4) by (simp_all add: same_threads_def c_def)
  show "sched_user (joined_state s)"
    using r(1-3,5) st uD(2-5) nq b unfolding sched_user_def sched_inv_def by (simp add: fl1 flip: c_def)
  show "same_threads s (joined_state s)" by (rule r)
  show "\<not> bit (flags_of (joined_state s) (bmk_current s)) 10" "bit (flags_of (joined_state s) (bmk_current s)) 5"
    "bit (flags_of (joined_state s) (bmk_current s)) 6"
    using r(5) b by (simp_all add: fl1 flip: c_def)
  show "(case find (\<lambda>jw. snd jw = bmk_current s) (joinwq s) of None \<Rightarrow> Inr (setflags s (bmk_current s) THR_JOINED 0)
      | Some jw \<Rightarrow> bmk_sched_wake (setflags s (bmk_current s) THR_JOINED 0) (fst jw)) = Inr (joined_state s)"
    using r(6) unfolding s1_def c_def .
qed

lemma exit_path_gate:
  assumes u: "sched_user s" and b: "\<not> bit (flags_of s (bmk_current s)) 10" "bit (flags_of s (bmk_current s)) 5"
  obtains s' where "exit_path s = Inr (K_exitgate, s')" "same_threads s s'"
    "sched_inv (s'\<lparr>kcont := (kcont s')(bmk_current s := K_exitgate)\<rparr>) (set (threadq s))"
proof -
  note j = joined_state_user [OF u b]
  define s1 where "s1 = joined_state s"
  have cur: "bmk_current s1 = bmk_current s" "threadq s1 = threadq s"
    using j(2) by (simp_all add: same_threads_def s1_def)
  have nb: "\<not> bit (flags_of s1 (bmk_current s1)) 10" using j(3) cur by (simp add: s1_def)
  define s2 where "s2 = prepared s1 BLOCK_INFTIME"
  have u2: "sched_user s2" "bit (flags_of s2 (bmk_current s2)) 10"
    using prepared_user [of s1] j(1) nb by (simp_all add: s2_def s1_def)
  have cur2: "bmk_current s2 = bmk_current s" "threadq s2 = threadq s" by (simp_all add: s2_def cur)
  have f2: "bit (flags_of s2 (bmk_current s)) 5" "bit (flags_of s2 (bmk_current s)) 6"
    using j(4,5) by (simp_all add: s2_def prepared_queues cur s1_def [symmetric])
  have e: "exit_path s = Inr (K_exitgate, s2)"
    unfolding exit_path_def Let_def setflags_fields j(6)
    using b(2) blockprepare_ok [OF j(1), of BLOCK_INFTIME] nb block_check_ok [OF u2]
    by (simp add: bmk_sched_blockprepare_def flip: s1_def s2_def)
  let ?s = "s2\<lparr>kcont := (kcont s2)(bmk_current s := K_exitgate)\<rparr>"
  note uD = sched_userD [OF u2(1), unfolded cur2]
  have "queues_ok ?s" using uD(6) by (simp add: queues_ok_def thr_ok_def)
  moreover have "kont_ok ?s x" if "x \<in> set (threadq s)" for x
    using uD(8) [OF that] u2 by (cases "x = bmk_current s") (auto simp: kont_ok_def sched_user_def cur2)
  moreover have "joins_ok ?s (set (threadq s))"
    using uD(3,7) f2 unfolding joins_ok_def by (auto simp: cur2)
  ultimately have "sched_inv ?s (set (threadq s))" by (simp add: sched_inv_def cur2)
  moreover have "same_threads s s2"
    using j(2) same_threads_prepared unfolding s2_def s1_def by (rule same_threads_trans)
  ultimately show thesis using e that by blast
qed

lemma exit_path_dead:
  assumes u: "sched_user s" and b: "\<not> bit (flags_of s (bmk_current s)) 10" "\<not> bit (flags_of s (bmk_current s)) 5"
  defines "s' \<equiv> (setflags s (bmk_current s) THR_DEAD THR_RUNNING)
      \<lparr>threadq := remove1 (bmk_current s) (threadq s), zombieq := bmk_current s # zombieq s\<rparr>"
  shows "exit_path s = Inr (K_exit, s')" "set (threadq s') = set (threadq s) - {bmk_current s}"
    "sched_inv (s'\<lparr>kcont := (kcont s')(bmk_current s := K_exit)\<rparr>) (set (threadq s'))"
proof -
  define c where "c = bmk_current s"
  note uD = sched_userD [OF u, folded c_def] and q = queues_okD [OF sched_userD(6) [OF u]]
  have nq: "\<not> bit (flags_of s c) 0" "\<not> bit (flags_of s c) 1" "\<not> bit (flags_of s c) 2"
    using u b unfolding sched_user_def c_def [symmetric] by blast+
  then show "exit_path s = Inr (K_exit, s')" using b by (simp add: exit_path_def Let_def s'_def c_def)
  show tq: "set (threadq s') = set (threadq s) - {bmk_current s}" using q(1) by (simp add: s'_def)
  have tt: "thr_ok s c" using q(9) uD(3) by simp
  have nt: "c \<notin> set (timeq s)" "c \<notin> set (blockq s)" "c \<notin> set (runq s)" using tt nq by (simp_all add: thr_ok_def)
  let ?s = "s'\<lparr>kcont := (kcont s')(c := K_exit)\<rparr>"
  have fl: "flags_of ?s x = (if x = c then updfl (flags_of s c) THR_RUNNING THR_DEAD else flags_of s x)" for x
    by (simp add: s'_def c_def)
  have wk: "wakeup_of ?s = wakeup_of s" by (simp add: s'_def fun_eq_iff)
  have "thr_ok ?s x" if "x \<in> set (threadq s')" for x
  proof -
    have "x \<in> set (threadq s)" "x \<noteq> c" using that unfolding tq by (simp_all add: c_def)
    then show ?thesis by (intro thr_ok_frame [OF q(9)]) (simp_all add: s'_def c_def)
  qed
  moreover have "set (runq s) \<subseteq> set (threadq s')" "set (timeq s) \<subseteq> set (threadq s')" "set (blockq s) \<subseteq> set (threadq s')"
    unfolding tq using q(5-7) nt by (auto simp: c_def)
  moreover have "distinct (threadq s' @ zombieq s')" using q(1) uD(3) by (auto simp: s'_def c_def)
  ultimately have "queues_ok ?s" using q(2-4,8) unfolding queues_ok_def wk by (simp add: s'_def)
  moreover have "kont_ok ?s x" if "x \<in> set (threadq s')" for x
    using that unfolding tq
    by (intro kont_ok_frame [OF uD(8)]) (simp_all add: s'_def c_def)
  moreover have "joins_ok ?s (set (threadq s'))"
  proof -
    note d = joins_okD [OF uD(7)]
    have b56: "bit (flags_of ?s x) 5 = bit (flags_of s x) 5" "bit (flags_of ?s x) 6 = bit (flags_of s x) 6" for x
      by (simp_all add: s'_def)
    have st: "joinwq ?s = joinwq s" "runq ?s = runq s" "threadq ?s = threadq s'"
      "kcont ?s = (kcont s)(c := K_exit)" by (simp_all add: s'_def)
    have nc: "j \<noteq> c" if "(t, j) \<in> set (joinwq s)" for t j using d(3) [OF that] b(2) by (auto simp: c_def)
    show ?thesis unfolding tq c_def [symmetric]
    proof (rule joins_okI, unfold b56 st tq c_def [symmetric])
      fix t j assume m: "(t, j) \<in> set (joinwq s)"
      then show "t \<in> set (threadq s) - {c} \<and> ((kcont s)(c := K_exit)) t = K_join j \<and>
          j \<in> set (threadq s) - {c} \<and> t \<noteq> j \<and> bit (flags_of s j) 5 \<and> (bit (flags_of s j) 6 \<longrightarrow> t \<in> set (runq s))"
        using d(3) [OF m] nc [OF m] by auto
    next
      show "distinct (map fst (joinwq s))" "distinct (map snd (joinwq s))" by (rule d)+
      show "(t, j) \<in> set (joinwq s)" if "t \<in> set (threadq s) - {c}" "((kcont s)(c := K_exit)) t = K_join j" for t j
        using d(4) [OF that(1)] that by simp
      show "bit (flags_of s t) 6 \<and> (bit (flags_of s t) 5 \<or> t \<in> set (runq s))"
        if "t \<in> set (threadq s) - {c}" "((kcont s)(c := K_exit)) t = K_exitgate" for t
        using d(5) [OF that(1)] that by simp
    qed
  qed
  ultimately show "sched_inv (s'\<lparr>kcont := (kcont s')(bmk_current s := K_exit)\<rparr>) (set (threadq s'))"
    by (simp add: sched_inv_def c_def)
qed

lemma join_path_block:
  assumes u: "sched_user s" and b: "\<not> bit (flags_of s (bmk_current s)) 10"
    and j: "j \<in> set (threadq s)" "j \<noteq> bmk_current s" "bit (flags_of s j) 5" "j \<notin> snd ` set (joinwq s)"
    and nj: "\<not> bit (flags_of s j) 6"
  obtains s' where "join_path j s = Inr (Some (K_join j), s')" "same_threads s s'"
    "sched_inv (s'\<lparr>kcont := (kcont s')(bmk_current s := K_join j)\<rparr>) (set (threadq s))"
proof -
  define c where "c = bmk_current s"
  note uD = sched_userD [OF u, folded c_def]
  define s2 where "s2 = (prepared s BLOCK_INFTIME)\<lparr>joinwq := joinwq s @ [(c, j)]\<rparr>"
  have p: "prepared (s\<lparr>joinwq := joinwq s @ [(c, j)]\<rparr>) BLOCK_INFTIME = s2"
    by (cases s) (simp add: s2_def prepared_def Let_def set_wakeup_def setflags_def)
  have eq: "bmk_sched_blockprepare_timeout (s\<lparr>joinwq := q\<rparr>) BLOCK_INFTIME =
      bindR (bmk_sched_blockprepare_timeout s BLOCK_INFTIME) (\<lambda>s. Inr (s\<lparr>joinwq := q\<rparr>))" for q
    by (cases s) (simp add: bmk_sched_blockprepare_timeout_def clear_runnable_def Let_def set_wakeup_def
        setflags_def guardR_def flags_of_def wakeup_of_def)
  note pu = prepared_user [OF u b, of BLOCK_INFTIME]
  have "block_check s2 = Inr s2"
    using block_check_ok [OF pu(1)] pu(2) by (simp add: block_check_def guardR_def s2_def split: if_splits)
  then have e: "join_path j s = Inr (Some (K_join j), s2)"
    using nj eq [of "joinwq s @ [(c, j)]"] blockprepare_ok [OF u b, of BLOCK_INFTIME]
    by (simp add: join_path_def Let_def bmk_sched_blockprepare_def s2_def c_def)
  let ?s = "s2\<lparr>kcont := (kcont s2)(c := K_join j)\<rparr>"
  note pD = sched_userD [OF pu(1), simplified, folded c_def]
  have "queues_ok ?s" using pD(6) by (simp add: queues_ok_def thr_ok_def s2_def)
  moreover have "kont_ok ?s x" if "x \<in> set (threadq s)" for x
    using pD(8) [OF that] pu by (cases "x = c") (auto simp: kont_ok_def sched_user_def s2_def c_def)
  moreover have "joins_ok ?s (set (threadq s))"
  proof -
    have "bit (flags_of (prepared s BLOCK_INFTIME) j) 5" "\<not> bit (flags_of (prepared s BLOCK_INFTIME) j) 6"
      using j(2,3) nj by (simp_all add: prepared_queues)
    then show ?thesis using pD(7) uD(3) j(1,2,4) unfolding joins_ok_def
      by (auto simp: s2_def c_def image_iff)
  qed
  ultimately have "sched_inv ?s (set (threadq s))" by (simp add: sched_inv_def s2_def)
  moreover have "same_threads s s2" using same_threads_prepared [of s BLOCK_INFTIME] by (simp add: same_threads_def s2_def)
  ultimately show thesis using e that by (simp add: c_def)
qed

lemma join_path_done:
  assumes u: "sched_user s" and b: "\<not> bit (flags_of s (bmk_current s)) 10"
    and j: "j \<in> set (threadq s)" "j \<noteq> bmk_current s" "j \<notin> snd ` set (joinwq s)"
    and js: "bit (flags_of s j) 6"
  obtains s' where "join_path j s = Inr (None, s')" "same_threads s s'" "sched_user s'"
    "\<not> bit (flags_of s' (bmk_current s')) 10" "j \<in> set (runq s')"
proof -
  define c where "c = bmk_current s"
  define s1 where "s1 = setflags s j 0 THR_MUSTJOIN"
  note uD = sched_userD [OF u, folded c_def]
  let ?W = "set (threadq s) - {c}"
  have q1: "queues_ok s1" unfolding s1_def using uD(6) by (rule queues_ok_setflags) auto
  have k1: "kont_ok s1 x" if "x \<in> ?W" for x
    unfolding s1_def using that uD(8) by (intro kont_ok_setflags) auto
  have j1: "j \<in> set (threadq s1)" "j \<in> ?W" using j by (simp_all add: s1_def c_def)
  define s2 where "s2 = woken s1 j"
  have e: "join_path j s = Inr (None, s2)"
    using js wake_ok [OF q1 j1(1)] by (simp add: join_path_def Let_def s1_def s2_def)
  have run: "j \<in> set (runq s2)"
    using k1 [OF j1(2)] queues_okD(9) [OF q1 j1(1)]
    by (auto simp: s2_def woken_queues kont_ok_def thr_ok_def is_blocked_def)
  have q2: "queues_ok s2" unfolding s2_def using q1 j1(1) by (rule queues_ok_woken)
  have k2: "kont_ok s2 x" if "x \<in> ?W" for x
    unfolding s2_def using that by (intro kont_ok_woken [OF q1 k1]) (simp_all add: s1_def)
  have fc: "flags_of s2 c = flags_of s c" using j(2) by (simp add: s2_def woken_queues s1_def c_def)
  have st: "joinwq s2 = joinwq s" "kcont s2 = kcont s" "threadq s2 = threadq s" "bmk_current s2 = c" "spl s2 = spl s"
    by (simp_all add: s2_def s1_def c_def)
  have f5: "bit (flags_of s2 x) 5 = bit (flags_of s x) 5" if "x \<noteq> j" for x
    using that by (simp add: s2_def woken_queues s1_def)
  have f6: "bit (flags_of s2 x) 6 = bit (flags_of s x) 6" for x by (simp add: s2_def woken_queues s1_def)
  have rq: "set (runq s) \<subseteq> set (runq s2)" by (auto simp: s2_def woken_queues s1_def)
  note d = joins_okD [OF uD(7)]
  have "joins_ok s2 ?W"
  proof (rule joins_okI, unfold st f6)
    show "distinct (map fst (joinwq s))" "distinct (map snd (joinwq s))" by (rule d)+
    show "(t, x) \<in> set (joinwq s)" if "t \<in> ?W" "kcont s t = K_join x" for t x using d(4) that by blast
    show "t \<in> ?W \<and> kcont s t = K_join x \<and> x \<in> set (threadq s) \<and> t \<noteq> x \<and> bit (flags_of s2 x) 5 \<and>
        (bit (flags_of s x) 6 \<longrightarrow> t \<in> set (runq s2))" if "(t, x) \<in> set (joinwq s)" for t x
    proof -
      have "x \<noteq> j" using that j(3) by force
      then show ?thesis using d(3) [OF that] rq by (simp add: f5 subset_iff)
    qed
    show "bit (flags_of s t) 6 \<and> (bit (flags_of s2 t) 5 \<or> t \<in> set (runq s2))"
      if "t \<in> ?W" "kcont s t = K_exitgate" for t
      using d(5) [OF that] rq run f5 by (cases "t = j") (auto simp: subset_iff)
  qed
  then have "sched_user s2"
    using u q2 k2 st unfolding sched_user_def sched_inv_def c_def by (simp add: fc [unfolded c_def])
  moreover have "same_threads s s2" by (auto simp: same_threads_def s2_def woken_queues s1_def)
  ultimately show thesis using that e run b by (simp add: st fc [unfolded c_def] c_def)
qed

section \<open>Being switched to\<close>

lemma remove_entry:
  assumes "distinct (map fst q)" "(t, j) \<in> set q"
  shows "remove1 (t, j) q = filter (\<lambda>x. fst x \<noteq> t) q"
  using assms
proof (induction q)
  case (Cons a q)
  show ?case
  proof (cases "a = (t, j)")
    case True
    then have "\<forall>x \<in> set q. fst x \<noteq> t" using Cons.prems(1) by force
    then show ?thesis using True by (simp add: filter_True)
  next
    case False
    then have m: "(t, j) \<in> set q" using Cons.prems(2) by simp
    then have "t \<in> fst ` set q" by force
    then have "fst a \<noteq> t" using Cons.prems(1) by auto
    then show ?thesis using False m Cons by simp
  qed
qed simp

text \<open>The state right after \<open>next\<close> has been made the running thread.\<close>

definition committed :: "sched \<Rightarrow> nat \<Rightarrow> sched" where
  "committed s t =
     (setflags ((setflags s (bmk_current s) 0 THR_RUNNING)\<lparr>runq := remove1 t (runq s)\<rparr>) t THR_RUNNING THR_RUNQ)
       \<lparr>spl := False, bmk_current := t\<rparr>"

lemma commit_ok:
  assumes q: "queues_ok s" and t: "t \<in> set (runq s)"
  obtains s' where "sched_commit s t = Inr s'" "threads s' = threads (committed s t)"
    "heap s' = heap s" "kcont s' = kcont s" "threadq s' = threadq s" "zombieq s' = zombieq s"
    "runq s' = remove1 t (runq s)" "timeq s' = timeq s" "blockq s' = blockq s" "joinwq s' = joinwq s"
    "bmk_current s' = t" "\<not> spl s'" "bmk_stackpageorder s' = bmk_stackpageorder s"
proof -
  have live: "t \<in> set (threadq s)" using t queues_okD(5) [OF q] by blast
  have b: "bit (flags_of s t) 0" "\<not> bit (flags_of s t) 1" "\<not> bit (flags_of s t) 2"
    using queues_okD(9) [OF q live] t by (auto simp: thr_ok_def)
  define s1 where "s1 = (setflags ((setflags s (bmk_current s) 0 THR_RUNNING)
    \<lparr>runq := remove1 t (runq s)\<rparr>) t THR_RUNNING THR_RUNQ)\<lparr>spl := False\<rparr>"
  have f: "bit (flags_of s1 t) 3" "\<not> bit (flags_of s1 t) 0" "\<not> bit (flags_of s1 t) 1" "\<not> bit (flags_of s1 t) 2"
    using b by (auto simp: s1_def)
  have th: "threads s1 = threads (committed s t)" by (simp add: s1_def committed_def)
  have c: "sched_commit s t = (if bmk_current s \<noteq> t then sched_switch s1 (bmk_current s) t else Inr s1)"
    by (simp add: sched_commit_def Let_def s1_def)
  show thesis
  proof (cases "bmk_current s = t")
    case True
    then show thesis using c th by (intro that [of s1]) (simp_all add: s1_def)
  next
    case False
    define s2 where "s2 = (if scheduler_hook s1
      then s1\<lparr>hook_calls := (bt_cookie (threads s1 (bmk_current s)), bt_cookie (threads s1 t)) # hook_calls s1\<rparr>
      else s1)\<lparr>bmk_current := t\<rparr>"
    have "sched_commit s t = Inr s2"
      using c False f by (simp add: sched_switch_def Let_def s2_def)
    moreover have "threads s2 = threads s1" by (simp add: s2_def)
    ultimately show thesis using th
      by (intro that [of s2]) (simp_all add: s2_def, simp_all add: s1_def)
  qed
qed

lemma flags_threads: "threads s' = threads s \<Longrightarrow> flags_of s' = flags_of s" "threads s' = threads s \<Longrightarrow> wakeup_of s' = wakeup_of s"
  by (simp_all add: flags_of_def wakeup_of_def fun_eq_iff)

text \<open>
  After the switch the thread leaves the routine it was switched out in: the flags of
  \<open>bmk_sched_block\<close> are cleared and its entry in \<open>joinwq\<close>, if any, is removed. Then it is a
  running thread again.
\<close>

lemma resume_user:
  assumes inv: "sched_inv s (set (threadq s))" and t: "t \<in> set (runq s)"
    and th: "threads s' = threads (committed s t)" and st: "kcont s' = kcont s" "threadq s' = threadq s"
      "runq s' = remove1 t (runq s)" "timeq s' = timeq s" "blockq s' = blockq s" "joinwq s' = joinwq s"
      "bmk_current s' = t" "\<not> spl s'" and z: "set (zombieq s') \<subseteq> set (zombieq s)" "distinct (zombieq s')"
  defines "s2 \<equiv> (if kcont s t = K_start \<or> kcont s t = K_yield then s' else block_tail s')
      \<lparr>joinwq := filter (\<lambda>x. fst x \<noteq> t) (joinwq s)\<rparr>"
  shows "sched_user s2" "\<not> bit (flags_of s2 t) 10"
proof -
  have q: "queues_ok s" "joins_ok s (set (threadq s))" using inv by (simp_all add: sched_inv_def)
  note qD = queues_okD [OF q(1)]
  have live: "t \<in> set (threadq s)" using t qD(5) by blast
  have k: "kont_ok s x" if "x \<in> set (threadq s)" for x using inv that by (simp add: sched_inv_def)
  have tt: "thr_ok s t" using qD(9) live .
  have b: "bit (flags_of s t) 0" "\<not> bit (flags_of s t) 1" "\<not> bit (flags_of s t) 2" using tt t by (auto simp: thr_ok_def)
  have nq: "t \<notin> set (timeq s)" "t \<notin> set (blockq s)" using tt b by (simp_all add: thr_ok_def)
  have f': "flags_of s' = flags_of (committed s t)" "wakeup_of s' = wakeup_of (committed s t)"
    using flags_threads [OF th] by simp_all
  have fl: "bit (flags_of s' x) n = (if x = t then n \<noteq> 0 \<and> (bit (flags_of s t) n \<or> n = 3) else
      bit (flags_of s x) n \<and> (x = bmk_current s \<longrightarrow> n \<noteq> 3))" if "n \<in> {0, 1, 2, 3, 4, 5, 6, 8, 9, 10}" for x n
    using that unfolding f' committed_def by auto
  have wk: "wakeup_of s' x = wakeup_of s x" for x unfolding f' by (simp add: committed_def)
  have fl2: "bit (flags_of s2 x) n = (bit (flags_of s' x) n \<and> (x = t \<longrightarrow> kcont s t = K_start \<or> kcont s t = K_yield \<or> n \<noteq> 4 \<and> n \<noteq> 10))"
    if "n \<in> {0, 1, 2, 3, 4, 5, 6, 8, 9, 10}" for x n
    using that by (auto simp: s2_def block_tail_def Let_def st)
  have wk2: "wakeup_of s2 x = wakeup_of s x" for x by (simp add: s2_def block_tail_def Let_def wk)
  have st2: "kcont s2 = kcont s" "threadq s2 = threadq s" "runq s2 = remove1 t (runq s)" "timeq s2 = timeq s"
    "blockq s2 = blockq s" "joinwq s2 = filter (\<lambda>x. fst x \<noteq> t) (joinwq s)" "bmk_current s2 = t" "\<not> spl s2"
    "zombieq s2 = zombieq s'"
    using st by (simp_all add: s2_def block_tail_def Let_def)
  show nb: "\<not> bit (flags_of s2 t) 10" using k [OF live] fl2 [of 10 t] fl [of 10 t] by (auto simp: kont_ok_def split: if_splits)
  have bits: "bit (flags_of s2 x) n = (if x = t then n \<noteq> 0 \<and> (bit (flags_of s t) n \<or> n = 3) \<and>
        (kcont s t = K_start \<or> kcont s t = K_yield \<or> n \<noteq> 4 \<and> n \<noteq> 10)
      else bit (flags_of s x) n \<and> (x = bmk_current s \<longrightarrow> n \<noteq> 3))" if "n \<in> {0, 1, 2, 3, 4, 5, 6, 8, 9, 10}" for x n
    using fl2 [OF that, of x] fl [OF that, of x] by auto
  note B = bits [of 0, simplified] bits [of 1, simplified] bits [of 2, simplified] bits [of 3, simplified]
    bits [of 4, simplified] bits [of 9, simplified] bits [of 10, simplified]
  have ok: "thr_ok s2 x" if x: "x \<in> set (threadq s)" for x
  proof (cases "x = t")
    case True
    have "bit (flags_of s t) 4 \<longrightarrow> bit (flags_of s t) 10" "\<not> bit (flags_of s t) 9"
      "wakeup_of s t = BLOCK_INFTIME" using tt b unfolding thr_ok_def by blast+
    moreover have "kcont s t = K_start \<or> kcont s t = K_yield \<Longrightarrow> \<not> bit (flags_of s t) 10"
      using k [OF live] by (auto simp: kont_ok_def)
    ultimately show ?thesis
      using b nq qD(2) unfolding thr_ok_def True st2 wk2 by (auto simp: B)
  next
    case False
    then show ?thesis using qD(9) [OF x] k [OF x] unfolding thr_ok_def st2 wk2 kont_ok_def by (simp add: B) blast
  qed
  have kk: "kont_ok s2 x" if "x \<in> set (threadq s)" "x \<noteq> t" for x
    using k [OF that(1)] that(2) unfolding kont_ok_def st2 by (simp add: B)
  have "queues_ok s2"
    using qD(1-8) ok z unfolding queues_ok_def st2 wk2 by (auto dest: notin_set_remove1)
  moreover have "joins_ok s2 (set (threadq s) - {t})"
  proof -
    note d = joins_okD [OF q(2)]
    have f56: "bit (flags_of s2 x) 5 = bit (flags_of s x) 5" "bit (flags_of s2 x) 6 = bit (flags_of s x) 6" for x
      using bits [of 5 x] bits [of 6 x] by auto
    show ?thesis
    proof (rule joins_okI, unfold st2 f56)
      show "distinct (map fst (filter (\<lambda>x. fst x \<noteq> t) (joinwq s)))" "distinct (map snd (filter (\<lambda>x. fst x \<noteq> t) (joinwq s)))"
        using d(1,2) by (simp_all add: distinct_map_filter)
      show "x \<in> set (threadq s) - {t} \<and> kcont s x = K_join j \<and> j \<in> set (threadq s) \<and> x \<noteq> j \<and> bit (flags_of s j) 5 \<and>
          (bit (flags_of s j) 6 \<longrightarrow> x \<in> set (remove1 t (runq s)))"
        if "(x, j) \<in> set (filter (\<lambda>x. fst x \<noteq> t) (joinwq s))" for x j
        using d(3) [of x j] that by simp
      show "(x, j) \<in> set (filter (\<lambda>x. fst x \<noteq> t) (joinwq s))" if "x \<in> set (threadq s) - {t}" "kcont s x = K_join j" for x j
        using d(4) [of x j] that by simp
      show "bit (flags_of s x) 6 \<and> (bit (flags_of s x) 5 \<or> x \<in> set (remove1 t (runq s)))"
        if "x \<in> set (threadq s) - {t}" "kcont s x = K_exitgate" for x
        using d(5) [of x] that by simp
    qed
  qed
  moreover have "\<not> bit (flags_of s2 t) 4" using ok [OF live] by (auto simp: thr_ok_def B)
  ultimately show "sched_user s2"
    using kk live nb st2(8) b(2) unfolding sched_user_def sched_inv_def st2 by (simp add: B b)
qed

end
