(* ===== verification/SchedCorrect.thy ===== *)
theory SchedCorrect
  imports SchedOps
begin

text \<open>
  The scheduler over the heap: the thread structures and stacks are live allocations, the
  reaper can always free them, and every call of \<open>schedule()\<close> that returns does so in a
  running thread with all invariants intact.
\<close>

section \<open>Threads in the heap\<close>

definition stack_block :: "sched \<Rightarrow> nat \<Rightarrow> nat \<times> nat" where
  "stack_block s t = (bt_stackbase (threads s t), bmk_stackpageorder s + 7)"

definition own_stack :: "sched \<Rightarrow> nat \<Rightarrow> bool" where
  "own_stack s t \<longleftrightarrow> \<not> bit (flags_of s t) 8"

definition stacks :: "sched \<Rightarrow> (nat \<times> nat) multiset" where
  "stacks s = image_mset (stack_block s) (filter_mset (own_stack s) (mset (threadq s @ zombieq s)))"

text \<open>
  The thread structures are live allocations of the kernel, beside the allocations \<open>E\<close> of
  everybody else; the stacks are page blocks, beside the page blocks \<open>P\<close> of everybody else.
\<close>

definition heap_ok :: "sched \<Rightarrow> nat list \<Rightarrow> (nat \<times> nat) multiset \<Rightarrow> bool" where
  "heap_ok s E P \<longleftrightarrow> mem_holds (heap s) (threadq s @ zombieq s @ E) (stacks s + P) \<and>
     (\<forall>t \<in> set (threadq s @ zombieq s). mh_who (hdr_at (heap s) t) = memwho_val BMK_MEMWHO_WIREDBMK)"

lemma mem_holds_perm:
  assumes "mset L = mset L'"
  shows "mem_holds h L X = mem_holds h L' X"
proof -
  have "set L = set L'" using assms by (rule mset_eq_setD)
  moreover have "live_blocks h L = live_blocks h L'" using assms by (simp add: live_blocks_def)
  moreover have "live_in h L b = live_in h L' b" for b
    unfolding live_in_def size_mset [symmetric] mset_filter assms ..
  ultimately show ?thesis by (simp add: mem_holds_def mem_hole_def)
qed

lemma stacks_cong:
  assumes "mset (threadq s' @ zombieq s') = mset (threadq s @ zombieq s)"
    "bmk_stackpageorder s' = bmk_stackpageorder s"
    "\<And>t. bt_stackbase (threads s' t) = bt_stackbase (threads s t)"
    "\<And>t. bit (flags_of s' t) 8 = bit (flags_of s t) 8"
  shows "stacks s' = stacks s"
proof -
  have "stack_block s' = stack_block s" "own_stack s' = own_stack s"
    using assms(2-4) by (simp_all add: stack_block_def own_stack_def fun_eq_iff)
  then show ?thesis using assms(1) by (simp only: stacks_def)
qed

lemma heap_ok_cong:
  assumes "heap_ok s E P" "heap s' = heap s" "mset (threadq s' @ zombieq s') = mset (threadq s @ zombieq s)"
    "bmk_stackpageorder s' = bmk_stackpageorder s"
    "\<And>t. bt_stackbase (threads s' t) = bt_stackbase (threads s t)"
    "\<And>t. bit (flags_of s' t) 8 = bit (flags_of s t) 8"
  shows "heap_ok s' E P"
proof -
  have "mset (threadq s' @ zombieq s' @ E) = mset (threadq s @ zombieq s @ E)" using assms(3) by simp
  moreover have "set (threadq s' @ zombieq s') = set (threadq s @ zombieq s)" using assms(3) by (rule mset_eq_setD)
  moreover have "stacks s' = stacks s" using assms(3-6) by (rule stacks_cong)
  ultimately show ?thesis
    using assms(1) mem_holds_perm unfolding heap_ok_def assms(2) by metis
qed

lemma heap_ok_same: "heap_ok s E P \<Longrightarrow> same_threads s s' \<Longrightarrow> heap_ok s' E P"
  by (rule heap_ok_cong) (simp_all add: same_threads_def)

section \<open>The reaper\<close>

lemma reap_one:
  assumes h: "heap_ok s E P" and z: "zombieq s = t # zs" and d: "distinct (threadq s @ zombieq s)"
  obtains h' where "(if flags_of s t AND THR_EXTSTACK = 0 then stackfree (s\<lparr>zombieq := zs\<rparr>) t
       else Inr (s\<lparr>zombieq := zs\<rparr>)) = Inr (s\<lparr>zombieq := zs, heap := h'\<rparr>)"
    "\<exists>h''. bmk_memfree h' (Some t) BMK_MEMWHO_WIREDBMK = Inr h'' \<and> heap_ok (s\<lparr>zombieq := zs, heap := h''\<rparr>) E P"
proof -
  let ?L = "threadq s @ zs @ E" and ?s1 = "s\<lparr>zombieq := zs\<rparr>"
  have m: "mset (threadq s @ zombieq s @ E) = mset (t # ?L)" by (simp add: z)
  have mh: "mem_holds (heap s) (t # ?L) (stacks s + P)"
    using h mem_holds_perm [OF m] unfolding heap_ok_def by blast
  have who: "mh_who (hdr_at (heap s) u) = memwho_val BMK_MEMWHO_WIREDBMK" if "u \<in> set (threadq s @ zombieq s)" for u
    using h that unfolding heap_ok_def by blast
  have sb: "stack_block ?s1 = stack_block s" "own_stack ?s1 = own_stack s"
    by (simp_all add: stack_block_def own_stack_def fun_eq_iff)
  have st: "stacks s = (if own_stack s t then {#stack_block s t#} else {#}) + stacks ?s1"
    unfolding stacks_def sb by (simp add: z)
  obtain h' where h': "(if flags_of s t AND THR_EXTSTACK = 0 then stackfree ?s1 t else Inr ?s1)
      = Inr (s\<lparr>zombieq := zs, heap := h'\<rparr>)" "mem_holds h' (t # ?L) (stacks ?s1 + P)" "cells h' = cells (heap s)"
  proof (cases "own_stack s t")
    case False
    then show thesis using mh st by (intro that [of "heap s"]) (simp_all add: own_stack_def)
  next
    case True
    then have "mem_holds (heap s) (t # ?L) (add_mset (bt_stackbase (threads s t), bmk_stackpageorder s + 7) (stacks ?s1 + P))"
      using mh st by (simp add: stack_block_def)
    then obtain pg where "bmk_pgfree (mpg (heap s)) (bt_stackbase (threads s t)) (bmk_stackpageorder s) = Inr pg"
      "mem_holds ((heap s)\<lparr>mpg := pg\<rparr>) (t # ?L) (stacks ?s1 + P)" by (rule pages_give_back)
    then show thesis using True by (intro that [of "(heap s)\<lparr>mpg := pg\<rparr>"]) (simp_all add: own_stack_def stackfree_def)
  qed
  have hh: "hdr_at h' = hdr_at (heap s)" by (rule ext) (simp add: hdr_at_def h'(3))
  have w: "mh_who (hdr_at h' t) = memwho_val BMK_MEMWHO_WIREDBMK" unfolding hh by (rule who) (simp add: z)
  obtain h'' where h'': "bmk_memfree h' (Some t) BMK_MEMWHO_WIREDBMK = Inr h''"
    "mem_holds h'' (remove1 t (t # ?L)) (stacks ?s1 + P)" "cells h'' = cells h'"
    by (rule memfree_ok [OF h'(2) _ w]) simp
  have "hdr_at h'' = hdr_at (heap s)" by (rule ext) (simp add: hdr_at_def h''(3) h'(3))
  moreover have "stacks (s\<lparr>zombieq := zs, heap := h''\<rparr>) = stacks ?s1" by (rule stacks_cong) simp_all
  ultimately have "heap_ok (s\<lparr>zombieq := zs, heap := h''\<rparr>) E P"
    using h''(2) who unfolding heap_ok_def by (simp add: z)
  with h'(1) h''(1) show thesis using that by blast
qed

lemma reaper_ok:
  assumes "heap_ok s E P" "distinct (threadq s @ zombieq s)" "zombieq s = zs"
  obtains h' where "reaper zs s = Inr (s\<lparr>zombieq := [], heap := h'\<rparr>)" "heap_ok (s\<lparr>zombieq := [], heap := h'\<rparr>) E P"
  using assms
proof (induction zs arbitrary: s thesis)
  case Nil
  have "s\<lparr>zombieq := [], heap := heap s\<rparr> = s" using Nil.prems(4) by (cases s) simp
  then show ?case using Nil.prems(1) [of "heap s"] Nil.prems(2) by simp
next
  case (Cons t zs)
  obtain h' where h': "(if flags_of s t AND THR_EXTSTACK = 0 then stackfree (s\<lparr>zombieq := zs\<rparr>) t
       else Inr (s\<lparr>zombieq := zs\<rparr>)) = Inr (s\<lparr>zombieq := zs, heap := h'\<rparr>)"
    "\<exists>h''. bmk_memfree h' (Some t) BMK_MEMWHO_WIREDBMK = Inr h'' \<and> heap_ok (s\<lparr>zombieq := zs, heap := h''\<rparr>) E P"
    using Cons.prems(2) Cons.prems(4) Cons.prems(3) by (rule reap_one)
  then obtain h'' where h'': "bmk_memfree h' (Some t) BMK_MEMWHO_WIREDBMK = Inr h''"
    "heap_ok (s\<lparr>zombieq := zs, heap := h''\<rparr>) E P" by blast
  have e: "reaper (t # zs) s = reaper zs (s\<lparr>zombieq := zs, heap := h''\<rparr>)"
    using h'(1) h''(1) by simp
  have d: "distinct (threadq (s\<lparr>zombieq := zs, heap := h''\<rparr>) @ zombieq (s\<lparr>zombieq := zs, heap := h''\<rparr>))"
    using Cons.prems(3,4) by simp
  show ?case
  proof (rule Cons.IH [OF _ h''(2) d])
    fix h3 assume "reaper zs (s\<lparr>zombieq := zs, heap := h''\<rparr>) = Inr (s\<lparr>zombieq := zs, heap := h''\<rparr>\<lparr>zombieq := [], heap := h3\<rparr>)"
      "heap_ok (s\<lparr>zombieq := zs, heap := h''\<rparr>\<lparr>zombieq := [], heap := h3\<rparr>) E P"
    moreover have "s\<lparr>zombieq := zs, heap := h''\<rparr>\<lparr>zombieq := [], heap := h3\<rparr> = s\<lparr>zombieq := [], heap := h3\<rparr>" by (cases s) simp
    ultimately show ?thesis using Cons.prems(1) e by simp
  qed simp
qed

section \<open>Switching to a thread\<close>

lemma no_entry:
  assumes "joins_ok s W" "\<And>j. kcont s t \<noteq> K_join j"
  shows "filter (\<lambda>x. fst x \<noteq> t) (joinwq s) = joinwq s"
  using joins_okD(3) [OF assms(1)] assms(2) by (intro filter_True) force

text \<open>What is left of a thread's call of \<open>schedule()\<close> after the switch and the reaper.\<close>

definition left_call :: "sched \<Rightarrow> nat \<Rightarrow> sched" where
  "left_call s t = (if kcont s t = K_start \<or> kcont s t = K_yield then s else block_tail s)
     \<lparr>joinwq := filter (\<lambda>x. fst x \<noteq> t) (joinwq s)\<rparr>"

lemma switch_in:
  assumes inv: "sched_inv s (set (threadq s))" and h: "heap_ok s E P" and t: "t \<in> set (runq s)"
  obtains s1 where "sched_commit s t = Inr s1" "kcont s1 = kcont s" "threadq s1 = threadq s"
      "bmk_current s1 = t" "joinwq s1 = joinwq s" "heap_ok s1 E P" "\<forall>x. bit (flags_of s1 x) 5 = bit (flags_of s x) 5"
      "sched_user (left_call s1 t)" "\<not> bit (flags_of (left_call s1 t) t) 10"
    "\<exists>h'. reaper (zombieq s1) s1 = Inr (s1\<lparr>zombieq := [], heap := h'\<rparr>) \<and>
      heap_ok (s1\<lparr>zombieq := [], heap := h'\<rparr>) E P \<and>
      sched_user (left_call (s1\<lparr>zombieq := [], heap := h'\<rparr>) t) \<and>
      \<not> bit (flags_of (left_call (s1\<lparr>zombieq := [], heap := h'\<rparr>) t) t) 10"
proof -
  have q: "queues_ok s" using inv by (simp add: sched_inv_def)
  obtain s1 where s1: "sched_commit s t = Inr s1" "threads s1 = threads (committed s t)"
    "heap s1 = heap s" "kcont s1 = kcont s" "threadq s1 = threadq s" "zombieq s1 = zombieq s"
    "runq s1 = remove1 t (runq s)" "timeq s1 = timeq s" "blockq s1 = blockq s" "joinwq s1 = joinwq s"
    "bmk_current s1 = t" "\<not> spl s1" "bmk_stackpageorder s1 = bmk_stackpageorder s"
    by (rule commit_ok [OF q t])
  have d: "distinct (threadq s @ zombieq s)" "distinct (zombieq s)" using queues_okD(1) [OF q] by simp_all
  have b8: "bit (flags_of s1 u) 8 = bit (flags_of s u) 8" for u
    unfolding flags_threads(1) [OF s1(2)] by (auto simp: committed_def)
  have b5: "\<forall>u. bit (flags_of s1 u) 5 = bit (flags_of s u) 5"
    unfolding flags_threads(1) [OF s1(2)] by (auto simp: committed_def)
  have sb: "bt_stackbase (threads s1 u) = bt_stackbase (threads s u)" for u
    unfolding s1(2) by (simp add: committed_def)
  have h1: "heap_ok s1 E P" by (rule heap_ok_cong [OF h s1(3) _ s1(13) sb b8]) (simp add: s1(5,6))
  have d1: "distinct (threadq s1 @ zombieq s1)" using d(1) by (simp only: s1(5,6))
  obtain h' where h': "reaper (zombieq s1) s1 = Inr (s1\<lparr>zombieq := [], heap := h'\<rparr>)"
    "heap_ok (s1\<lparr>zombieq := [], heap := h'\<rparr>) E P" by (rule reaper_ok [OF h1 d1 refl])
  let ?s2 = "s1\<lparr>zombieq := [], heap := h'\<rparr>"
  have lc: "left_call x t = (if kcont s t = K_start \<or> kcont s t = K_yield then x else block_tail x)
      \<lparr>joinwq := filter (\<lambda>y. fst y \<noteq> t) (joinwq s)\<rparr>" if "kcont x = kcont s" "joinwq x = joinwq s" for x
    using that by (simp add: left_call_def)
  note r1 = resume_user [OF inv t s1(2) s1(4,5,7-12), folded lc [OF s1(4,10)]]
  have t2: "threads ?s2 = threads (committed s t)" using s1(2) by simp
  show thesis
  proof (rule that [OF s1(1,4,5,11,10) h1 b5])
    show "sched_user (left_call s1 t)" "\<not> bit (flags_of (left_call s1 t) t) 10"
      using r1 d(2) by (simp_all add: s1(6))
    show "\<exists>h'. reaper (zombieq s1) s1 = Inr (s1\<lparr>zombieq := [], heap := h'\<rparr>) \<and>
      heap_ok (s1\<lparr>zombieq := [], heap := h'\<rparr>) E P \<and>
      sched_user (left_call (s1\<lparr>zombieq := [], heap := h'\<rparr>) t) \<and>
      \<not> bit (flags_of (left_call (s1\<lparr>zombieq := [], heap := h'\<rparr>) t) t) 10"
      using h' resume_user [OF inv t t2] s1(4,5,7-12) lc [of ?s2] by (intro exI [of _ h']) simp
  qed
qed

lemma left_call_fields [simp]:
  "kcont (left_call s t) = kcont s" "threadq (left_call s t) = threadq s" "heap (left_call s t) = heap s"
  "zombieq (left_call s t) = zombieq s" "bmk_current (left_call s t) = bmk_current s"
  "joinwq (left_call s t) = filter (\<lambda>x. fst x \<noteq> t) (joinwq s)"
  by (simp_all add: left_call_def block_tail_def Let_def)

lemma heap_ok_left: "heap_ok s E P \<Longrightarrow> heap_ok (left_call s t) E P"
  by (erule heap_ok_cong) (auto simp: left_call_def block_tail_def Let_def)

lemma left_call_flags: "x \<noteq> bmk_current s \<Longrightarrow> flags_of (left_call s t) x = flags_of s x"
  by (simp add: left_call_def block_tail_def Let_def)

lemma left_call_plain:
  assumes "filter (\<lambda>x. fst x \<noteq> t) (joinwq s) = joinwq s"
  shows "left_call s t = (if kcont s t = K_start \<or> kcont s t = K_yield then s else block_tail s)"
  unfolding left_call_def assms by (cases s) (simp add: block_tail_def Let_def setflags_def)

section \<open>schedule()\<close>

text \<open>The threads \<open>I\<close> that interrupt handlers wake do not exit.\<close>

definition irq_ok :: "nat set \<Rightarrow> sched \<Rightarrow> bool" where
  "irq_ok I s \<longleftrightarrow> I \<subseteq> set (threadq s) \<and> (\<forall>t \<in> I. t \<noteq> bmk_current s \<longrightarrow> kcont s t \<noteq> K_exitgate)"

definition returns_ok ::
  "rounds \<Rightarrow> nat set \<Rightarrow> nat list \<Rightarrow> (nat \<times> nat) multiset \<Rightarrow> (sched \<times> rounds) res \<Rightarrow> bool" where
  "returns_ok rs I E P r \<longleftrightarrow> r = Inl Out_of_fuel \<or>
     (\<exists>s' rs' pre. r = Inr (s', rs') \<and> rs = pre @ rs' \<and> sched_user s' \<and>
        \<not> bit (flags_of s' (bmk_current s')) 10 \<and> heap_ok s' E P \<and> irq_ok I s')"

lemma returns_ok_append: "returns_ok rs I E P r \<Longrightarrow> returns_ok (pre @ rs) I E P r"
  unfolding returns_ok_def by (metis append_assoc)

lemma returns_okI:
  assumes "sched_user s'" "\<not> bit (flags_of s' (bmk_current s')) 10" "heap_ok s' E P" "irq_ok I s'"
  shows "returns_ok (pre @ rs') I E P (Inr (s', rs'))"
  using assms unfolding returns_ok_def by blast

text \<open>The precondition of a call of \<open>schedule()\<close> with continuation \<open>k\<close>.\<close>

definition may_schedule :: "nat set \<Rightarrow> nat list \<Rightarrow> (nat \<times> nat) multiset \<Rightarrow> kont \<Rightarrow> sched \<Rightarrow> bool" where
  "may_schedule I E P k s \<longleftrightarrow>
     sched_inv (s\<lparr>kcont := (kcont s)(bmk_current s := k)\<rparr>) (set (threadq s)) \<and> \<not> spl s \<and> heap_ok s E P \<and>
     I \<subseteq> set (threadq s) \<and> (\<forall>t \<in> I. ((kcont s)(bmk_current s := k)) t \<noteq> K_exitgate)"

lemma exit_again:
  assumes u: "sched_user s" "\<not> bit (flags_of s (bmk_current s)) 10" and h: "heap_ok s E P"
    and I: "I \<subseteq> set (threadq s)" "\<And>t. t \<in> I \<Longrightarrow> t \<noteq> bmk_current s \<and> kcont s t \<noteq> K_exitgate"
  obtains k s' where "exit_path s = Inr (k, s')" "may_schedule I E P k s'"
proof (cases "bit (flags_of s (bmk_current s)) 5")
  case True
  obtain s' where s': "exit_path s = Inr (K_exitgate, s')" "same_threads s s'"
    "sched_inv (s'\<lparr>kcont := (kcont s')(bmk_current s := K_exitgate)\<rparr>) (set (threadq s))"
    by (rule exit_path_gate [OF u True])
  have st: "bmk_current s' = bmk_current s" "threadq s' = threadq s" "kcont s' = kcont s" "spl s' = spl s"
    using s'(2) by (simp_all add: same_threads_def)
  have "may_schedule I E P K_exitgate s'"
    using s'(3) sched_userD(2) [OF u(1)] heap_ok_same [OF h s'(2)] I unfolding may_schedule_def st by auto
  then show thesis using s'(1) by (intro that)
next
  case False
  note x = exit_path_dead [OF u False]
  define s' where "s' = (setflags s (bmk_current s) THR_DEAD THR_RUNNING)
      \<lparr>threadq := remove1 (bmk_current s) (threadq s), zombieq := bmk_current s # zombieq s\<rparr>"
  have m: "mset (threadq s' @ zombieq s') = mset (threadq s @ zombieq s)"
    using sched_userD(3) [OF u(1)] by (simp add: s'_def)
  have "heap_ok s' E P" by (rule heap_ok_cong [OF h _ m]) (auto simp: s'_def)
  moreover have "I \<subseteq> set (threadq s')" using I x(2) unfolding s'_def by auto
  moreover have st: "bmk_current s' = bmk_current s" "kcont s' = kcont s" "spl s' = spl s" by (simp_all add: s'_def)
  ultimately have "may_schedule I E P K_exit s'"
    using x(3) [folded s'_def] sched_userD(2) [OF u(1)] I(2) unfolding may_schedule_def st by auto
  then show thesis using x(1) [folded s'_def] by (intro that)
qed

lemma join_again:
  assumes u: "sched_user s" "\<not> bit (flags_of s (bmk_current s)) 10" and h: "heap_ok s E P"
    and j: "j \<in> set (threadq s)" "j \<noteq> bmk_current s" "bit (flags_of s j) 5" "j \<notin> snd ` set (joinwq s)"
    and I: "I \<subseteq> set (threadq s)" "\<And>t. t \<in> I \<Longrightarrow> t \<noteq> bmk_current s \<Longrightarrow> kcont s t \<noteq> K_exitgate"
  obtains s' where "join_path j s = Inr (Some (K_join j), s')" "may_schedule I E P (K_join j) s'"
  | s' where "join_path j s = Inr (None, s')" "sched_user s'" "\<not> bit (flags_of s' (bmk_current s')) 10"
      "heap_ok s' E P" "irq_ok I s'" "bit (flags_of s j) 6"
proof (cases "bit (flags_of s j) 6")
  case True
  obtain s' where s': "join_path j s = Inr (None, s')" "same_threads s s'" "sched_user s'"
    "\<not> bit (flags_of s' (bmk_current s')) 10" "j \<in> set (runq s')"
    by (rule join_path_done [OF u j(1,2,4) True])
  then show thesis using that(2) heap_ok_same [OF h s'(2)] I True by (auto simp: same_threads_def irq_ok_def)
next
  case False
  obtain s' where s': "join_path j s = Inr (Some (K_join j), s')" "same_threads s s'"
    "sched_inv (s'\<lparr>kcont := (kcont s')(bmk_current s := K_join j)\<rparr>) (set (threadq s))"
    by (rule join_path_block [OF u j False])
  have st: "bmk_current s' = bmk_current s" "threadq s' = threadq s" "kcont s' = kcont s" "spl s' = spl s"
    using s'(2) by (simp_all add: same_threads_def)
  have "may_schedule I E P (K_join j) s'"
    using s'(3) sched_userD(2) [OF u(1)] heap_ok_same [OF h s'(2)] I unfolding may_schedule_def st by auto
  then show thesis using s'(1) by (intro that(1))
qed

lemma sched_inv_spl: "sched_inv (s\<lparr>spl := b\<rparr>) W = sched_inv s W"
  by (simp add: sched_inv_def queues_ok_def thr_ok_def kont_ok_def joins_ok_def)

lemma heap_ok_kcont: "heap_ok (s\<lparr>kcont := k\<rparr>) E P = heap_ok s E P" "heap_ok (s\<lparr>spl := b\<rparr>) E P = heap_ok s E P"
  by (auto elim!: heap_ok_cong)

lemma schedule_ok:
  assumes "may_schedule I E P k s" "rounds_ok rs I"
  shows "returns_ok rs I E P (schedule rs k s)"
  using assms
proof (induction "length rs" arbitrary: rs k s rule: less_induct)
  case less
  define s1 where "s1 = s\<lparr>kcont := (kcont s)(bmk_current s := k)\<rparr>\<lparr>spl := True\<rparr>"
  have pre: "sched_inv s1 (set (threadq s1))" "heap_ok s1 E P" "I \<subseteq> set (threadq s1)"
    "\<And>t. t \<in> I \<Longrightarrow> kcont s1 t \<noteq> K_exitgate" "\<not> spl s"
    using less.prems(1) unfolding may_schedule_def s1_def sched_inv_spl heap_ok_kcont by simp_all
  have "rounds_ok rs (set (threadq s1))" using less.prems(2) pre(3) by (auto simp: rounds_ok_def)
  from sched_pick_ok [OF pre(1) this] show ?case
  proof (elim disjE exE conjE)
    assume "sched_pick rs s1 = Inl Out_of_fuel"
    then have "schedule rs k s = Inl Out_of_fuel"
      using pre(5) by (subst schedule.simps) (simp add: s1_def Let_def)
    then show ?thesis by (simp add: returns_ok_def)
  next
    fix t s2 rs' pr
    assume p: "sched_pick rs s1 = Inr (t, s2, rs')" "rs = pr @ rs'" "sched_inv s2 (set (threadq s1))"
      "same_but_queues s1 s2" "runq s2 \<noteq> []" "t = hd (runq s2)"
    have len: "length rs' < length rs" using p(1) by (rule sched_pick_shorter)
    have ro: "rounds_ok rs' I" using less.prems(2) p(2) by (simp add: rounds_ok_def)
    have st2: "threadq s2 = threadq s1" "kcont s2 = kcont s1" using p(4) by (simp_all add: same_but_queues_def)
    have inv2: "sched_inv s2 (set (threadq s2))" "heap_ok s2 E P" "t \<in> set (runq s2)"
      using p(3,5,6) heap_ok_same [OF pre(2) same_threads_queues [OF p(4)]] by (simp_all add: st2)
    have j2: "joins_ok s2 (set (threadq s2))" "t \<in> set (threadq s2)" "kont_ok s2 t"
      using inv2(1,3) queues_okD(5) [of s2] by (auto simp: sched_inv_def)
    obtain s3 where s3: "sched_commit s2 t = Inr s3" "kcont s3 = kcont s2" "threadq s3 = threadq s2"
        "bmk_current s3 = t" "joinwq s3 = joinwq s2" "heap_ok s3 E P" "\<forall>x. bit (flags_of s3 x) 5 = bit (flags_of s2 x) 5"
        "sched_user (left_call s3 t)" "\<not> bit (flags_of (left_call s3 t) t) 10"
        "\<exists>h'. reaper (zombieq s3) s3 = Inr (s3\<lparr>zombieq := [], heap := h'\<rparr>) \<and>
          heap_ok (s3\<lparr>zombieq := [], heap := h'\<rparr>) E P \<and>
          sched_user (left_call (s3\<lparr>zombieq := [], heap := h'\<rparr>) t) \<and>
          \<not> bit (flags_of (left_call (s3\<lparr>zombieq := [], heap := h'\<rparr>) t) t) 10"
      by (rule switch_in [OF inv2])
    then obtain h' where h': "reaper (zombieq s3) s3 = Inr (s3\<lparr>zombieq := [], heap := h'\<rparr>)"
        "heap_ok (s3\<lparr>zombieq := [], heap := h'\<rparr>) E P"
        "sched_user (left_call (s3\<lparr>zombieq := [], heap := h'\<rparr>) t)"
        "\<not> bit (flags_of (left_call (s3\<lparr>zombieq := [], heap := h'\<rparr>) t) t) 10" by blast
    define s4 where "s4 = s3\<lparr>zombieq := [], heap := h'\<rparr>"
    define s5 where "s5 = left_call s4 t"
    have st4: "kcont s4 = kcont s1" "threadq s4 = threadq s1" "bmk_current s4 = t" "joinwq s4 = joinwq s2"
      by (simp_all add: s4_def s3 st2)
    have u5: "sched_user s5" "\<not> bit (flags_of s5 (bmk_current s5)) 10" "heap_ok s5 E P" "bmk_current s5 = t"
        "threadq s5 = threadq s1" "kcont s5 = kcont s1"
      using h'(2-4) heap_ok_left [OF h'(2)] by (simp_all add: s5_def s4_def [symmetric] st4)
    have I5: "I \<subseteq> set (threadq s5)" "\<And>u. u \<in> I \<Longrightarrow> kcont s5 u \<noteq> K_exitgate" using pre(3,4) by (simp_all add: u5)
    have q5: "irq_ok I s5" using I5 by (simp add: irq_ok_def)
    have done5: "returns_ok rs I E P (Inr (s5, rs'))" unfolding p(2) using u5(1-3) q5 by (rule returns_okI)
    have unf: "schedule rs k s = (if kcont s1 t = K_start then Inr (s3, rs') else
        case kcont s1 t of
          K_start \<Rightarrow> Inr (s4, rs') | K_block \<Rightarrow> Inr (block_tail s4, rs') | K_yield \<Rightarrow> Inr (s4, rs')
        | K_exit \<Rightarrow> Inl (Halt ''schedule() returned for a dead thread!'')
        | K_exitgate \<Rightarrow> bindR (exit_path (block_tail s4)) (\<lambda>(k, s). schedule rs' k s)
        | K_join j \<Rightarrow> bindR (join_path j ((block_tail s4)\<lparr>joinwq := remove1 (t, j) (joinwq s4)\<rparr>)) (\<lambda>(ko, s).
             case ko of None \<Rightarrow> Inr (s, rs') | Some k \<Rightarrow> schedule rs' k s))"
      using pre(5) p(1) s3(1) h'(1)
      by (subst schedule.simps) (simp add: s1_def [symmetric] Let_def s3(2) st2 st4(1) s4_def [symmetric])
    have plain: "s5 = (if kcont s1 t = K_start \<or> kcont s1 t = K_yield then s4 else block_tail s4)"
      "left_call s3 t = (if kcont s1 t = K_start \<or> kcont s1 t = K_yield then s3 else block_tail s3)"
      if "\<And>j. kcont s1 t \<noteq> K_join j"
      using no_entry [OF j2(1), of t] that left_call_plain [of t s4] left_call_plain [of t s3]
      by (simp_all add: s5_def st4 st2 s3)
    show ?thesis
    proof (cases "kcont s1 t")
      case K_start
      then have "schedule rs k s = Inr (left_call s3 t, rs')" using unf plain(2) by simp
      then show ?thesis unfolding p(2) using s3(8,9) heap_ok_left [OF s3(6)] pre(3,4)
        by (simp add: p(2) returns_okI s3 st2 irq_ok_def)
    next
      case K_block
      then show ?thesis using unf plain(1) done5 by simp
    next
      case K_yield
      then show ?thesis using unf plain(1) done5 by simp
    next
      case K_exit
      then show ?thesis using j2(3) by (simp add: kont_ok_def st2)
    next
      case K_exitgate
      have nI: "u \<noteq> bmk_current s5 \<and> kcont s5 u \<noteq> K_exitgate" if "u \<in> I" for u
        using I5(2) [OF that] K_exitgate by (auto simp: u5)
      obtain k' s6 where x: "exit_path s5 = Inr (k', s6)" "may_schedule I E P k' s6"
        by (rule exit_again [OF u5(1-3) I5(1) nI])
      have "schedule rs k s = schedule rs' k' s6" using unf K_exitgate plain(1) x(1) by simp
      then show ?thesis unfolding p(2) using returns_ok_append [OF less.hyps [OF len x(2) ro]] by simp
    next
      case (K_join j)
      have e: "(t, j) \<in> set (joinwq s2)" using joins_okD(4) [OF j2(1,2)] K_join by (simp add: st2)
      note d = joins_okD(1-3) [OF j2(1)] and d3 = joins_okD(3) [OF j2(1) e]
      have jq: "remove1 (t, j) (joinwq s4) = filter (\<lambda>x. fst x \<noteq> t) (joinwq s4)"
        unfolding st4 using d(1) e by (rule remove_entry)
      have s5j: "(block_tail s4)\<lparr>joinwq := remove1 (t, j) (joinwq s4)\<rparr> = s5"
        by (simp add: s5_def left_call_def jq [unfolded st4(4)] st4 K_join)
      have "inj_on snd (set (joinwq s2))" using d(2) by (simp add: distinct_map)
      then have "x = (t, j)" if "x \<in> set (joinwq s2)" "snd x = j" for x
        using e that by (auto dest: inj_onD [where y = "(t, j)"])
      then have nj: "j \<notin> snd ` set (joinwq s5)" by (fastforce simp: s5_def st4)
      have jt: "j \<noteq> t" "j \<in> set (threadq s5)" using d3 by (auto simp: u5 st2)
      have "flags_of s5 j = flags_of s4 j" unfolding s5_def by (rule left_call_flags) (simp add: st4 jt)
      then have b5: "bit (flags_of s5 j) 5" using d3 by (simp add: s4_def s3(7))
      have nc: "j \<noteq> bmk_current s5" using jt by (simp add: u5)
      show ?thesis
      proof (rule join_again [OF u5(1-3) jt(2) nc b5 nj I5(1)])
        show "kcont s5 u \<noteq> K_exitgate" if "u \<in> I" for u by (rule I5(2) [OF that])
      next
        fix s6 assume x: "join_path j s5 = Inr (Some (K_join j), s6)" "may_schedule I E P (K_join j) s6"
        have "schedule rs k s = schedule rs' (K_join j) s6" using unf K_join x(1) s5j by simp
        then show ?thesis unfolding p(2) using returns_ok_append [OF less.hyps [OF len x(2) ro]] by simp
      next
        fix s6 assume x: "join_path j s5 = Inr (None, s6)" "sched_user s6" "\<not> bit (flags_of s6 (bmk_current s6)) 10"
          "heap_ok s6 E P" "irq_ok I s6"
        have "schedule rs k s = Inr (s6, rs')" using unf K_join x(1) s5j by simp
        then show ?thesis unfolding p(2) using returns_okI [OF x(2-5)] by simp
      qed
    qed
  qed
qed

section \<open>The operations of a running thread\<close>

definition sched_good :: "nat set \<Rightarrow> nat list \<Rightarrow> (nat \<times> nat) multiset \<Rightarrow> sched \<Rightarrow> bool" where
  "sched_good I E P s \<longleftrightarrow> sched_user s \<and> heap_ok s E P \<and> irq_ok I s"

abbreviation prepared_to_block :: "sched \<Rightarrow> bool" where
  "prepared_to_block s \<equiv> bit (flags_of s (bmk_current s)) 10"

definition returns_good ::
  "nat set \<Rightarrow> nat list \<Rightarrow> (nat \<times> nat) multiset \<Rightarrow> (sched \<times> rounds) res \<Rightarrow> bool" where
  "returns_good I E P r \<longleftrightarrow> (case r of Inl e \<Rightarrow> e = Out_of_fuel
     | Inr (s', _) \<Rightarrow> sched_good I E P s' \<and> \<not> prepared_to_block s')"

lemma returns_ok_good: "returns_ok rs I E P r \<Longrightarrow> returns_good I E P r"
  by (auto simp: returns_ok_def returns_good_def sched_good_def)

lemmas schedule_good = returns_ok_good [OF schedule_ok]

lemma prepare_good:
  assumes "sched_good I E P s" "\<not> prepared_to_block s"
  shows "\<exists>s'. bmk_sched_blockprepare_timeout s d = Inr s' \<and> sched_good I E P s' \<and> prepared_to_block s'"
  using assms blockprepare_ok [of s d] prepared_user [of s d] heap_ok_same [OF _ same_threads_prepared, of s E P d]
  by (auto simp: sched_good_def irq_ok_def)

lemma wake_good:
  assumes g: "sched_good I E P s" and t: "t \<in> set (threadq s)"
  shows "\<exists>s'. bmk_sched_wake s t = Inr s' \<and> sched_good I E P s' \<and> (prepared_to_block s' = prepared_to_block s) \<and>
    (t \<noteq> bmk_current s \<longrightarrow> t \<in> set (runq s'))"
proof -
  have u: "sched_user s" using g by (simp add: sched_good_def)
  note uD = sched_userD [OF u]
  have q: "queues_ok s" by (rule uD)
  have same: "same_threads s (woken s t)" by (rule same_threads_queues [OF same_but_queues_woken])
  have "sched_inv (woken s t) (set (threadq s) - {bmk_current s})" using uD(1) t by (rule sched_inv_woken)
  moreover have "thr_ok s (bmk_current s)" using queues_okD(9) [OF q uD(3)] .
  ultimately have "sched_user (woken s t)"
    using u unfolding sched_user_def by (auto simp: woken_queues is_blocked_def thr_ok_def)
  moreover have "t \<in> set (runq (woken s t))" if "t \<noteq> bmk_current s"
    using uD(8) [OF t that] queues_okD(9) [OF q t]
    by (auto simp: kont_ok_def woken_queues thr_ok_def is_blocked_def)
  ultimately show ?thesis
    using g wake_ok [OF q t] heap_ok_same [OF _ same, of E P] by (auto simp: sched_good_def irq_ok_def woken_queues)
qed

lemma block_good:
  assumes g: "sched_good I E P s" and b: "prepared_to_block s" and r: "rounds_ok rs I"
  shows "returns_good I E P (bmk_sched_block rs s)"
proof -
  have u: "sched_user s" using g by (simp add: sched_good_def)
  have "may_schedule I E P K_block s"
    using g enter_block [OF u b] sched_userD(2) [OF u] by (auto simp: may_schedule_def sched_good_def irq_ok_def)
  then show ?thesis
    using schedule_good [OF _ r] block_check_ok [OF u b] by (auto simp: bmk_sched_block_def)
qed

lemma yield_may_schedule:
  assumes g: "sched_good I E P s" and b: "\<not> prepared_to_block s"
  defines "s' \<equiv> setflags (s\<lparr>runq := runq s @ [bmk_current s]\<rparr>) (bmk_current s) THR_RUNQ THR_RUNNING"
  shows "may_schedule I E P K_yield s'" "bmk_sched_yield rs s = schedule rs K_yield s'"
proof -
  have u: "sched_user s" using g by (simp add: sched_good_def)
  show "bmk_sched_yield rs s = schedule rs K_yield s'"
    using sched_userD(4) [OF u] by (simp add: bmk_sched_yield_def Let_def s'_def)
  have "heap_ok s' E P" by (rule heap_ok_cong [of s]) (use g in \<open>auto simp: sched_good_def s'_def\<close>)
  then show "may_schedule I E P K_yield s'"
    using g enter_yield [OF u b] sched_userD(2) [OF u]
    by (auto simp: may_schedule_def sched_good_def irq_ok_def s'_def)
qed

lemma yield_good:
  assumes "sched_good I E P s" "\<not> prepared_to_block s" "rounds_ok rs I"
  shows "returns_good I E P (bmk_sched_yield rs s)"
  using yield_may_schedule [OF assms(1,2)] schedule_good [OF _ assms(3)] by metis

lemma exit_good:
  assumes g: "sched_good I E P s" and b: "\<not> prepared_to_block s" and r: "rounds_ok rs I" and c: "bmk_current s \<notin> I"
  shows "returns_good I E P (bmk_sched_exit_withtls rs s)"
proof -
  have u: "sched_user s" "heap_ok s E P" "I \<subseteq> set (threadq s)" using g by (simp_all add: sched_good_def irq_ok_def)
  have "t \<noteq> bmk_current s \<and> kcont s t \<noteq> K_exitgate" if "t \<in> I" for t
    using g c that by (auto simp: sched_good_def irq_ok_def)
  then obtain k s' where "exit_path s = Inr (k, s')" "may_schedule I E P k s'"
    by (rule exit_again [OF u(1) b u(2,3)])
  then show ?thesis using schedule_good [OF _ r] by (auto simp: bmk_sched_exit_withtls_def)
qed

lemma join_good:
  assumes g: "sched_good I E P s" and b: "\<not> prepared_to_block s" and r: "rounds_ok rs I"
    and j: "j \<in> set (threadq s)" "j \<noteq> bmk_current s" "bit (flags_of s j) 5" "j \<notin> snd ` set (joinwq s)"
  shows "returns_good I E P (bmk_sched_join rs j s)"
proof -
  have u: "sched_user s" "heap_ok s E P" "I \<subseteq> set (threadq s)" using g by (simp_all add: sched_good_def irq_ok_def)
  show ?thesis
  proof (rule join_again [OF u(1) b u(2) j u(3)])
    show "kcont s t \<noteq> K_exitgate" if "t \<in> I" "t \<noteq> bmk_current s" for t
      using g that by (auto simp: sched_good_def irq_ok_def)
  next
    fix s' assume "join_path j s = Inr (Some (K_join j), s')" "may_schedule I E P (K_join j) s'"
    then show ?thesis using j(3) schedule_good [OF _ r] by (auto simp: bmk_sched_join_def)
  next
    fix s' assume "join_path j s = Inr (None, s')" "sched_user s'" "\<not> prepared_to_block s'" "heap_ok s' E P" "irq_ok I s'"
    then show ?thesis using j(3) by (simp add: bmk_sched_join_def returns_good_def sched_good_def)
  qed
qed

end
