(* ===== verification/SchedCreate.thy ===== *)
theory SchedCreate
  imports SchedCorrect
begin

text \<open>
  Thread creation: the new thread structure and stack are fresh memory, nothing else is
  overwritten, and the new thread is at the end of the run queue.
\<close>

section \<open>The second half of the creation\<close>

lemma inittcb_fields [simp]:
  "threadq (inittcb s t a n) = threadq s" "zombieq (inittcb s t a n) = zombieq s" "runq (inittcb s t a n) = runq s"
  "timeq (inittcb s t a n) = timeq s" "blockq (inittcb s t a n) = blockq s" "joinwq (inittcb s t a n) = joinwq s"
  "kcont (inittcb s t a n) = kcont s" "bmk_current (inittcb s t a n) = bmk_current s" "spl (inittcb s t a n) = spl s"
  "bmk_stackpageorder (inittcb s t a n) = bmk_stackpageorder s"
  "heap (inittcb s t a n) = (heap s)\<lparr>cells := cells_store (cells (heap s)) a (le64 a)\<rparr>"
  "flags_of (inittcb s t a n) u = flags_of s u" "wakeup_of (inittcb s t a n) u = wakeup_of s u"
  "bt_stackbase (threads (inittcb s t a n) u) = bt_stackbase (threads s u)"
  by (simp_all add: inittcb_def set_cells_def Let_def flags_of_def wakeup_of_def)

definition stack_cells :: "(nat \<Rightarrow> u8) \<Rightarrow> nat \<Rightarrow> nat \<Rightarrow> nat \<Rightarrow> nat \<Rightarrow> nat \<Rightarrow> (nat \<Rightarrow> u8)" where
  "stack_cells m t f arg base n =
     (let top = wrap64 (base + n);
          m = cells_store m base (le64 t);
          m = cells_store m (sub64 top 8) (le64 f)
      in cells_store m (sub64 (sub64 top 8) 8) (le64 arg))"

lemma cpu_create_fields [simp]:
  fixes s :: sched
  defines "s' b t f a base n \<equiv> bmk_cpu_sched_create b s t f a base n"
  shows "threadq (s' b t f a base n) = threadq s" "zombieq (s' b t f a base n) = zombieq s"
  "runq (s' b t f a base n) = runq s" "timeq (s' b t f a base n) = timeq s" "blockq (s' b t f a base n) = blockq s"
  "joinwq (s' b t f a base n) = joinwq s" "kcont (s' b t f a base n) = kcont s"
  "bmk_current (s' b t f a base n) = bmk_current s" "spl (s' b t f a base n) = spl s"
  "bmk_stackpageorder (s' b t f a base n) = bmk_stackpageorder s"
  "heap (s' b t f a base n) = (heap s)\<lparr>cells := stack_cells (cells (heap s)) t f a base n\<rparr>"
  "flags_of (s' b t f a base n) u = flags_of s u" "wakeup_of (s' b t f a base n) u = wakeup_of s u"
  "bt_stackbase (threads (s' b t f a base n) u) = bt_stackbase (threads s u)"
  by (simp_all add: s'_def bmk_cpu_sched_create_def stack_push_def stack_cells_def set_cells_def Let_def
      flags_of_def wakeup_of_def)

lemma thread_upd_fields [simp]:
  "flags_of (s\<lparr>threads := (threads s)(t := (threads s t)\<lparr>bt_cookie := c\<rparr>)\<rparr>) u = flags_of s u"
  "wakeup_of (s\<lparr>threads := (threads s)(t := (threads s t)\<lparr>bt_cookie := c\<rparr>)\<rparr>) u = wakeup_of s u"
  "flags_of (s\<lparr>threads := (threads s)(t := (threads s t)\<lparr>bt_stackbase := b\<rparr>)\<rparr>) u = flags_of s u"
  "wakeup_of (s\<lparr>threads := (threads s)(t := (threads s t)\<lparr>bt_stackbase := b\<rparr>)\<rparr>) u = wakeup_of s u"
  by (simp_all add: flags_of_def wakeup_of_def)

lemma create_finish_fields:
  fixes s :: sched and b t stack n cookie f a tls :: nat and j :: bool
  defines "s' \<equiv> create_finish b s t stack n cookie j f a tls"
  shows "threadq s' = threadq s @ [t]" "zombieq s' = zombieq s" "runq s' = runq s @ [t]" "timeq s' = timeq s"
    "blockq s' = blockq s" "joinwq s' = joinwq s" "kcont s' = kcont s" "bmk_current s' = bmk_current s"
    "spl s' = spl s" "bmk_stackpageorder s' = bmk_stackpageorder s"
    "flags_of s' u = (if u = t then updfl (if j then updfl (flags_of s t) 0 THR_MUSTJOIN else flags_of s t) 0 THR_RUNQ
       else flags_of s u)"
    "wakeup_of s' u = (if u = t then BLOCK_INFTIME else wakeup_of s u)"
    "bt_stackbase (threads s' u) = (if u = t then stack else bt_stackbase (threads s u))"
    "heap s' = (heap s)\<lparr>cells := cells_store (stack_cells (cells (heap s)) t f a stack n) tls (le64 tls)\<rparr>"
  by (simp_all add: s'_def create_finish_def Let_def)

lemma le64_length [simp]: "length (le64 v) = 8"
  by (simp add: le64_def)

lemma stack_cells_outside:
  assumes "16 \<le> n" "base + n < 2 ^ 64" "x < base \<or> base + n \<le> x"
  shows "stack_cells m t f arg base n x = m x"
proof -
  have w: "wrap64 (base + n) = base + n" using assms(2) by (simp only: wrap64_def mod_less)
  have "sub64 (base + n) 8 = base + n - 8" by (rule sub64_diff) (use assms in simp_all)
  moreover have "sub64 (base + n - 8) 8 = base + n - 8 - 8" by (rule sub64_diff) (use assms in simp_all)
  ultimately show ?thesis
    using assms unfolding stack_cells_def Let_def w by (auto simp: cells_store_def)
qed

section \<open>The new thread in the queues\<close>

lemma create_user:
  assumes u: "sched_user s0" and t: "t \<notin> set (threadq s0 @ zombieq s0)"
    and s: "threadq s = threadq s0" "zombieq s = zombieq s0" "runq s = runq s0" "timeq s = timeq s0"
      "blockq s = blockq s0" "joinwq s = joinwq s0" "kcont s = (kcont s0)(t := K_start)"
      "bmk_current s = bmk_current s0" "spl s = spl s0"
      "\<And>u. u \<noteq> t \<Longrightarrow> flags_of s u = flags_of s0 u" "\<And>u. u \<noteq> t \<Longrightarrow> wakeup_of s u = wakeup_of s0 u"
    and fl: "\<And>n. n \<in> {0, 1, 2, 3, 4, 5, 6, 9, 10} \<Longrightarrow> \<not> bit (flags_of s t) n"
  shows "sched_user (create_finish b s t stack n cookie j f a tls)"
proof -
  define s' where "s' = create_finish b s t stack n cookie j f a tls"
  note c = create_finish_fields [of b s t stack n cookie j f a tls, folded s'_def]
  define cur where "cur = bmk_current s0"
  note uD = sched_userD [OF u, folded cur_def] and q = queues_okD [OF sched_userD(6) [OF u]]
  have ct: "cur \<noteq> t" using uD(3) t by auto
  have nq: "t \<notin> set (runq s0)" "t \<notin> set (timeq s0)" "t \<notin> set (blockq s0)" using q(5-7) t by auto
  have f': "flags_of s' x = flags_of s0 x" if "x \<noteq> t" for x using that s(10) by (simp add: c)
  have ft: "bit (flags_of s' t) 0" "\<not> bit (flags_of s' t) 1" "\<not> bit (flags_of s' t) 2" "\<not> bit (flags_of s' t) 3"
    "\<not> bit (flags_of s' t) 4" "\<not> bit (flags_of s' t) 9" "\<not> bit (flags_of s' t) 10"
    using fl [of 1] fl [of 2] fl [of 3] fl [of 4] fl [of 9] fl [of 10] by (auto simp: c)
  have w': "wakeup_of s' x = (if x = t then BLOCK_INFTIME else wakeup_of s0 x)" for x using s(11) by (simp add: c)
  have st: "threadq s' = threadq s0 @ [t]" "zombieq s' = zombieq s0" "runq s' = runq s0 @ [t]" "timeq s' = timeq s0"
    "blockq s' = blockq s0" "joinwq s' = joinwq s0" "kcont s' = (kcont s0)(t := K_start)" "bmk_current s' = cur" "spl s' = spl s0"
    by (simp_all add: c s cur_def)
  have ok: "thr_ok s' x" if "x \<in> set (threadq s0 @ [t])" for x
  proof (cases "x = t")
    case True
    then show ?thesis using ft nq unfolding thr_ok_def st w' by simp
  next
    case False
    then show ?thesis using that
      by (intro thr_ok_frame [OF q(9)]) (auto simp: f' w' st, simp_all add: cur_def)
  qed
  have "sorted_wrt (\<lambda>x y. wakeup_of s' x \<le> wakeup_of s' y) (timeq s')"
    unfolding st using q(8) by (rule sorted_wrt_cong_set) (use nq(2) in \<open>auto simp: w'\<close>)
  then have "queues_ok s'"
    using q(1-7) t nq(1) ok unfolding queues_ok_def st by auto
  moreover have "kont_ok s' x" if "x \<in> set (threadq s0 @ [t]) - {cur}" for x
  proof (cases "x = t")
    case True
    then show ?thesis using ft by (simp add: kont_ok_def st)
  next
    case False
    then show ?thesis using that by (intro kont_ok_frame [OF uD(8)]) (auto simp: f' st)
  qed
  moreover have "joins_ok s' (set (threadq s0 @ [t]) - {cur})"
  proof -
    note d = joins_okD [OF uD(7)]
    have jl: "j \<in> set (threadq s0) \<and> j \<noteq> t \<and> x \<noteq> t" if "(x, j) \<in> set (joinwq s0)" for x j
      using d(3) [OF that] t by auto
    show ?thesis
    proof (rule joins_okI, unfold st)
      show "distinct (map fst (joinwq s0))" "distinct (map snd (joinwq s0))" by (rule d)+
      show "x \<in> set (threadq s0 @ [t]) - {cur} \<and> ((kcont s0)(t := K_start)) x = K_join j \<and>
          j \<in> set (threadq s0 @ [t]) \<and> x \<noteq> j \<and> bit (flags_of s' j) 5 \<and>
          (bit (flags_of s' j) 6 \<longrightarrow> x \<in> set (runq s0 @ [t]))" if "(x, j) \<in> set (joinwq s0)" for x j
        using d(3) [OF that] jl [OF that] by (simp add: f')
      show "(x, j) \<in> set (joinwq s0)"
        if "x \<in> set (threadq s0 @ [t]) - {cur}" "((kcont s0)(t := K_start)) x = K_join j" for x j
        using d(4) [of x j] that by (auto split: if_splits)
      show "bit (flags_of s' x) 6 \<and> (bit (flags_of s' x) 5 \<or> x \<in> set (runq s0 @ [t]))"
        if "x \<in> set (threadq s0 @ [t]) - {cur}" "((kcont s0)(t := K_start)) x = K_exitgate" for x
        using d(5) [of x] that by (auto simp: f' split: if_splits)
    qed
  qed
  ultimately show ?thesis
    using u unfolding s'_def [symmetric] sched_user_def sched_inv_def st by (auto simp: f' ct cur_def [symmetric])
qed

section \<open>The new thread in the heap\<close>

lemma taken_bound:
  assumes "mem_holds s L X" "x \<in># X"
  shows "fst x + 2 ^ (snd x + MINSHIFT) < 2 ^ 64"
proof -
  have i: "pg_inv (mpg s)" "blocks_ok (mpg s) (X + (live_blocks s L + bucket_blocks (freebuckets s)))"
    using assms(1) by (simp_all add: mem_holds_def mem_hole_def)
  have "mblk x \<subseteq> managed_set (mpg s)" using blocks_ok_member(3) [OF i(2), of x] assms(2) by auto
  moreover have last: "a + n - 1 \<in> {a..<a + n} \<and> Suc (a + n - 1) = a + n" if "0 < n" for a n :: nat
    using that by simp
  have "fst x + 2 ^ (snd x + MINSHIFT) - 1 \<in> mblk x" unfolding mblk_def using last by simp
  ultimately have "Suc (fst x + 2 ^ (snd x + MINSHIFT) - 1) < 2 ^ 64" using pga.managed_pos [OF i(1)] by blast
  then show ?thesis using last [of "2 ^ (snd x + MINSHIFT)" "fst x"] by simp
qed

text \<open>The writes to the initial stack and to the first word of the TLS area.\<close>

lemma create_heap_ok:
  fixes t f a :: nat
  assumes h: "mem_holds (h\<lparr>mpg := pg, cells := m\<rparr>) L (add_mset (p, order + 7) X)"
    and e: "e \<in> set L" "{tls..<tls + 8} \<subseteq> user_region (h\<lparr>mpg := pg, cells := m\<rparr>) e"
  defines "h' \<equiv> h\<lparr>mpg := pg, cells := cells_store (stack_cells m t f a p (2 ^ (order + 12))) tls (le64 tls)\<rparr>"
  shows "mem_holds h' L (add_mset (p, order + 7) X)"
    "\<And>r. r \<in> set L \<Longrightarrow> hdr_at h' r = hdr_at (h\<lparr>mpg := pg, cells := m\<rparr>) r"
proof -
  let ?h = "h\<lparr>mpg := pg, cells := m\<rparr>" and ?n = "2 ^ (order + 12) :: nat"
  let ?m = "stack_cells m t f a p ?n" let ?h1 = "?h\<lparr>cells := ?m\<rparr>"
  have n: "2 ^ (order + 7 + MINSHIFT) = ?n" by (simp add: add.commute)
  have "p + ?n < 2 ^ 64" using taken_bound [OF h, of "(p, order + 7)"] unfolding fst_conv snd_conv n by simp
  moreover have "(2::nat) ^ 4 \<le> ?n" by (rule power_increasing) simp_all
  ultimately have "?m x = cells ?h x" if "x \<notin> mblk (p, order + 7)" for x
    using that unfolding mblk_def fst_conv snd_conv n by (auto intro: stack_cells_outside)
  then have 1: "mem_holds ?h1 L (add_mset (p, order + 7) X)" "\<And>r. r \<in> set L \<Longrightarrow> hdr_at ?h1 r = hdr_at ?h r"
    using page_write [OF h, of "(p, order + 7)" ?m] by simp_all
  have "user_region ?h1 e = user_region ?h e" using 1(2) [OF e(1)] by (simp only: user_region_def own_def)
  then have w: "cells_store ?m tls (le64 tls) x = cells ?h1 x" if "x \<notin> user_region ?h1 e" for x
    using that e(2) by (auto simp: cells_store_def subset_iff)
  have h': "h' = ?h1\<lparr>cells := cells_store ?m tls (le64 tls)\<rparr>" by (simp add: h'_def)
  show "mem_holds h' L (add_mset (p, order + 7) X)" unfolding h' by (rule user_write(1) [OF 1(1) e(1) w])
  show "hdr_at h' r = hdr_at ?h r" if "r \<in> set L" for r
    unfolding h' using user_write(2) [OF 1(1) e(1) w that] 1(2) [OF that] by simp
qed

lemma image_filter_cong:
  assumes "\<And>x. x \<in># M \<Longrightarrow> P x = Q x" "\<And>x. x \<in># M \<Longrightarrow> f x = g x"
  shows "image_mset f (filter_mset P M) = image_mset g (filter_mset Q M)"
  using assms by (induction M) auto

lemma heap_ok_new:
  assumes ho: "heap_ok s E P" and t: "t \<notin> set (threadq s @ zombieq s)"
    and q: "threadq s' = threadq s @ [t]" "zombieq s' = zombieq s" "bmk_stackpageorder s' = bmk_stackpageorder s"
    and st: "bt_stackbase (threads s' t) = p" "\<not> bit (flags_of s' t) 8"
    and fr: "\<And>x. x \<noteq> t \<Longrightarrow> flags_of s' x = flags_of s x \<and> bt_stackbase (threads s' x) = bt_stackbase (threads s x)"
    and mh: "mem_holds (heap s') (t # threadq s @ zombieq s @ E) (add_mset (p, bmk_stackpageorder s + 7) (stacks s + P))"
    and wt: "mh_who (hdr_at (heap s') t) = memwho_val BMK_MEMWHO_WIREDBMK"
    and hd: "\<And>r. r \<in> set (threadq s @ zombieq s) \<Longrightarrow> hdr_at (heap s') r = hdr_at (heap s) r"
  shows "heap_ok s' E P"
proof -
  have "own_stack s' x = own_stack s x" "stack_block s' x = stack_block s x" if "x \<in># mset (threadq s @ zombieq s)" for x
    using fr [of x] t that by (cases "x = t"; simp add: own_stack_def stack_block_def q)+
  then have "image_mset (stack_block s') (filter_mset (own_stack s') (mset (threadq s @ zombieq s))) = stacks s"
    unfolding stacks_def by (rule image_filter_cong)
  moreover have "own_stack s' t" "stack_block s' t = (p, bmk_stackpageorder s + 7)"
    using st by (simp_all add: own_stack_def stack_block_def q)
  ultimately have st': "stacks s' = add_mset (p, bmk_stackpageorder s + 7) (stacks s)"
    unfolding stacks_def [of s'] by (simp add: q)
  have "mset (threadq s' @ zombieq s' @ E) = mset (t # threadq s @ zombieq s @ E)" by (simp add: q)
  then have "mem_holds (heap s') (threadq s' @ zombieq s' @ E) (stacks s' + P)"
    unfolding st' using mh mem_holds_perm by (metis union_mset_add_mset_left)
  moreover have "mh_who (hdr_at (heap s') x) = memwho_val BMK_MEMWHO_WIREDBMK" if "x \<in> set (threadq s' @ zombieq s')" for x
  proof (cases "x = t")
    case True
    then show ?thesis using wt by simp
  next
    case False
    then have x: "x \<in> set (threadq s @ zombieq s)" using that by (auto simp: q)
    then show ?thesis using ho unfolding hd [OF x] heap_ok_def by blast
  qed
  ultimately show ?thesis by (simp add: heap_ok_def)
qed

section \<open>Creating a thread\<close>

text \<open>
  What a call with an own stack leaves behind: either there is no memory, or a fresh thread
  is at the end of the thread list and of the run queue.
\<close>

definition created :: "nat set \<Rightarrow> nat list \<Rightarrow> (nat \<times> nat) multiset \<Rightarrow> sched \<Rightarrow> (nat \<times> sched) res \<Rightarrow> bool" where
  "created I E P s r \<longleftrightarrow> (case r of
       Inl e \<Rightarrow> e = Halt ''xmalloc failed'' \<or> e = Null_deref
     | Inr (t, s') \<Rightarrow> sched_good I E P s' \<and> t \<notin> set (threadq s @ zombieq s) \<union> set E \<and>
         threadq s' = threadq s @ [t] \<and> runq s' = runq s @ [t] \<and> kcont s' t = K_start \<and>
         bmk_current s' = bmk_current s \<and> (prepared_to_block s' \<longleftrightarrow> prepared_to_block s))"

lemma create_good:
  assumes g: "sched_good I E P s" and o: "bmk_stackpageorder s < FREELIST_LEVELS"
    and sz: "bmk_stacksize s = 2 ^ (bmk_stackpageorder s + 12)" and nm: "name_field name = Inr nm"
    and e: "e \<in> set E" "{tls..<tls + 8} \<subseteq> user_region (heap s) e"
  shows "created I E P s (bmk_sched_create_withtls b s name cookie j f a None 0 tls)"
proof -
  let ?L = "threadq s @ zombieq s @ E" and ?X = "stacks s + P" and ?o = "bmk_stackpageorder s"
  have u: "sched_user s" and ho: "heap_ok s E P" and iq: "irq_ok I s" using g by (simp_all add: sched_good_def)
  have mh: "mem_holds (heap s) ?L ?X"
    and who: "\<And>t. t \<in> set (threadq s @ zombieq s) \<Longrightarrow> mh_who (hdr_at (heap s) t) = memwho_val BMK_MEMWHO_WIREDBMK"
    using ho unfolding heap_ok_def by blast+
  show ?thesis
  proof (rule memalloc_cases [OF mh, of 0 THREAD_SIZE BMK_MEMWHO_WIREDBMK])
    assume "bmk_memalloc (heap s) THREAD_SIZE 0 BMK_MEMWHO_WIREDBMK = Inr (None, heap s)"
    then show ?thesis by (simp add: created_def bmk_sched_create_withtls_def bmk_xmalloc_bmk_def)
  next
    fix t h1
    assume al: "bmk_memalloc (heap s) THREAD_SIZE 0 BMK_MEMWHO_WIREDBMK = Inr (Some t, h1)"
      and h1: "mem_holds h1 (t # ?L) ?X" and rg: "{t..<t + THREAD_SIZE} \<subseteq> user_region h1 t"
      and wt: "mh_who (hdr_at h1 t) = memwho_val BMK_MEMWHO_WIREDBMK"
      and hd1: "\<And>r. r \<in> set ?L \<Longrightarrow> hdr_at h1 r = hdr_at (heap s) r"
    define m where "m = cells_set (cells h1) t 0 THREAD_SIZE"
    define h2 where "h2 = h1\<lparr>cells := m\<rparr>"
    have m: "m x = cells h1 x" if "x \<notin> user_region h1 t" for x
      using that rg by (auto simp: m_def cells_set_def subset_iff)
    have h2: "mem_holds h2 (t # ?L) ?X" "\<And>r. r \<in> set (t # ?L) \<Longrightarrow> hdr_at h2 r = hdr_at h1 r"
      unfolding h2_def using user_write [OF h1 list.set_intros(1) m] by simp_all
    have tn: "t \<notin> set ?L" using mem_holds_distinct [OF h1] by simp
    show ?thesis
    proof (rule pages_take [OF h2(1) o])
      assume "bmk_pgalloc (mpg h2) ?o = Inr (None, mpg h2)"
      then show ?thesis
        using al nm by (simp add: created_def bmk_sched_create_withtls_def bmk_xmalloc_bmk_def h2_def stackalloc_def Let_def)
    next
      fix p pg assume pa: "bmk_pgalloc (mpg h2) ?o = Inr (Some p, pg)"
        and h3: "mem_holds (h2\<lparr>mpg := pg\<rparr>) (t # ?L) (add_mset (p, ?o + 7) ?X)"
      define s2 where "s2 = s\<lparr>threads := (threads s)(t := blank_thread\<lparr>bt_name := nm\<rparr>),
        kcont := (kcont s)(t := K_start), heap := h2\<lparr>mpg := pg\<rparr>\<rparr>"
      define s' where "s' = create_finish b s2 t p (bmk_stacksize s) cookie j f a tls"
      have r: "bmk_sched_create_withtls b s name cookie j f a None 0 tls = Inr (t, s')"
        using al nm pa
        by (simp add: bmk_sched_create_withtls_def bmk_xmalloc_bmk_def h2_def m_def stackalloc_def Let_def s2_def s'_def)
      note c = create_finish_fields [of b s2 t p "bmk_stacksize s" cookie j f a tls, folded s'_def]
      have s2: "flags_of s2 t = 0" "\<And>x. x \<noteq> t \<Longrightarrow> flags_of s2 x = flags_of s x"
        "\<And>x. x \<noteq> t \<Longrightarrow> wakeup_of s2 x = wakeup_of s x"
        "\<And>x. x \<noteq> t \<Longrightarrow> bt_stackbase (threads s2 x) = bt_stackbase (threads s x)"
        "threadq s2 = threadq s" "zombieq s2 = zombieq s" "runq s2 = runq s" "timeq s2 = timeq s" "blockq s2 = blockq s"
        "joinwq s2 = joinwq s" "kcont s2 = (kcont s)(t := K_start)" "bmk_current s2 = bmk_current s" "spl s2 = spl s"
        "bmk_stackpageorder s2 = ?o" "heap s2 = h2\<lparr>mpg := pg\<rparr>"
        by (simp_all add: s2_def flags_of_def wakeup_of_def blank_thread_def)
      have su: "sched_user s'" unfolding s'_def by (rule create_user [OF u]) (use tn s2 in simp_all)
      have h23: "h2\<lparr>mpg := pg\<rparr> = h1\<lparr>mpg := pg, cells := m\<rparr>" by (simp add: h2_def)
      have ur: "user_region (h1\<lparr>mpg := pg, cells := m\<rparr>) e = user_region (heap s) e"
        using h2(2) [of e] hd1 [of e] e(1) unfolding h23 [symmetric] by (simp add: user_region_def own_def)
      note h' = create_heap_ok [OF h3 [unfolded h23], where e = e and tls = tls and t = t and f = f and a = a]
      have hs': "heap s' = h1\<lparr>mpg := pg, cells := cells_store (stack_cells m t f a p (2 ^ (?o + 12))) tls (le64 tls)\<rparr>"
        by (simp add: c s2 h2_def sz)
      have hdr: "hdr_at (heap s') r = hdr_at h1 r" if "r \<in> set (t # ?L)" for r
        using h'(2) [OF _ _ that] h2(2) [OF that] e ur unfolding hs' h23 [symmetric] by simp
      have hp: "heap_ok s' E P"
      proof (rule heap_ok_new [OF ho, of t s' p])
        show "mem_holds (heap s') (t # ?L) (add_mset (p, ?o + 7) ?X)" unfolding hs' by (rule h'(1)) (use e ur in simp_all)
        show "hdr_at (heap s') r = hdr_at (heap s) r" if "r \<in> set (threadq s @ zombieq s)" for r
          using that hdr [of r] hd1 [of r] by auto
        show "mh_who (hdr_at (heap s') t) = memwho_val BMK_MEMWHO_WIREDBMK" using hdr [of t] wt by simp
      qed (use tn in \<open>simp_all add: c s2\<close>)
      have ct: "bmk_current s \<noteq> t" using sched_userD(3) [OF u] tn by auto
      then have "irq_ok I s'" using iq unfolding irq_ok_def by (auto simp: c s2)
      then show ?thesis
        using su hp tn ct unfolding created_def r by (simp add: sched_good_def c s2)
    qed
  qed simp_all
qed

section \<open>Thread-local storage\<close>

lemma sched_good_heap:
  assumes "sched_good I E P s" "heap_ok (s\<lparr>heap := h\<rparr>) E' P"
  shows "sched_good I E' P (s\<lparr>heap := h\<rparr>)"
proof -
  have "sched_user (s\<lparr>heap := h\<rparr>) = sched_user s" "irq_ok I (s\<lparr>heap := h\<rparr>) = irq_ok I s"
    by (simp_all add: sched_user_def sched_inv_def queues_ok_def thr_ok_def kont_ok_def joins_ok_def irq_ok_def)
  then show ?thesis using assms by (simp add: sched_good_def)
qed

lemma heap_ok_heap:
  assumes ho: "heap_ok s E P" and mh: "mem_holds h (threadq s @ zombieq s @ E') (stacks s + P)"
    and hd: "\<And>r. r \<in> set (threadq s @ zombieq s) \<Longrightarrow> hdr_at h r = hdr_at (heap s) r"
  shows "heap_ok (s\<lparr>heap := h\<rparr>) E' P"
proof -
  have "stack_block (s\<lparr>heap := h\<rparr>) = stack_block s" "own_stack (s\<lparr>heap := h\<rparr>) = own_stack s"
    by (simp_all add: stack_block_def own_stack_def fun_eq_iff)
  then have "stacks (s\<lparr>heap := h\<rparr>) = stacks s" by (simp add: stacks_def)
  then show ?thesis using mh ho hd unfolding heap_ok_def by simp
qed

lemma TMEMSIZE_ge: "length (tdata s) + tbss_size s \<le> TMEMSIZE s"
  unfolding TMEMSIZE_def by presburger

lemma tls_alloc_good:
  assumes g: "sched_good I E P s" and n: "TMEMSIZE s + 64 < 2 ^ 63"
  obtains "bmk_sched_tls_alloc s = Inl Null_deref"
  | p h where "bmk_sched_tls_alloc s = Inr (p + TMEMSIZE s, s\<lparr>heap := h\<rparr>)" "sched_good I (p # E) P (s\<lparr>heap := h\<rparr>)"
      "{p + TMEMSIZE s..<p + TMEMSIZE s + 8} \<subseteq> user_region h p"
      "mh_who (hdr_at h p) = memwho_val BMK_MEMWHO_WIREDBMK"
proof -
  let ?L = "threadq s @ zombieq s @ E" and ?X = "stacks s + P" and ?n = "TMEMSIZE s + BMK_TLS_EXTRA"
  have ho: "heap_ok s E P" using g by (simp add: sched_good_def)
  have mh: "mem_holds (heap s) ?L ?X" using ho by (simp add: heap_ok_def)
  have n': "?n + max MINALIGN 0 < 2 ^ 63" using n by simp
  show thesis
  proof (rule memalloc_cases [OF mh _ _ n', of BMK_MEMWHO_WIREDBMK])
    assume "bmk_memalloc (heap s) ?n 0 BMK_MEMWHO_WIREDBMK = Inr (None, heap s)"
    then show thesis by (intro that(1)) (simp add: bmk_sched_tls_alloc_def)
  next
    fix p h1 assume al: "bmk_memalloc (heap s) ?n 0 BMK_MEMWHO_WIREDBMK = Inr (Some p, h1)"
      and h1: "mem_holds h1 (p # ?L) ?X" and rg: "{p..<p + ?n} \<subseteq> user_region h1 p"
      and wt: "mh_who (hdr_at h1 p) = memwho_val BMK_MEMWHO_WIREDBMK"
      and hd1: "\<And>r. r \<in> set ?L \<Longrightarrow> hdr_at h1 r = hdr_at (heap s) r"
    define m where "m = cells_set (cells_store (cells h1) p (tdata s)) (p + length (tdata s)) 0 (tbss_size s)"
    define h where "h = h1\<lparr>cells := m\<rparr>"
    have m: "m x = cells h1 x" if "x \<notin> user_region h1 p" for x
    proof -
      have "x \<notin> {p..<p + ?n}" using that rg by blast
      then have "x < p \<or> p + TMEMSIZE s \<le> x" by auto
      then show ?thesis using TMEMSIZE_ge [of s] by (auto simp: m_def cells_set_def cells_store_def)
    qed
    have hh: "mem_holds h (p # ?L) ?X" "\<And>r. r \<in> set (p # ?L) \<Longrightarrow> hdr_at h r = hdr_at h1 r"
      unfolding h_def using user_write [OF h1 list.set_intros(1) m] by simp_all
    have "mset (threadq s @ zombieq s @ p # E) = mset (p # ?L)" by simp
    then have "mem_holds h (threadq s @ zombieq s @ p # E) ?X" using hh(1) mem_holds_perm by blast
    then have "heap_ok (s\<lparr>heap := h\<rparr>) (p # E) P" by (rule heap_ok_heap [OF ho]) (use hh(2) hd1 in auto)
    then have good: "sched_good I (p # E) P (s\<lparr>heap := h\<rparr>)" by (rule sched_good_heap [OF g])
    have ur: "user_region h p = user_region h1 p" using hh(2) [of p] by (simp add: user_region_def own_def)
    show thesis
    proof (rule that(2) [OF _ good])
      show "bmk_sched_tls_alloc s = Inr (p + TMEMSIZE s, s\<lparr>heap := h\<rparr>)"
        using al by (simp add: bmk_sched_tls_alloc_def Let_def set_cells_def h_def m_def TMEMSIZE_def)
      show "{p + TMEMSIZE s..<p + TMEMSIZE s + 8} \<subseteq> user_region h p"
        unfolding ur using rg by (rule order_trans [rotated]) auto
      show "mh_who (hdr_at h p) = memwho_val BMK_MEMWHO_WIREDBMK" using hh(2) [of p] wt by simp
    qed
  qed simp_all
qed

lemma tls_free_good:
  assumes g: "sched_good I E P s" and p: "p \<in> set E" "sub64 q (TMEMSIZE s) = p"
    and w: "mh_who (hdr_at (heap s) p) = memwho_val BMK_MEMWHO_WIREDBMK"
  obtains h where "bmk_sched_tls_free s q = Inr (s\<lparr>heap := h\<rparr>)" "sched_good I (remove1 p E) P (s\<lparr>heap := h\<rparr>)"
proof -
  let ?L = "threadq s @ zombieq s @ remove1 p E" and ?X = "stacks s + P"
  have ho: "heap_ok s E P" using g by (simp add: sched_good_def)
  have "mset (threadq s @ zombieq s @ E) = mset (p # ?L)" using p(1) by simp
  then have mh: "mem_holds (heap s) (p # ?L) ?X" using ho mem_holds_perm unfolding heap_ok_def by blast
  obtain h where h: "bmk_memfree (heap s) (Some p) BMK_MEMWHO_WIREDBMK = Inr h" "mem_holds h (remove1 p (p # ?L)) ?X"
    "cells h = cells (heap s)"
    by (rule memfree_ok [OF mh _ w]) simp_all
  have hd: "hdr_at h r = hdr_at (heap s) r" for r using h(3) by (simp add: hdr_at_def)
  have "heap_ok (s\<lparr>heap := h\<rparr>) (remove1 p E) P" by (rule heap_ok_heap [OF ho]) (use h(2) hd in simp_all)
  then have "sched_good I (remove1 p E) P (s\<lparr>heap := h\<rparr>)" by (rule sched_good_heap [OF g])
  then show thesis using h(1) p(2) by (intro that) (simp_all add: bmk_sched_tls_free_def)
qed

end
