(* ===== verification/SchedExample.thy ===== *)
theory SchedExample
  imports SchedCreate MemallocIface
begin

text \<open>
  A running system for the examples: two threads and a TLS area allocated in the memory of
  \<^const>\<open>boot_state\<close>, the first thread running and the second one not started yet.
\<close>

section \<open>Small allocations while there are free pages\<close>

definition pages_left :: "mstate \<Rightarrow> nat \<Rightarrow> bool" where
  "pages_left h k \<longleftrightarrow> (\<exists>Q. finite Q \<and> card Q = k \<and> (\<forall>q \<in> Q. order2size 0 dvd q \<and> blk 0 q \<subseteq> free_set (mpg h)))"

lemma page_available:
  assumes "pg_inv pg" "order2size 0 dvd q" "blk 0 q \<subseteq> free_set pg"
  shows "bmk_pgalloc pg 0 \<noteq> Inr (None, pg)"
proof -
  have al: "(0::nat) < FREELIST_LEVELS" "PAGE_SIZE \<le> PAGE_SIZE" "PAGE_SIZE AND (PAGE_SIZE - 1) = 0" by simp_all
  have "\<not> no_chunk pg 0 PAGE_SIZE"
  proof
    assume n: "no_chunk pg 0 PAGE_SIZE"
    have "\<not> blk 0 q \<subseteq> free_set pg"
      by (rule no_chunk_no_block [OF assms(1) n, of _ 12]) (use assms(2) in \<open>simp_all add: order2size_def\<close>)
    then show False using assms(3) by simp
  qed
  then show ?thesis
    unfolding bmk_pgalloc_def by - (rule pgalloc_align_cases [OF assms(1) al], simp_all)
qed

lemma pages_left_take:
  assumes "pages_left h (Suc k)" "mpg h' = mpg h \<or> (\<exists>p. order2size 0 dvd p \<and> free_set (mpg h') = free_set (mpg h) - blk 0 p)"
  shows "pages_left h' k"
proof -
  obtain Q where Q: "finite Q" "card Q = Suc k" "\<forall>q \<in> Q. order2size 0 dvd q \<and> blk 0 q \<subseteq> free_set (mpg h)"
    using assms(1) by (auto simp: pages_left_def)
  from assms(2) show ?thesis
  proof
    assume "mpg h' = mpg h"
    moreover obtain q where "q \<in> Q" using Q(2) by (metis card_eq_SucD insertI1)
    ultimately show ?thesis using Q by (auto simp: pages_left_def intro!: exI [of _ "Q - {q}"])
  next
    assume "\<exists>p. order2size 0 dvd p \<and> free_set (mpg h') = free_set (mpg h) - blk 0 p"
    then obtain p where p: "order2size 0 dvd p" "free_set (mpg h') = free_set (mpg h) - blk 0 p" by blast
    have dis: "blk 0 q \<inter> blk 0 p = {}" if "q \<in> Q" "q \<noteq> p" for q
      using blk_nested [of 0 q 0 p] blk_same [of 0 p 0 q] blk_head [of q 0] that p(1) Q(3) by blast
    obtain R where R: "R \<subseteq> Q - {p}" "card R = k"
      using Q(1,2) by (metis card_Diff_singleton_if diff_Suc_1 le_SucI le_refl obtain_subset_with_card_n)
    have "finite R" using R(1) Q(1) by (meson finite_Diff finite_subset)
    moreover have "\<forall>q \<in> R. order2size 0 dvd q \<and> blk 0 q \<subseteq> free_set (mpg h')"
      using R(1) Q(3) dis p(2) by blast
    ultimately show ?thesis using R(2) by (auto simp: pages_left_def)
  qed
qed

lemma small_bucket:
  assumes "nbytes + 16 < 2 ^ 11"
  shows "bucket_of (alloc_bytes nbytes 16) < LOCALBUCKETS"
proof -
  have lt: "nbytes + 16 < 2 ^ 63" using assms by (rule less_trans) simp
  have "bucket_of (nbytes + 16) \<le> 6"
  proof (rule ccontr)
    assume n: "\<not> bucket_of (nbytes + 16) \<le> 6"
    then have "(2::nat) ^ 11 \<le> 2 ^ (bucket_of (nbytes + 16) + 4)" by (intro power_increasing) simp_all
    moreover have "2 ^ (bucket_of (nbytes + 16) + 4) < nbytes + 16"
      using n by (intro bucket_of_bounds(3) [OF lt]) simp
    ultimately show False using assms by linarith
  qed
  then show ?thesis using alloc_bytes_eq [of 16 nbytes] lt by simp
qed

lemma small_alloc:
  assumes inv: "mem_holds h L X" and n: "nbytes + 16 < 2 ^ 11" and p: "pages_left h (Suc k)"
  obtains rv h' where "bmk_memalloc h nbytes 0 who = Inr (Some rv, h')" "mem_holds h' (rv # L) X"
    "{rv..<rv + nbytes} \<subseteq> user_region h' rv" "mh_who (hdr_at h' rv) = memwho_val who"
    "\<forall>r \<in> set L. hdr_at h' r = hdr_at h r" "pages_left h' k"
proof -
  define b where "b = bucket_of (alloc_bytes nbytes 16)"
  have b: "b < LOCALBUCKETS" unfolding b_def using n by (rule small_bucket)
  have pi: "pg_inv (mpg h)" using inv by (simp add: mem_holds_def mem_hole_def)
  obtain q where q: "order2size 0 dvd q" "blk 0 q \<subseteq> free_set (mpg h)"
    using p unfolding pages_left_def by (metis card_eq_SucD insertI1)
  obtain pp pg where pg: "bmk_pgalloc (mpg h) 0 = Inr (Some pp, pg)" "order2size 0 dvd pp" "free_set pg = free_set (mpg h) - blk 0 pp"
    using pga.alloc_law [OF pi, of 0] page_available [OF pi q] by auto
  have "1 < PAGE_SIZE div 2 ^ (b + MINSHIFT)" using page_blocks [OF b] by simp
  then obtain a h1 where h1: "bucketalloc h b = Inr (Some a, h1)" "mpg h1 = mpg h \<or> mpg h1 = pg"
    using pg(1) by (cases "freebuckets h b") (simp_all add: bucketalloc_def morecore_def Let_def)
  have m: "\<exists>rv h'. bmk_memalloc h nbytes 0 who = Inr (Some rv, h') \<and> mpg h' = mpg h1"
    using b h1(1) by (simp add: bmk_memalloc_def b_def Let_def)
  have n': "nbytes + max MINALIGN 0 < 2 ^ 63" using n by simp
  show thesis
  proof (rule memalloc_cases [OF inv _ _ n', of who])
    assume "bmk_memalloc h nbytes 0 who = Inr (None, h)"
    then show thesis using m by simp
  next
    fix rv h' assume r: "bmk_memalloc h nbytes 0 who = Inr (Some rv, h')" "mem_holds h' (rv # L) X"
      "{rv..<rv + nbytes} \<subseteq> user_region h' rv" "mh_who (hdr_at h' rv) = memwho_val who"
      "\<And>r. r \<in> set L \<Longrightarrow> hdr_at h' r = hdr_at h r"
    have "mpg h' = mpg h1" using m r(1) by simp
    then have "pages_left h' k" using h1(2) pg(2,3) by (intro pages_left_take [OF p]) auto
    then show thesis using r by (intro that) simp_all
  qed simp_all
qed

section \<open>The example\<close>

fun mallocs :: "nat \<Rightarrow> mstate \<Rightarrow> nat list \<times> mstate" where
  "mallocs 0 h = ([], h)"
| "mallocs (Suc n) h = (let (L, h) = mallocs n h in
     case bmk_memalloc h THREAD_SIZE 0 BMK_MEMWHO_WIREDBMK of Inr (Some rv, h) \<Rightarrow> (rv # L, h) | _ \<Rightarrow> (L, h))"

lemma mallocs_ok:
  assumes "mem_holds h [] X" "pages_left h (n + k)"
  defines "L \<equiv> fst (mallocs n h)" and "h' \<equiv> snd (mallocs n h)"
  shows "mem_holds h' L X \<and> length L = n \<and> pages_left h' k \<and>
    (\<forall>r \<in> set L. mh_who (hdr_at h' r) = memwho_val BMK_MEMWHO_WIREDBMK \<and> {r..<r + THREAD_SIZE} \<subseteq> user_region h' r)"
  unfolding L_def h'_def using assms(1,2)
proof (induction n arbitrary: k)
  case (Suc n)
  obtain L h1 where m: "mallocs n h = (L, h1)" by fastforce
  from Suc.IH [of "Suc k"] Suc.prems have ih: "mem_holds h1 L X" "length L = n" "pages_left h1 (Suc k)"
    "\<forall>r \<in> set L. mh_who (hdr_at h1 r) = memwho_val BMK_MEMWHO_WIREDBMK \<and> {r..<r + THREAD_SIZE} \<subseteq> user_region h1 r"
    by (simp_all add: m)
  show ?case
  proof (rule small_alloc [OF ih(1) _ ih(3), of THREAD_SIZE BMK_MEMWHO_WIREDBMK])
    fix rv h2 assume r: "bmk_memalloc h1 THREAD_SIZE 0 BMK_MEMWHO_WIREDBMK = Inr (Some rv, h2)" "mem_holds h2 (rv # L) X"
      "{rv..<rv + THREAD_SIZE} \<subseteq> user_region h2 rv" "mh_who (hdr_at h2 rv) = memwho_val BMK_MEMWHO_WIREDBMK"
      "\<forall>r \<in> set L. hdr_at h2 r = hdr_at h1 r" "pages_left h2 k"
    have "user_region h2 r = user_region h1 r" if "r \<in> set L" for r using r(5) that by (simp add: user_region_def own_def)
    then show ?thesis using r ih by (simp add: m)
  qed simp
qed simp

lemma mem_boot_pages: "pages_left mem_boot 3"
proof -
  let ?Q = "{0x3000, 0x4000, 0x5000 :: nat}"
  have "mpg mem_boot = boot_state" by (simp add: mem_boot_def bmk_memalloc_init_def)
  then have "\<forall>q \<in> ?Q. order2size 0 dvd q \<and> blk 0 q \<subseteq> free_set (mpg mem_boot)"
    by (simp add: boot_state_inv order2size_def blk_def)
  then show ?thesis unfolding pages_left_def by (intro exI [of _ ?Q]) simp
qed

definition ex_heap :: mstate where "ex_heap = snd (mallocs 3 mem_boot)"
definition ex_main :: nat where "ex_main = fst (mallocs 3 mem_boot) ! 0"
definition ex_worker :: nat where "ex_worker = fst (mallocs 3 mem_boot) ! 1"
definition ex_tls :: nat where "ex_tls = fst (mallocs 3 mem_boot) ! 2"

lemma ex_heap_facts:
  "mem_inv ex_heap [ex_main, ex_worker, ex_tls]"
  "\<forall>r \<in> {ex_main, ex_worker, ex_tls}. mh_who (hdr_at ex_heap r) = memwho_val BMK_MEMWHO_WIREDBMK \<and>
     {r..<r + THREAD_SIZE} \<subseteq> user_region ex_heap r"
proof -
  define L where "L = fst (mallocs 3 mem_boot)"
  have m: "mem_inv ex_heap L \<and> length L = 3 \<and>
    (\<forall>r \<in> set L. mh_who (hdr_at ex_heap r) = memwho_val BMK_MEMWHO_WIREDBMK \<and>
       {r..<r + THREAD_SIZE} \<subseteq> user_region ex_heap r)"
    unfolding L_def ex_heap_def using mallocs_ok [OF mem_boot_inv, of 3 0] mem_boot_pages by simp
  then have "length L = Suc (Suc (Suc 0))" by simp
  then have "L = [ex_main, ex_worker, ex_tls]"
    by (auto simp: length_Suc_conv ex_main_def ex_worker_def ex_tls_def L_def [symmetric] numeral_2_eq_2)
  then show "mem_inv ex_heap [ex_main, ex_worker, ex_tls]"
    "\<forall>r \<in> {ex_main, ex_worker, ex_tls}. mh_who (hdr_at ex_heap r) = memwho_val BMK_MEMWHO_WIREDBMK \<and>
     {r..<r + THREAD_SIZE} \<subseteq> user_region ex_heap r"
    using m by auto
qed

lemma ex_distinct: "ex_main \<noteq> ex_worker" "ex_main \<noteq> ex_tls" "ex_worker \<noteq> ex_tls"
  using mem_holds_distinct [OF ex_heap_facts(1)] by auto

text \<open>The main thread runs on its own stack, as after \<^const>\<open>bmk_sched_startmain\<close>; the worker must be joined.\<close>

definition ex_sched :: sched where
  "ex_sched = \<lparr>heap = ex_heap,
     threads = (\<lambda>t. blank_thread\<lparr>bt_flags := if t = ex_main then THR_EXTSTACK OR THR_RUNNING
        else THR_EXTSTACK OR THR_MUSTJOIN OR THR_RUNQ, bt_wakeup_time := BLOCK_INFTIME\<rparr>),
     kcont = (\<lambda>_. K_start), threadq = [ex_main, ex_worker], zombieq = [], runq = [ex_worker], blockq = [],
     timeq = [], joinwq = [], bmk_current = ex_main, spl = False, scheduler_hook = False, hook_calls = [],
     idle_calls = [], block_result = 0, bmk_stackpageorder = 0, bmk_stacksize = 4096, tdata = [],
     tbss_size = 0, bmk_mainstackbase = 0, bmk_mainstacksize = 0\<rparr>"

lemma ex_sched_simps [simp]:
  "heap ex_sched = ex_heap" "kcont ex_sched = (\<lambda>_. K_start)" "threadq ex_sched = [ex_main, ex_worker]"
  "zombieq ex_sched = []" "runq ex_sched = [ex_worker]" "blockq ex_sched = []" "timeq ex_sched = []"
  "joinwq ex_sched = []" "bmk_current ex_sched = ex_main" "\<not> spl ex_sched" "bmk_stackpageorder ex_sched = 0"
  "bmk_stacksize ex_sched = 4096"
  "flags_of ex_sched t = (if t = ex_main then 0x108 else 0x121)" "wakeup_of ex_sched t = BLOCK_INFTIME"
  by (simp_all add: ex_sched_def flags_of_def wakeup_of_def)

lemma ex_good: "sched_good {} [ex_tls] {#} ex_sched"
proof -
  have q: "queues_ok ex_sched"
    using ex_distinct by (auto simp: queues_ok_def thr_ok_def)
  have k: "kont_ok ex_sched ex_worker" using ex_distinct by (simp add: kont_ok_def)
  have "joins_ok ex_sched {ex_worker}" by (rule joins_okI) simp_all
  then have "sched_user ex_sched"
    using q k ex_distinct by (simp add: sched_user_def sched_inv_def)
  moreover have "heap_ok ex_sched [ex_tls] {#}"
    using ex_heap_facts by (simp add: heap_ok_def stacks_def own_stack_def)
  ultimately show ?thesis by (simp add: sched_good_def irq_ok_def)
qed

end
