(* ===== verification/SchedIface.thy ===== *)
theory SchedIface
  imports SchedExample
begin

text \<open>
  The statements about the scheduler: its operations never fail, whatever the threads do in
  which order; what the queues look like in between; that exits and joins do not miss each
  other; the order of timeouts; that runnable threads get to run.
\<close>

section \<open>Round robin\<close>

lemma wake_queues:
  "bmk_sched_wake k t = Inr k' \<Longrightarrow> set (runq k) \<subseteq> set (runq k') \<and> threadq k' = threadq k \<and> bmk_current k' = bmk_current k"
  by (auto simp: bmk_sched_wake_def set_runnable_def setflags_def Let_def split: if_splits)

lemma pick_head:
  assumes inv: "sched_inv s (set (threadq s))" and q: "runq s = n # q"
  obtains s' where "sched_pick ((now, ints) # rs) s = Inr (n, s', rs)" "sched_inv s' (set (threadq s'))"
    "same_but_queues s s'" "runq s' = n # q @ expired s now"
proof -
  from expire_ok [OF inv order_refl, of now "now + BLOCKTIME_MAX"] obtain s' where
    e: "expire_timeouts (length (timeq s)) now (now + BLOCKTIME_MAX) s = Inr (next_wake s now (now + BLOCKTIME_MAX), s')"
    and inv': "sched_inv s' (set (threadq s))" and same: "same_but_queues s s'" and rq: "runq s' = runq s @ expired s now"
    by blast
  have tq: "threadq s' = threadq s" using same by (simp add: same_but_queues_def)
  have "n \<in> set (threadq s')" using inv' queues_okD(5) [of s'] q rq tq by (auto simp: sched_inv_def)
  then have "thr_ok s' n" using inv' queues_okD(9) [of s' n] by (simp add: sched_inv_def)
  then have "bit (flags_of s' n) 0" "\<not> bit (flags_of s' n) 9" using rq q by (auto simp: thr_ok_def)
  then have "sched_pick ((now, ints) # rs) s = Inr (n, s', rs)" using e rq q by simp
  then show thesis using inv' same rq q by (intro that) (simp_all add: tq)
qed

lemma yield_next:
  assumes g: "sched_good I E P s" and b: "\<not> prepared_to_block s" and r: "rounds_ok ((now, ints) # rs) I"
    and q: "runq s = n # q" and k: "kcont s n \<in> {K_start, K_block, K_yield}"
  obtains s' where "bmk_sched_yield ((now, ints) # rs) s = Inr (s', rs)" "sched_good I E P s'"
    "\<not> prepared_to_block s'" "bmk_current s' = n" "runq s' = q @ bmk_current s # expired s now"
    "kcont s' = (kcont s)(bmk_current s := K_yield)"
proof -
  define c where "c = bmk_current s"
  define s1 where "s1 = setflags (s\<lparr>runq := runq s @ [c]\<rparr>) c THR_RUNQ THR_RUNNING"
  define s2 where "s2 = s1\<lparr>kcont := (kcont s1)(bmk_current s1 := K_yield)\<rparr>\<lparr>spl := True\<rparr>"
  have u: "sched_user s" using g by (simp add: sched_good_def)
  have ms: "may_schedule I E P K_yield s1" and y: "\<And>rs. bmk_sched_yield rs s = schedule rs K_yield s1"
    using yield_may_schedule [OF g b] by (simp_all add: s1_def c_def)
  have i2: "sched_inv s2 (set (threadq s2))" "heap_ok s2 E P" "\<not> spl s1"
    using ms unfolding may_schedule_def s2_def sched_inv_spl heap_ok_kcont by simp_all
  have rq2: "runq s2 = n # q @ [c]" by (simp add: s2_def s1_def q)
  have "wakeup_of s2 = wakeup_of s" by (simp add: fun_eq_iff wakeup_of_def s2_def s1_def setflags_def)
  then have ex: "expired s2 now = expired s now" by (simp add: expired_def s2_def s1_def)
  obtain s3 where s3: "sched_pick ((now, ints) # rs) s2 = Inr (n, s3, rs)" "sched_inv s3 (set (threadq s3))"
    "same_but_queues s2 s3" "runq s3 = n # (q @ [c]) @ expired s now"
    by (rule pick_head [OF i2(1) rq2, of now ints rs, unfolded ex])
  have h3: "heap_ok s3 E P" by (rule heap_ok_same [OF i2(2) same_threads_queues [OF s3(3)]])
  have n3: "n \<in> set (runq s3)" by (simp add: s3(4))
  have q3: "queues_ok s3" using s3(2) by (simp add: sched_inv_def)
  obtain s4 where s4: "sched_commit s3 n = Inr s4" "kcont s4 = kcont s3" "bmk_current s4 = n"
      "runq s4 = remove1 n (runq s3)"
    by (rule commit_ok [OF q3 n3]) (rule that)
  from switch_in [OF s3(2) h3 n3] obtain h' where h': "reaper (zombieq s4) s4 = Inr (s4\<lparr>zombieq := [], heap := h'\<rparr>)"
    using s4(1) by (metis sum.inject(2))
  have kc: "kcont s4 = (kcont s)(c := K_yield)" using s3(3) s4(2) by (simp add: same_but_queues_def s2_def s1_def c_def)
  have kn: "kcont s4 n \<in> {K_start, K_block, K_yield}" using k by (simp add: kc)
  define s' where "s' = (if kcont s4 n = K_start then s4 else if kcont s4 n = K_yield
    then s4\<lparr>zombieq := [], heap := h'\<rparr> else block_tail (s4\<lparr>zombieq := [], heap := h'\<rparr>))"
  have "schedule ((now, ints) # rs) K_yield s1 = Inr (s', rs)"
    using i2(3) s3(1) s4(1) h' kn
    by (subst schedule.simps) (auto simp: s2_def [symmetric] Let_def s'_def)
  then have r1: "bmk_sched_yield ((now, ints) # rs) s = Inr (s', rs)" by (simp add: y)
  moreover have "sched_good I E P s' \<and> \<not> prepared_to_block s'"
    using yield_good [OF g b r] by (simp add: r1 returns_good_def)
  moreover have "bmk_current s' = n" "runq s' = q @ c # expired s now" "kcont s' = (kcont s)(c := K_yield)"
    using s4(3,4) s3(4) kc by (simp_all add: s'_def block_tail_def Let_def)
  ultimately show thesis using that unfolding c_def by blast
qed

fun yields :: "bmk_time list \<Rightarrow> sched \<Rightarrow> sched res" where
  "yields [] s = Inr s"
| "yields (now # nows) s = bindR (bmk_sched_yield [(now, [])] s) (\<lambda>(s, _). yields nows s)"

lemma yields_round_robin:
  assumes "sched_good I E P s" "\<not> prepared_to_block s" "length nows = Suc i" "i < length (runq s)"
    "\<forall>j \<le> i. kcont s (runq s ! j) \<in> {K_start, K_block, K_yield}"
  shows "\<exists>s'. yields nows s = Inr s' \<and> sched_good I E P s' \<and> bmk_current s' = runq s ! i"
  using assms
proof (induction nows arbitrary: i s)
  case (Cons now nows)
  obtain n q where q: "runq s = n # q" using Cons.prems(4) by (cases "runq s") simp_all
  have k: "kcont s n \<in> {K_start, K_block, K_yield}" using Cons.prems(5) by (auto simp: q dest: spec [of _ 0])
  have r: "rounds_ok [(now, [])] I" by (simp add: rounds_ok_def)
  obtain s1 where s1: "bmk_sched_yield [(now, [])] s = Inr (s1, [])" "sched_good I E P s1" "\<not> prepared_to_block s1"
    "bmk_current s1 = n" "runq s1 = q @ bmk_current s # expired s now" "kcont s1 = (kcont s)(bmk_current s := K_yield)"
    by (rule yield_next [OF Cons.prems(1,2) r q k])
  show ?case
  proof (cases i)
    case 0
    then show ?thesis using Cons.prems(3) s1 by (simp add: q)
  next
    case (Suc j)
    have nth: "runq s1 ! l = runq s ! Suc l" if "l \<le> j" for l
      using that Cons.prems(4) by (simp add: s1(5) q Suc nth_append)
    have "\<exists>s'. yields nows s1 = Inr s' \<and> sched_good I E P s' \<and> bmk_current s' = runq s1 ! j"
    proof (rule Cons.IH [OF s1(2,3)])
      show "\<forall>l \<le> j. kcont s1 (runq s1 ! l) \<in> {K_start, K_block, K_yield}"
        using Cons.prems(5) by (auto simp: s1(6) nth Suc)
    qed (use Cons.prems(3,4) in \<open>simp_all add: Suc s1(5) q\<close>)
    then show ?thesis using s1(1) nth [of j] by (simp add: Suc)
  qed
qed simp

section \<open>Runs\<close>

text \<open>
  One call by the running thread, with the allocations \<open>E\<close> of everybody else, TLS areas
  included. The threads in \<open>I\<close> are those interrupt handlers wake. A thread prepares before it
  blocks and does nothing but wake others in between; a thread is joined at most once.
\<close>

abbreviation create_args_ok :: "sched \<Rightarrow> mem \<Rightarrow> bool" where
  "create_args_ok s name \<equiv> bmk_stackpageorder s < FREELIST_LEVELS \<and> bmk_stacksize s = 2 ^ (bmk_stackpageorder s + 12) \<and>
     TMEMSIZE s + 64 < 2 ^ 63 \<and> is_ok (name_field name)"

abbreviation join_args_ok :: "sched \<Rightarrow> nat \<Rightarrow> bool" where
  "join_args_ok s j \<equiv> j \<in> set (threadq s) \<and> j \<noteq> bmk_current s \<and> bit (flags_of s j) 5 \<and> j \<notin> snd ` set (joinwq s)"

abbreviation own_tls :: "sched \<Rightarrow> nat \<Rightarrow> nat list \<Rightarrow> bool" where
  "own_tls s p E \<equiv> p \<in> set E \<and> sub64 (bmk_sched_gettcb s) (TMEMSIZE s) = p \<and>
     mh_who (hdr_at (heap s) p) = memwho_val BMK_MEMWHO_WIREDBMK"

inductive sched_step :: "nat set \<Rightarrow> sched \<times> nat list \<Rightarrow> sched \<times> nat list \<Rightarrow> bool" for I where
  prepare: "\<not> prepared_to_block s \<Longrightarrow> bmk_sched_blockprepare_timeout s d = Inr s' \<Longrightarrow> sched_step I (s, E) (s', E)"
| wake: "t \<in> set (threadq s) \<Longrightarrow> bmk_sched_wake s t = Inr s' \<Longrightarrow> sched_step I (s, E) (s', E)"
| block: "prepared_to_block s \<Longrightarrow> rounds_ok rs I \<Longrightarrow> bmk_sched_block rs s = Inr (s', rs') \<Longrightarrow> sched_step I (s, E) (s', E)"
| yield: "\<not> prepared_to_block s \<Longrightarrow> rounds_ok rs I \<Longrightarrow> bmk_sched_yield rs s = Inr (s', rs') \<Longrightarrow> sched_step I (s, E) (s', E)"
| join: "\<not> prepared_to_block s \<Longrightarrow> rounds_ok rs I \<Longrightarrow> join_args_ok s j \<Longrightarrow> bmk_sched_join rs j s = Inr (s', rs') \<Longrightarrow>
    sched_step I (s, E) (s', E)"
| exit: "\<not> prepared_to_block s \<Longrightarrow> rounds_ok rs I \<Longrightarrow> bmk_current s \<notin> I \<Longrightarrow> own_tls s p E \<Longrightarrow>
    bmk_sched_exit rs s = Inr (s', rs') \<Longrightarrow> sched_step I (s, E) (s', remove1 p E)"
| create: "create_args_ok s name \<Longrightarrow> bmk_sched_create b s name cookie j f a None 0 = Inr (t, s') \<Longrightarrow>
    bmk_sched_tls_alloc s = Inr (tls, s1) \<Longrightarrow> sched_step I (s, E) (s', (tls - TMEMSIZE s) # E)"

lemma exit_tls_good:
  assumes g: "sched_good I E P s" and b: "\<not> prepared_to_block s" and r: "rounds_ok rs I" and c: "bmk_current s \<notin> I"
    and t: "own_tls s p E"
  shows "returns_good I (remove1 p E) P (bmk_sched_exit rs s)"
proof -
  obtain h where h: "bmk_sched_tls_free s (bmk_sched_gettcb s) = Inr (s\<lparr>heap := h\<rparr>)"
    "sched_good I (remove1 p E) P (s\<lparr>heap := h\<rparr>)"
    by (rule tls_free_good [OF g, of p "bmk_sched_gettcb s"]) (use t in simp_all)
  have "returns_good I (remove1 p E) P (bmk_sched_exit_withtls rs (s\<lparr>heap := h\<rparr>))"
    by (rule exit_good [OF h(2) _ r]) (use b c in simp_all)
  then show ?thesis using h(1) by (simp add: bmk_sched_exit_def)
qed

lemma create_tls_good:
  fixes b cookie f a :: nat and j :: bool
  assumes g: "sched_good I E P s" and ok: "create_args_ok s name"
  defines "r \<equiv> bmk_sched_create b s name cookie j f a None 0"
  shows "case r of Inl e \<Rightarrow> e = Halt ''xmalloc failed'' \<or> e = Null_deref
     | Inr (t, s') \<Rightarrow> (\<exists>p s1. bmk_sched_tls_alloc s = Inr (p + TMEMSIZE s, s1) \<and> sched_good I (p # E) P s' \<and>
         t \<notin> set (threadq s @ zombieq s) \<union> set E \<and>
         threadq s' = threadq s @ [t] \<and> runq s' = runq s @ [t] \<and> kcont s' t = K_start \<and>
         bmk_current s' = bmk_current s \<and> (prepared_to_block s' \<longleftrightarrow> prepared_to_block s))"
proof -
  have n: "TMEMSIZE s + 64 < 2 ^ 63" using ok by simp
  show ?thesis
  proof (rule tls_alloc_good [OF g n])
    assume "bmk_sched_tls_alloc s = Inl Null_deref"
    then show ?thesis by (simp add: r_def bmk_sched_create_def)
  next
    fix p h assume t: "bmk_sched_tls_alloc s = Inr (p + TMEMSIZE s, s\<lparr>heap := h\<rparr>)"
      and gd: "sched_good I (p # E) P (s\<lparr>heap := h\<rparr>)"
      and rg: "{p + TMEMSIZE s..<p + TMEMSIZE s + 8} \<subseteq> user_region h p"
    obtain nm where nm: "name_field name = Inr nm" using ok by (auto simp: is_ok_iff)
    have "created I (p # E) P (s\<lparr>heap := h\<rparr>) (bmk_sched_create_withtls b (s\<lparr>heap := h\<rparr>) name cookie j f a None 0 (p + TMEMSIZE s))"
      by (rule create_good [OF gd _ _ nm]) (use ok rg in simp_all)
    then show ?thesis using t unfolding r_def bmk_sched_create_def created_def
      by (auto split: sum.splits)
  qed
qed

lemma sched_step_good:
  assumes "sched_step I (s, E) (s', E')" "sched_good I E P s"
  shows "sched_good I E' P s'"
  using assms(1)
proof cases
  case (prepare d)
  then show ?thesis using prepare_good [OF assms(2), of d] by auto
next
  case (wake t)
  then show ?thesis using wake_good [OF assms(2), of t] by auto
next
  case (block rs rs')
  then show ?thesis using block_good [OF assms(2), of rs] by (simp add: returns_good_def)
next
  case (yield rs rs')
  then show ?thesis using yield_good [OF assms(2), of rs] by (simp add: returns_good_def)
next
  case (join rs j rs')
  then show ?thesis using join_good [OF assms(2), of rs j] by (simp add: returns_good_def)
next
  case (exit rs p rs')
  then show ?thesis using exit_tls_good [OF assms(2), of rs p] by (simp add: returns_good_def)
next
  case (create name b cookie j f a t tls s1)
  then show ?thesis using create_tls_good [OF assms(2) create(2), of b cookie j f a] by auto
qed

lemma sched_steps_good:
  assumes "(sched_step I)\<^sup>*\<^sup>* x y" "sched_good I (snd x) P (fst x)"
  shows "sched_good I (snd y) P (fst y)"
  using assms
proof (induction rule: rtranclp_induct)
  case (step y z)
  then show ?case using sched_step_good [of I "fst y" "snd y" "fst z" "snd z" P] by simp
qed simp





lemma count_list_distinct: "distinct xs \<Longrightarrow> count_list xs t = (if t \<in> set xs then 1 else 0)"
  by (induction xs) auto

lemma count_list_append': "count_list (xs @ ys) t = count_list xs t + count_list ys t"
  by (induction xs) auto

text \<open>
  C11. In every state a run reaches, while no thread is inside the scheduler: each live thread
  other than the running one is on exactly one of the three queues and exactly once, the
  queues hold live threads only, the timeout queue is ordered by deadline, the running thread
  is marked as running, and the structures of any two threads, zombies included, are disjoint
  memory.
\<close>

theorem sched_run_queues:
  assumes "sched_good I E0 P s0" "(sched_step I)\<^sup>*\<^sup>* (s0, E0) (s, E)"
  shows "(\<forall>t \<in> set (threadq s). t \<noteq> bmk_current s \<longrightarrow> count_list (runq s @ timeq s @ blockq s) t = 1) \<and>
    set (runq s @ timeq s @ blockq s) \<subseteq> set (threadq s) \<and>
    sorted_wrt (\<lambda>t u. wakeup_of s t \<le> wakeup_of s u) (timeq s) \<and>
    bmk_current s \<in> set (threadq s) \<and> flags_of s (bmk_current s) AND THR_RUNNING \<noteq> 0 \<and>
    (\<forall>t \<in> set (threadq s @ zombieq s). \<forall>u \<in> set (threadq s @ zombieq s). t \<noteq> u \<longrightarrow>
       user_region (heap s) t \<inter> user_region (heap s) u = {})"
proof -
  have g: "sched_good I E P s" using sched_steps_good [OF assms(2)] assms(1) by simp
  then have u: "sched_user s" and h: "mem_holds (heap s) (threadq s @ zombieq s @ E) (stacks s + P)"
    by (simp_all add: sched_good_def heap_ok_def)
  have qk: "queues_ok s" using sched_userD(6) [OF u] .
  note q = queues_okD [OF qk]
  have "count_list (runq s @ timeq s @ blockq s) t = 1" if "t \<in> set (threadq s)" "t \<noteq> bmk_current s" for t
  proof -
    have "(if t \<in> set (runq s) then 1 else 0) + ((if t \<in> set (timeq s) then 1 else 0) + (if t \<in> set (blockq s) then 1 else 0)) = (1::nat)"
      using q(9) [OF that(1)] that(2) unfolding thr_ok_def by auto
    then show ?thesis using q(2-4) by (simp only: count_list_append' count_list_distinct)
  qed
  moreover have "user_region (heap s) t \<inter> user_region (heap s) r = {}"
    if "t \<in> set (threadq s @ zombieq s)" "r \<in> set (threadq s @ zombieq s)" "t \<noteq> r" for t r
  proof -
    have m: "t \<in> set (threadq s @ zombieq s @ E)" "r \<in> set (threadq s @ zombieq s @ E)" using that by auto
    note live = mem_hole_live(5) [OF h [unfolded mem_holds_def]]
    show ?thesis using live_disjoint_regions [OF h m that(3) [symmetric]] live [OF m(1)] live [OF m(2)] by blast
  qed
  ultimately show ?thesis using q(5-8) sched_userD(3,4) [OF u] by simp
qed

theorem sched_run_queues_witness:
  "sched_good {} [ex_tls] {#} ex_sched \<and> count_list (runq ex_sched @ timeq ex_sched @ blockq ex_sched) ex_worker = 1 \<and>
   user_region ex_heap ex_main \<inter> user_region ex_heap ex_worker = {}"
  using sched_run_queues [OF ex_good rtranclp.rtrancl_refl] ex_good ex_distinct by auto

text \<open>
  C4. Exit and join do not miss each other. In every state a run reaches: a thread that waits
  in \<open>bmk_sched_join\<close> is registered as the waiter of a live joinable thread, and as soon as
  that thread has announced its exit the waiter is on the run queue; and a thread that waits
  for its joiner in \<open>bmk_sched_exit\<close> has announced its exit, and is on the run queue as soon
  as it has been joined.
\<close>

theorem sched_run_joins:
  assumes "sched_good I E0 P s0" "(sched_step I)\<^sup>*\<^sup>* (s0, E0) (s, E)"
  shows "(\<forall>t \<in> set (threadq s). \<forall>j. t \<noteq> bmk_current s \<and> kcont s t = K_join j \<longrightarrow>
      (t, j) \<in> set (joinwq s) \<and> j \<in> set (threadq s) \<and> j \<noteq> t \<and> flags_of s j AND THR_MUSTJOIN \<noteq> 0 \<and>
      (flags_of s j AND THR_JOINED \<noteq> 0 \<longrightarrow> t \<in> set (runq s))) \<and>
    (\<forall>t \<in> set (threadq s). t \<noteq> bmk_current s \<and> kcont s t = K_exitgate \<longrightarrow>
      flags_of s t AND THR_JOINED \<noteq> 0 \<and> (flags_of s t AND THR_MUSTJOIN = 0 \<longrightarrow> t \<in> set (runq s)))"
proof -
  have g: "sched_good I E P s" using sched_steps_good [OF assms(2)] assms(1) by simp
  then have u: "sched_user s" by (simp add: sched_good_def)
  have j: "joins_ok s (set (threadq s) - {bmk_current s})" using sched_userD(7) [OF u] .
  show ?thesis
  proof (intro conjI ballI allI impI)
    fix t k assume t: "t \<in> set (threadq s)" "t \<noteq> bmk_current s \<and> kcont s t = K_join k"
    then show e: "(t, k) \<in> set (joinwq s)" using joins_okD(4) [OF j, of t k] by simp
    from joins_okD(3) [OF j e] show "k \<in> set (threadq s)" "k \<noteq> t" "flags_of s k AND THR_MUSTJOIN \<noteq> 0"
      "flags_of s k AND THR_JOINED \<noteq> 0 \<Longrightarrow> t \<in> set (runq s)" by simp_all
  next
    fix t assume t: "t \<in> set (threadq s)" "t \<noteq> bmk_current s \<and> kcont s t = K_exitgate"
    with joins_okD(5) [OF j, of t] show "flags_of s t AND THR_JOINED \<noteq> 0"
      "flags_of s t AND THR_MUSTJOIN = 0 \<Longrightarrow> t \<in> set (runq s)" by auto
  qed
qed

text \<open>The main thread of the example waits for the worker, which starts.\<close>

lemma hook_fields [simp]:
  "scheduler_hook (setflags s t x y) = scheduler_hook s" "scheduler_hook (set_wakeup s t d) = scheduler_hook s"
  "\<not> scheduler_hook ex_sched"
  by (simp_all add: setflags_def set_wakeup_def ex_sched_def)

lemma ex_join:
  "\<exists>s'. bmk_sched_join [(0, [])] ex_worker ex_sched = Inr (s', []) \<and> kcont s' ex_main = K_join ex_worker \<and>
     bmk_current s' = ex_worker \<and> threadq s' = [ex_main, ex_worker]"
  using ex_distinct(1) ex_distinct(1) [symmetric] unfolding bmk_sched_join_def join_path_def bmk_sched_blockprepare_def
    bmk_sched_blockprepare_timeout_def clear_runnable_def block_check_def
  by (subst schedule.simps) (simp add: sched_commit_def sched_switch_def expire_timeouts.simps Let_def)

theorem sched_run_joins_witness:
  "\<exists>s'. sched_step {} (ex_sched, [ex_tls]) (s', [ex_tls]) \<and> bmk_current s' = ex_worker \<and>
     (ex_main, ex_worker) \<in> set (joinwq s') \<and> flags_of s' ex_worker AND THR_MUSTJOIN \<noteq> 0"
proof -
  obtain s' where s': "bmk_sched_join [(0, [])] ex_worker ex_sched = Inr (s', [])" "kcont s' ex_main = K_join ex_worker"
    "bmk_current s' = ex_worker" "threadq s' = [ex_main, ex_worker]" using ex_join by blast
  have st: "sched_step {} (ex_sched, [ex_tls]) (s', [ex_tls])"
    by (rule sched_step.join [OF _ _ _ s'(1)]) (use ex_distinct in \<open>simp_all add: rounds_ok_def\<close>)
  have "(sched_step {})\<^sup>*\<^sup>* (ex_sched, [ex_tls]) (s', [ex_tls])" using st by (rule r_into_rtranclp)
  note run = sched_run_joins [OF ex_good this, THEN conjunct1, rule_format, of ex_main ex_worker]
  have "(ex_main, ex_worker) \<in> set (joinwq s')" "flags_of s' ex_worker AND THR_MUSTJOIN \<noteq> 0"
    using run s'(2-4) ex_distinct by simp_all
  then show ?thesis using st s'(3) by blast
qed

section \<open>Timeouts\<close>

lemma sorted_filter_takeWhile:
  assumes "sorted_wrt (\<lambda>t u. (w t :: bmk_time) \<le> w u) xs"
  shows "takeWhile (\<lambda>t. w t \<le> now) xs = filter (\<lambda>t. w t \<le> now) xs"
    "dropWhile (\<lambda>t. w t \<le> now) xs = filter (\<lambda>t. now < w t) xs"
  using assms by (induction xs) (auto simp: filter_empty_conv not_le not_less intro!: filter_True [symmetric] filter_False filter_False [symmetric])

text \<open>
  C21. The expiry loop at the top of \<open>schedule\<close> ends and fails in no assertion. It moves exactly
  the threads whose deadline has passed to the end of the run queue, in the order of their
  deadlines, marks them as timed out, and leaves all others waiting. The time to sleep until
  is the earliest remaining deadline, but at most one second away.
\<close>

theorem expire_timeouts_correct:
  assumes "sched_inv s (set (threadq s))"
  shows "\<exists>s'. expire_timeouts (length (timeq s)) now (now + BLOCKTIME_MAX) s =
      Inr (Min (insert (now + BLOCKTIME_MAX) (wakeup_of s ` {t \<in> set (timeq s). now < wakeup_of s t})), s') \<and>
    runq s' = runq s @ filter (\<lambda>t. wakeup_of s t \<le> now) (timeq s) \<and>
    timeq s' = filter (\<lambda>t. now < wakeup_of s t) (timeq s) \<and> blockq s' = blockq s \<and>
    (\<forall>t. flags_of s' t AND THR_TIMEDOUT \<noteq> 0 \<longleftrightarrow>
       flags_of s t AND THR_TIMEDOUT \<noteq> 0 \<or> t \<in> set (timeq s) \<and> wakeup_of s t \<le> now) \<and>
    sched_inv s' (set (threadq s))"
proof -
  have q: "queues_ok s" using assms by (simp add: sched_inv_def)
  note so = queues_okD(8) [OF q] and e = sorted_filter_takeWhile [OF queues_okD(8) [OF q], of now]
  have nw: "next_wake s now w = Min (insert w (wakeup_of s ` {t \<in> set (timeq s). now < wakeup_of s t}))" for w
  proof (cases "pending s now")
    case Nil
    then have "{t \<in> set (timeq s). now < wakeup_of s t} = {}"
      unfolding pending_def e by (auto simp: filter_empty_conv)
    then show ?thesis by (simp only: next_wake_def Nil) simp
  next
    case (Cons t ts)
    have p: "set (pending s now) = {t \<in> set (timeq s). now < wakeup_of s t}" unfolding pending_def e by auto
    have "sorted_wrt (\<lambda>t u. wakeup_of s t \<le> wakeup_of s u) (pending s now)"
      unfolding pending_def e using so by (simp add: sorted_wrt_filter)
    then have "Min (wakeup_of s ` set (pending s now)) = wakeup_of s t"
      unfolding Cons by (intro Min_eqI) auto
    moreover have "wakeup_of s ` set (pending s now) \<noteq> {}" by (simp add: Cons)
    ultimately show ?thesis unfolding p [symmetric] by (simp add: next_wake_def Cons min_def del: list.set)
  qed
  obtain s' where "expire_timeouts (length (timeq s)) now (now + BLOCKTIME_MAX) s = Inr (next_wake s now (now + BLOCKTIME_MAX), s')"
    "sched_inv s' (set (threadq s))" "runq s' = runq s @ expired s now" "timeq s' = pending s now" "blockq s' = blockq s"
    "\<forall>u. u \<notin> set (expired s now) \<longrightarrow> flags_of s' u = flags_of s u" "\<forall>u \<in> set (expired s now). bit (flags_of s' u) 4"
    using expire_ok [OF assms order_refl, of now "now + BLOCKTIME_MAX"] by blast
  moreover have "set (expired s now) = {t \<in> set (timeq s). wakeup_of s t \<le> now}" unfolding expired_def e by auto
  ultimately show ?thesis unfolding nw expired_def pending_def e by (intro exI [of _ s']) auto
qed

text \<open>The main thread of the example sleeps until 5; at 7 it is woken.\<close>

definition ex_sleep :: sched where
  "ex_sleep = (prepared ex_sched 5)\<lparr>kcont := (\<lambda>_. K_start)(ex_main := K_block)\<rparr>"

lemma ex_sleep_inv: "sched_inv ex_sleep (set (threadq ex_sleep))"
proof -
  have u: "sched_user ex_sched" using ex_good by (simp add: sched_good_def)
  have "sched_user (prepared ex_sched 5)" "bit (flags_of (prepared ex_sched 5) ex_main) 10"
    using prepared_user [OF u, of 5] by simp_all
  then show ?thesis using enter_block [of "prepared ex_sched 5"] by (simp add: ex_sleep_def)
qed

theorem expire_timeouts_correct_witness:
  "\<exists>s'. expire_timeouts 1 7 1000000007 ex_sleep = Inr (1000000007, s') \<and> runq s' = [ex_worker, ex_main] \<and>
     timeq s' = [] \<and> flags_of s' ex_main AND THR_TIMEDOUT \<noteq> 0"
proof -
  have t: "timeq ex_sleep = [ex_main]" "wakeup_of ex_sleep ex_main = 5" "runq ex_sleep = [ex_worker]"
    by (simp_all add: ex_sleep_def prepared_def Let_def deadline_insert_def)
  have none: "{u \<in> set [ex_main]. 7 < wakeup_of ex_sleep u} = {}" using t(2) by auto
  obtain s' where "expire_timeouts 1 7 1000000007 ex_sleep = Inr (1000000007, s')" "runq s' = [ex_worker, ex_main]"
    "timeq s' = []" "flags_of s' ex_main AND THR_TIMEDOUT \<noteq> 0"
    using expire_timeouts_correct [OF ex_sleep_inv, of 7] unfolding t none by (auto simp: t)
  then show ?thesis by blast
qed

section \<open>Liveness\<close>

text \<open>
  C22. Round robin: when the threads at the first positions of the run queue are not in the
  middle of an exit or a join, and every thread that gets the processor yields it, the thread
  at position \<open>i\<close> of the run queue has it after \<open>i + 1\<close> yields, however many timeouts expire
  meanwhile.
\<close>

theorem yield_round_robin:
  assumes "sched_good I E P s" "\<not> prepared_to_block s" "length nows = Suc i" "i < length (runq s)"
    "\<forall>j \<le> i. kcont s (runq s ! j) \<in> {K_start, K_block, K_yield}"
  shows "\<exists>s'. yields nows s = Inr s' \<and> bmk_current s' = runq s ! i"
  using yields_round_robin [OF assms] by blast

theorem yield_round_robin_witness:
  "\<exists>s'. yields [3] ex_sched = Inr s' \<and> bmk_current s' = ex_worker"
  using yield_round_robin [OF ex_good, of "[3]" 0] by simp

text \<open>
  C23. The loop of \<open>schedule\<close> does not idle forever, and finds a thread that is live and
  runnable, when it is given a round for every clock reading and: the run queue is not empty,
  or one of the readings reaches the earliest deadline, or an interrupt handler wakes a thread
  before the last round.
\<close>

theorem sched_pick_finds:
  assumes "sched_inv s (set (threadq s))" "rounds_ok rs (set (threadq s))" "rs \<noteq> []"
    and "runq s \<noteq> [] \<or> (timeq s \<noteq> [] \<and> (\<exists>r \<in> set rs. wakeup_of s (hd (timeq s)) \<le> fst r)) \<or>
      (\<exists>r \<in> set (butlast rs). snd r \<noteq> [])"
  shows "\<exists>t s' rs'. sched_pick rs s = Inr (t, s', rs') \<and> t \<in> set (threadq s) \<and> t = hd (runq s') \<and>
    flags_of s' t AND THR_RUNQ \<noteq> 0"
proof -
  have "sched_pick rs s \<noteq> Inl Out_of_fuel"
    by (rule sched_pick_lives [OF assms(1,2)]) (use assms(3,4) in \<open>auto simp: will_run_def\<close>)
  with sched_pick_ok [OF assms(1,2)] obtain t s' rs' where p: "sched_pick rs s = Inr (t, s', rs')"
    "sched_inv s' (set (threadq s))" "same_but_queues s s'" "runq s' \<noteq> []" "t = hd (runq s')" by blast
  have q: "queues_ok s'" using p(2) by (simp add: sched_inv_def)
  have t: "t \<in> set (runq s')" using p(4,5) by simp
  then have "t \<in> set (threadq s')" using queues_okD(5) [OF q] by blast
  moreover then have "flags_of s' t AND THR_RUNQ \<noteq> 0" using queues_okD(9) [OF q] t by (auto simp: thr_ok_def)
  moreover have "threadq s' = threadq s" using p(3) by (simp add: same_but_queues_def)
  ultimately show ?thesis using p(1,5) by auto
qed

theorem sched_pick_finds_witness:
  "\<exists>t s' rs'. sched_pick [(2, []), (7, [])] ex_sleep = Inr (t, s', rs') \<and> t \<in> {ex_main, ex_worker}"
proof -
  have "runq ex_sleep = [ex_worker]" "threadq ex_sleep = [ex_main, ex_worker]" by (simp_all add: ex_sleep_def)
  then show ?thesis using sched_pick_finds [OF ex_sleep_inv, of "[(2, []), (7, [])]"] by (auto simp: rounds_ok_def)
qed

section \<open>Creation\<close>

text \<open>
  C24. \<open>bmk_sched_create\<close> with a stack of its own: when the structure cannot be allocated the
  system halts, and when the TLS area or the stack cannot, a null pointer is written through.
  Otherwise the structure is memory that belonged to nobody, the thread is the last of the
  thread list and of the run queue, it will start at its entry point, the caller goes on
  running, and everything the scheduler relies on still holds, with the TLS area as one more
  allocation.
\<close>

theorem bmk_sched_create_correct:
  assumes "sched_good I E P s" "create_args_ok s name"
  shows "case bmk_sched_create b s name cookie joinable f a None 0 of
      Inl e \<Rightarrow> e = Halt ''xmalloc failed'' \<or> e = Null_deref
    | Inr (t, s') \<Rightarrow> \<exists>p. sched_good I (p # E) P s' \<and> t \<notin> set (threadq s @ zombieq s) \<union> set E \<and>
        threadq s' = threadq s @ [t] \<and> runq s' = runq s @ [t] \<and> kcont s' t = K_start \<and>
        bmk_current s' = bmk_current s"
  using create_tls_good [OF assms, of b cookie joinable f a] by (auto split: sum.splits)

theorem bmk_sched_create_correct_witness:
  "create_args_ok ex_sched (bytes ''w'' @ [0]) \<and>
   (case bmk_sched_create 0 ex_sched (bytes ''w'' @ [0]) 0 False 16 17 None 0 of
      Inl e \<Rightarrow> e = Halt ''xmalloc failed'' \<or> e = Null_deref
    | Inr (t, s') \<Rightarrow> threadq s' = [ex_main, ex_worker, t] \<and> runq s' = [ex_worker, t])"
proof -
  have "TMEMSIZE ex_sched = 0" by (simp add: TMEMSIZE_def ex_sched_def)
  moreover have "is_ok (name_field (bytes ''w'' @ [0]))" by code_simp
  ultimately have a: "create_args_ok ex_sched (bytes ''w'' @ [0])" by simp
  show ?thesis
    using bmk_sched_create_correct [OF ex_good a, of 0 0 False 16 17] a by (auto split: sum.splits)
qed

end
