(* ===== verification/Synch.thy ===== *)
theory Synch
  imports Sched
begin

text \<open>
  The synchronisation hypercalls, \<open>lib/libbmk_rumpuser/rumpuser_synch.c\<close>: wait queues, mutexes,
  reader-writer locks, condition variables and the current lwp, on top of the scheduler.
  A hypercall is cut into the stretches of code between the points where other threads can
  run: \<open>bmk_sched_block\<close> and the calls back into the rump kernel, which releases and takes its
  virtual CPU there. What a thread still has to do after such a point, in C its stack frame,
  is a value of type \<open>wkont\<close>, and a thread has a stack of them, because the rump kernel makes
  hypercalls of its own when it is called back. The rump kernel is not part of this repository: its two entry
  points appear as entries of a log, and the lock count that one of them reports is an
  argument of the next stretch. A waiter lives on the stack of the waiting thread, so that it
  is identified by the thread.
\<close>

section \<open>State\<close>

abbreviation BMK_EBUSY :: int where "BMK_EBUSY \<equiv> 16"
abbreviation BMK_EINVAL :: int where "BMK_EINVAL \<equiv> 22"

datatype rumprwlock = RUMPUSER_RW_READER | RUMPUSER_RW_WRITER | RW_other
datatype rumplwpop = RUMPUSER_LWP_CREATE | RUMPUSER_LWP_DESTROY | RUMPUSER_LWP_SET | RUMPUSER_LWP_CLEAR | LWP_other

record rumpuser_mtx =
  m_v :: int
  m_flags :: int
  m_o :: "nat option"
  m_bmk_o :: "nat option"

record rumpuser_rw =
  r_v :: int
  r_o :: "nat option"

record rumpuser_cv =
  c_nwaiters :: int

text \<open>The addresses of the wait queues: one in a mutex and a condition variable, two in a lock.\<close>

datatype waithead = Mtx_waiters nat | Rw_rwait nat | Rw_wwait nat | Cv_waiters nat

text \<open>
  What is left to do: after \<open>rumpkern_unsched\<close>, after \<open>bmk_sched_block\<close>, and after
  \<open>rumpkern_sched\<close> in \<open>cv_resched\<close>.
\<close>

datatype wkont =
    W_mutex_unsched nat
  | W_mutex nat int
  | W_rw_unsched rumprwlock nat
  | W_rw rumprwlock nat int
  | W_cv_unsched nat nat bmk_time
  | W_cv nat nat "int option"
  | W_cv_back nat "nat option" int

datatype kcall = Unsched "nat option" | Resched int "nat option"

record synch =
  sc :: sched
  waitq :: "waithead \<Rightarrow> nat list"
  onlist :: "nat \<Rightarrow> bool"
  mtxs :: "nat \<Rightarrow> rumpuser_mtx"
  rws :: "nat \<Rightarrow> rumpuser_rw"
  cvs :: "nat \<Rightarrow> rumpuser_cv"
  current_lwp :: "nat \<Rightarrow> nat option"
  wcont :: "nat \<Rightarrow> wkont list"
  kcalls :: "kcall list"

text \<open>How a stretch ends: the hypercall returns, the thread blocks, or the rump kernel is called.\<close>

datatype seg = Returns int | Blocks | Calls

abbreviation me :: "synch \<Rightarrow> nat" where
  "me s \<equiv> bmk_current (sc s)"

definition goes_on :: "synch \<Rightarrow> wkont \<Rightarrow> synch" where
  "goes_on s k = s\<lparr>wcont := (wcont s)(me s := k # wcont s (me s))\<rparr>"

definition call_kernel :: "synch \<Rightarrow> kcall \<Rightarrow> synch" where
  "call_kernel s c = s\<lparr>kcalls := c # kcalls s\<rparr>"

section \<open>Wait queues\<close>

text \<open>\<open>wait\<close> up to the call of \<open>bmk_sched_block\<close>, with the reading of the clock, and after it.\<close>

definition wait_start :: "waithead \<Rightarrow> bmk_time \<Rightarrow> bmk_time \<Rightarrow> synch \<Rightarrow> synch res" where
  "wait_start wh wakeup now s =
     bindR (if wakeup \<noteq> BLOCK_INFTIME then chk64 (wakeup + now) else Inr wakeup) (\<lambda>wakeup.
     let s = s\<lparr>onlist := (onlist s)(me s := True), waitq := (waitq s)(wh := waitq s wh @ [me s])\<rparr>
     in bindR (bmk_sched_blockprepare_timeout (sc s) wakeup) (\<lambda>k. Inr (s\<lparr>sc := k\<rparr>)))"

definition wait_finish :: "waithead \<Rightarrow> synch \<Rightarrow> int \<times> synch" where
  "wait_finish wh s =
     (if onlist s (me s)
      then (BMK_ETIMEDOUT, s\<lparr>waitq := (waitq s)(wh := remove1 (me s) (waitq s wh))\<rparr>)
      else (0, s))"

definition wakeup_one :: "waithead \<Rightarrow> synch \<Rightarrow> synch res" where
  "wakeup_one wh s =
     (case waitq s wh of
        [] \<Rightarrow> Inr s
      | w # ws \<Rightarrow>
          bindR (bmk_sched_wake (sc s) w) (\<lambda>k.
            Inr (s\<lparr>waitq := (waitq s)(wh := ws), onlist := (onlist s)(w := False), sc := k\<rparr>)))"

function wakeup_all :: "waithead \<Rightarrow> synch \<Rightarrow> synch res" where
  "wakeup_all wh s =
     (case waitq s wh of
        [] \<Rightarrow> Inr s
      | w # ws \<Rightarrow>
          bindR (bmk_sched_wake (sc s) w) (\<lambda>k.
            wakeup_all wh (s\<lparr>waitq := (waitq s)(wh := ws), onlist := (onlist s)(w := False), sc := k\<rparr>)))"
  by pat_completeness auto
termination
  by (relation "measure (\<lambda>(wh, s). length (waitq s wh))") auto

declare wakeup_all.simps [simp del]

section \<open>Threads\<close>

text \<open>\<open>current_lwp\<close> is thread-local and starts as null in a new thread.\<close>

definition rumpuser_thread_create ::
  "nat \<Rightarrow> nat \<Rightarrow> nat \<Rightarrow> mem \<Rightarrow> bool \<Rightarrow> synch \<Rightarrow> (int \<times> nat \<times> synch) res" where
  "rumpuser_thread_create bouncer f arg thrname joinable s =
     bindR (bmk_sched_create bouncer (sc s) thrname 0 joinable f arg None 0) (\<lambda>(thr, k).
       Inr (0, thr, s\<lparr>sc := k, current_lwp := (current_lwp s)(thr := None)\<rparr>))"

definition rumpuser_thread_exit :: "rounds \<Rightarrow> synch \<Rightarrow> (synch \<times> rounds) res" where
  "rumpuser_thread_exit rs s =
     bindR (bmk_sched_exit rs (sc s)) (\<lambda>(k, rs). Inr (s\<lparr>sc := k\<rparr>, rs))"

definition rumpuser_thread_join :: "rounds \<Rightarrow> nat \<Rightarrow> synch \<Rightarrow> (synch \<times> rounds) res" where
  "rumpuser_thread_join rs p s =
     bindR (bmk_sched_join rs p (sc s)) (\<lambda>(k, rs). Inr (s\<lparr>sc := k\<rparr>, rs))"

text \<open>\<open>bmk_sched_block\<close> at the end of a stretch that blocks.\<close>

definition synch_block :: "rounds \<Rightarrow> synch \<Rightarrow> (synch \<times> rounds) res" where
  "synch_block rs s = bindR (bmk_sched_block rs (sc s)) (\<lambda>(k, rs). Inr (s\<lparr>sc := k\<rparr>, rs))"

definition rumpuser_curlwp :: "synch \<Rightarrow> nat option" where
  "rumpuser_curlwp s = current_lwp s (me s)"

definition rumpuser_curlwpop :: "rumplwpop \<Rightarrow> nat option \<Rightarrow> synch \<Rightarrow> synch res" where
  "rumpuser_curlwpop lwpop l s =
     (case lwpop of
        RUMPUSER_LWP_SET \<Rightarrow>
          guardR (current_lwp s (me s) = None) Assert_failed
            (Inr (s\<lparr>current_lwp := (current_lwp s)(me s := l)\<rparr>))
      | RUMPUSER_LWP_CLEAR \<Rightarrow>
          guardR (current_lwp s (me s) = l) Assert_failed
            (Inr (s\<lparr>current_lwp := (current_lwp s)(me s := None)\<rparr>))
      | _ \<Rightarrow> Inr s)"

section \<open>Mutexes\<close>

text \<open>The result of \<open>bmk_memcalloc\<close> is not tested for null in the three initialisers.\<close>

definition lock_alloc :: "nat \<Rightarrow> synch \<Rightarrow> (nat \<times> synch) res" where
  "lock_alloc sz s =
     bindR (bmk_memcalloc (heap (sc s)) 1 sz BMK_MEMWHO_WIREDBMK) (\<lambda>(p, h). case p of
         None \<Rightarrow> Inl Null_deref
       | Some p \<Rightarrow> Inr (p, s\<lparr>sc := (sc s)\<lparr>heap := h\<rparr>\<rparr>))"

definition lock_free :: "nat \<Rightarrow> synch \<Rightarrow> synch res" where
  "lock_free p s =
     bindR (bmk_memfree (heap (sc s)) (Some p) BMK_MEMWHO_WIREDBMK) (\<lambda>h.
       Inr (s\<lparr>sc := (sc s)\<lparr>heap := h\<rparr>\<rparr>))"

definition rumpuser_mutex_init :: "int \<Rightarrow> synch \<Rightarrow> (nat \<times> synch) res" where
  "rumpuser_mutex_init flags s =
     bindR (lock_alloc 40 s) (\<lambda>(m, s).
       Inr (m, s\<lparr>mtxs := (mtxs s)(m := \<lparr>m_v = 0, m_flags = flags, m_o = None, m_bmk_o = None\<rparr>),
                 waitq := (waitq s)(Mtx_waiters m := [])\<rparr>))"

definition rumpuser_mutex_tryenter :: "nat \<Rightarrow> synch \<Rightarrow> (int \<times> synch) res" where
  "rumpuser_mutex_tryenter m s =
     (if m_bmk_o (mtxs s m) = Some (me s) then Inl (Halt ''rumpuser mutex: locking against myself'')
      else if m_v (mtxs s m) \<noteq> 0 then Inr (BMK_EBUSY, s)
      else Inr (0, s\<lparr>mtxs := (mtxs s)(m := (mtxs s m)
             \<lparr>m_v := 1, m_o := rumpuser_curlwp s, m_bmk_o := Some (me s)\<rparr>)\<rparr>))"

text \<open>The loop of \<open>rumpuser_mutex_enter\<close> from its test to the next block, or to its end.\<close>

definition mutex_enter_loop :: "nat \<Rightarrow> int \<Rightarrow> synch \<Rightarrow> (seg \<times> synch) res" where
  "mutex_enter_loop m nlocks s =
     bindR (rumpuser_mutex_tryenter m s) (\<lambda>(rv, s).
       if rv \<noteq> 0 then
         bindR (wait_start (Mtx_waiters m) BLOCK_INFTIME 0 s) (\<lambda>s. Inr (Blocks, goes_on s (W_mutex m nlocks)))
       else Inr (Returns 0, call_kernel s (Resched nlocks None)))"

definition rumpuser_mutex_enter :: "nat \<Rightarrow> synch \<Rightarrow> (seg \<times> synch) res" where
  "rumpuser_mutex_enter m s =
     bindR (rumpuser_mutex_tryenter m s) (\<lambda>(rv, s).
       if rv \<noteq> 0 then Inr (Calls, goes_on (call_kernel s (Unsched None)) (W_mutex_unsched m))
       else Inr (Returns 0, s))"

definition rumpuser_mutex_enter_nowrap :: "nat \<Rightarrow> synch \<Rightarrow> synch res" where
  "rumpuser_mutex_enter_nowrap m s =
     bindR (rumpuser_mutex_tryenter m s) (\<lambda>(rv, s).
       if rv \<noteq> 0 then Inl (Halt ''rumpuser mutex error'') else Inr s)"

definition rumpuser_mutex_exit :: "nat \<Rightarrow> synch \<Rightarrow> synch res" where
  "rumpuser_mutex_exit m s =
     guardR (m_v (mtxs s m) = 1) Assert_failed
       (wakeup_one (Mtx_waiters m)
          (s\<lparr>mtxs := (mtxs s)(m := (mtxs s m)\<lparr>m_v := 0, m_o := None, m_bmk_o := None\<rparr>)\<rparr>))"

definition rumpuser_mutex_destroy :: "nat \<Rightarrow> synch \<Rightarrow> synch res" where
  "rumpuser_mutex_destroy m s =
     guardR (waitq s (Mtx_waiters m) = [] \<and> m_o (mtxs s m) = None) Assert_failed (lock_free m s)"

definition rumpuser_mutex_owner :: "nat \<Rightarrow> synch \<Rightarrow> nat option" where
  "rumpuser_mutex_owner m s = m_o (mtxs s m)"

section \<open>Reader-writer locks\<close>

definition rumpuser_rw_init :: "synch \<Rightarrow> (nat \<times> synch) res" where
  "rumpuser_rw_init s =
     bindR (lock_alloc 48 s) (\<lambda>(r, s).
       Inr (r, s\<lparr>rws := (rws s)(r := \<lparr>r_v = 0, r_o = None\<rparr>),
                 waitq := (waitq s)(Rw_rwait r := [], Rw_wwait r := [])\<rparr>))"

definition rumpuser_rw_tryenter :: "rumprwlock \<Rightarrow> nat \<Rightarrow> synch \<Rightarrow> (int \<times> synch) res" where
  "rumpuser_rw_tryenter lk r s =
     (case lk of
        RUMPUSER_RW_WRITER \<Rightarrow>
          if r_o (rws s r) = None
          then Inr (0, s\<lparr>rws := (rws s)(r := (rws s r)\<lparr>r_o := rumpuser_curlwp s\<rparr>)\<rparr>)
          else Inr (BMK_EBUSY, s)
      | RUMPUSER_RW_READER \<Rightarrow>
          if r_o (rws s r) = None \<and> waitq s (Rw_wwait r) = []
          then bindR (chk32 (r_v (rws s r) + 1)) (\<lambda>v. Inr (0, s\<lparr>rws := (rws s)(r := (rws s r)\<lparr>r_v := v\<rparr>)\<rparr>))
          else Inr (BMK_EBUSY, s)
      | RW_other \<Rightarrow> Inr (- 1, s))"

definition rw_waithead :: "rumprwlock \<Rightarrow> nat \<Rightarrow> waithead option" where
  "rw_waithead lk r =
     (case lk of
        RUMPUSER_RW_WRITER \<Rightarrow> Some (Rw_wwait r)
      | RUMPUSER_RW_READER \<Rightarrow> Some (Rw_rwait r)
      | RW_other \<Rightarrow> None)"

definition rw_enter_loop :: "rumprwlock \<Rightarrow> nat \<Rightarrow> int \<Rightarrow> synch \<Rightarrow> (seg \<times> synch) res" where
  "rw_enter_loop lk r nlocks s =
     bindR (rumpuser_rw_tryenter lk r s) (\<lambda>(rv, s).
       if rv \<noteq> 0 then
         (case rw_waithead lk r of
            None \<Rightarrow> Inl Null_deref
          | Some w \<Rightarrow>
              bindR (wait_start w BLOCK_INFTIME 0 s) (\<lambda>s. Inr (Blocks, goes_on s (W_rw lk r nlocks))))
       else Inr (Returns 0, call_kernel s (Resched nlocks None)))"

definition rumpuser_rw_enter :: "rumprwlock \<Rightarrow> nat \<Rightarrow> synch \<Rightarrow> (seg \<times> synch) res" where
  "rumpuser_rw_enter lk r s =
     bindR (rumpuser_rw_tryenter lk r s) (\<lambda>(rv, s).
       if rv \<noteq> 0 then Inr (Calls, goes_on (call_kernel s (Unsched None)) (W_rw_unsched lk r))
       else Inr (Returns 0, s))"

definition rumpuser_rw_exit :: "nat \<Rightarrow> synch \<Rightarrow> synch res" where
  "rumpuser_rw_exit r s =
     bindR (if r_o (rws s r) \<noteq> None then Inr ((rws s r)\<lparr>r_o := None\<rparr>)
            else bindR (chk32 (r_v (rws s r) - 1)) (\<lambda>v. Inr ((rws s r)\<lparr>r_v := v\<rparr>))) (\<lambda>rw.
     let s = s\<lparr>rws := (rws s)(r := rw)\<rparr> in
     if waitq s (Rw_wwait r) \<noteq> [] then
       (if r_o rw = None then wakeup_one (Rw_wwait r) s else Inr s)
     else if waitq s (Rw_rwait r) \<noteq> [] \<and> r_o rw = None then wakeup_all (Rw_rwait r) s
     else Inr s)"

definition rumpuser_rw_destroy :: "nat \<Rightarrow> synch \<Rightarrow> synch res" where
  "rumpuser_rw_destroy r s = lock_free r s"

definition rumpuser_rw_held :: "rumprwlock \<Rightarrow> nat \<Rightarrow> synch \<Rightarrow> bool option" where
  "rumpuser_rw_held lk r s =
     (case lk of
        RUMPUSER_RW_WRITER \<Rightarrow> Some (r_o (rws s r) = rumpuser_curlwp s)
      | RUMPUSER_RW_READER \<Rightarrow> Some (r_v (rws s r) > 0)
      | RW_other \<Rightarrow> None)"

definition rumpuser_rw_downgrade :: "nat \<Rightarrow> synch \<Rightarrow> synch res" where
  "rumpuser_rw_downgrade r s =
     guardR (r_o (rws s r) = rumpuser_curlwp s) Assert_failed
       (Inr (s\<lparr>rws := (rws s)(r := (rws s r)\<lparr>r_v := - 1\<rparr>)\<rparr>))"

definition rumpuser_rw_tryupgrade :: "nat \<Rightarrow> synch \<Rightarrow> int \<times> synch" where
  "rumpuser_rw_tryupgrade r s =
     (if r_v (rws s r) = - 1
      then (0, s\<lparr>rws := (rws s)(r := \<lparr>r_v = 1, r_o = rumpuser_curlwp s\<rparr>)\<rparr>)
      else (BMK_EBUSY, s))"

section \<open>Condition variables\<close>

definition rumpuser_cv_init :: "synch \<Rightarrow> (nat \<times> synch) res" where
  "rumpuser_cv_init s =
     bindR (lock_alloc 24 s) (\<lambda>(c, s).
       Inr (c, s\<lparr>cvs := (cvs s)(c := \<lparr>c_nwaiters = 0\<rparr>), waitq := (waitq s)(Cv_waiters c := [])\<rparr>))"

definition rumpuser_cv_destroy :: "nat \<Rightarrow> synch \<Rightarrow> synch res" where
  "rumpuser_cv_destroy c s = guardR (c_nwaiters (cvs s c) = 0) Assert_failed (lock_free c s)"

definition cv_count :: "nat \<Rightarrow> int \<Rightarrow> synch \<Rightarrow> synch res" where
  "cv_count c d s =
     bindR (chk32 (c_nwaiters (cvs s c) + d)) (\<lambda>n.
       Inr (s\<lparr>cvs := (cvs s)(c := (cvs s c)\<lparr>c_nwaiters := n\<rparr>)\<rparr>))"

text \<open>
  \<open>rumpuser_cv_wait\<close> and \<open>rumpuser_cv_timedwait\<close> up to the call in \<open>cv_unsched\<close>; the second half
  of \<open>cv_unsched\<close> up to the block; and \<open>rumpuser_cv_wait_nowrap\<close> up to the block.
\<close>

definition rumpuser_cv_wait :: "nat \<Rightarrow> nat \<Rightarrow> synch \<Rightarrow> (seg \<times> synch) res" where
  "rumpuser_cv_wait c m s =
     bindR (cv_count c 1 s) (\<lambda>s.
       Inr (Calls, goes_on (call_kernel s (Unsched (Some m))) (W_cv_unsched c m BLOCK_INFTIME)))"

definition timedwait_ns :: "int \<Rightarrow> int \<Rightarrow> int res" where
  "timedwait_ns sec nsec =
     bindR (chk64 (sec * 1000)) (\<lambda>x. bindR (chk64 (x * 1000)) (\<lambda>x. Inr (to_s64 (x * 1000 + nsec))))"

definition rumpuser_cv_timedwait :: "nat \<Rightarrow> nat \<Rightarrow> int \<Rightarrow> int \<Rightarrow> synch \<Rightarrow> (seg \<times> synch) res" where
  "rumpuser_cv_timedwait c m sec nsec s =
     bindR (cv_count c 1 s) (\<lambda>s.
     bindR (timedwait_ns sec nsec) (\<lambda>w.
       Inr (Calls, goes_on (call_kernel s (Unsched (Some m))) (W_cv_unsched c m w))))"

definition cv_unsched_wait :: "nat \<Rightarrow> nat \<Rightarrow> bmk_time \<Rightarrow> bmk_time \<Rightarrow> int \<Rightarrow> synch \<Rightarrow> (seg \<times> synch) res" where
  "cv_unsched_wait c m wakeup now nlocks s =
     bindR (rumpuser_mutex_exit m s) (\<lambda>s.
     bindR (wait_start (Cv_waiters c) wakeup now s) (\<lambda>s.
       Inr (Blocks, goes_on s (W_cv c m (Some nlocks)))))"

definition rumpuser_cv_wait_nowrap :: "nat \<Rightarrow> nat \<Rightarrow> synch \<Rightarrow> (seg \<times> synch) res" where
  "rumpuser_cv_wait_nowrap c m s =
     bindR (cv_count c 1 s) (\<lambda>s.
     bindR (rumpuser_mutex_exit m s) (\<lambda>s.
     bindR (wait_start (Cv_waiters c) BLOCK_INFTIME 0 s) (\<lambda>s.
       Inr (Blocks, goes_on s (W_cv c m None)))))"

text \<open>
  After the block: \<open>cv_resched\<close> up to \<open>rumpkern_sched\<close>, or the rest of the variant without it.
  The mask of \<open>RUMPUSER_MTX_KMUTEX\<close> and \<open>RUMPUSER_MTX_SPIN\<close> is a constant of the rump kernel.
\<close>

definition cv_resched :: "int \<Rightarrow> nat \<Rightarrow> nat \<Rightarrow> int \<Rightarrow> int \<Rightarrow> synch \<Rightarrow> (seg \<times> synch) res" where
  "cv_resched kspin c m nlocks rv s =
     (if m_flags (mtxs s m) AND kspin = kspin
      then Inr (Calls, goes_on (call_kernel s (Resched nlocks (Some m))) (W_cv_back c (Some m) rv))
      else
        bindR (rumpuser_mutex_enter_nowrap m s) (\<lambda>s.
          Inr (Calls, goes_on (call_kernel s (Resched nlocks (Some m))) (W_cv_back c None rv))))"

definition cv_resume :: "int \<Rightarrow> nat \<Rightarrow> nat \<Rightarrow> int option \<Rightarrow> synch \<Rightarrow> (seg \<times> synch) res" where
  "cv_resume kspin c m nlocks s =
     (let (rv, s) = wait_finish (Cv_waiters c) s in
      case nlocks of
        Some nlocks \<Rightarrow> cv_resched kspin c m nlocks rv s
      | None \<Rightarrow>
          bindR (rumpuser_mutex_enter_nowrap m s) (\<lambda>s.
          bindR (cv_count c (- 1) s) (\<lambda>s. Inr (Returns 0, s))))"

definition cv_back :: "nat \<Rightarrow> nat option \<Rightarrow> int \<Rightarrow> synch \<Rightarrow> (seg \<times> synch) res" where
  "cv_back c m rv s =
     bindR (case m of None \<Rightarrow> Inr s | Some m \<Rightarrow> rumpuser_mutex_enter_nowrap m s) (\<lambda>s.
     bindR (cv_count c (- 1) s) (\<lambda>s. Inr (Returns rv, s)))"

definition rumpuser_cv_signal :: "nat \<Rightarrow> synch \<Rightarrow> synch res" where
  "rumpuser_cv_signal c s = wakeup_one (Cv_waiters c) s"

definition rumpuser_cv_broadcast :: "nat \<Rightarrow> synch \<Rightarrow> synch res" where
  "rumpuser_cv_broadcast c s = wakeup_all (Cv_waiters c) s"

definition rumpuser_cv_has_waiters :: "nat \<Rightarrow> synch \<Rightarrow> bool" where
  "rumpuser_cv_has_waiters c s \<longleftrightarrow> c_nwaiters (cvs s c) \<noteq> 0"

section \<open>Going on\<close>

text \<open>
  The next stretch of the current thread, by what it has left to do. \<open>nlocks\<close> is what the rump
  kernel has reported and \<open>now\<close> the clock.
\<close>

definition resume_at :: "int \<Rightarrow> int \<Rightarrow> bmk_time \<Rightarrow> wkont \<Rightarrow> synch \<Rightarrow> (seg \<times> synch) res" where
  "resume_at kspin nlocks now k s =
     (case k of
        W_mutex_unsched m \<Rightarrow> mutex_enter_loop m nlocks s
      | W_mutex m n \<Rightarrow> mutex_enter_loop m n (snd (wait_finish (Mtx_waiters m) s))
      | W_rw_unsched lk r \<Rightarrow> rw_enter_loop lk r nlocks s
      | W_rw lk r n \<Rightarrow>
          (case rw_waithead lk r of
             None \<Rightarrow> Inl Null_deref
           | Some w \<Rightarrow> rw_enter_loop lk r n (snd (wait_finish w s)))
      | W_cv_unsched c m wakeup \<Rightarrow> cv_unsched_wait c m wakeup now nlocks s
      | W_cv c m n \<Rightarrow> cv_resume kspin c m n s
      | W_cv_back c m rv \<Rightarrow> cv_back c m rv s)"

definition resume :: "int \<Rightarrow> int \<Rightarrow> bmk_time \<Rightarrow> synch \<Rightarrow> (seg \<times> synch) res" where
  "resume kspin nlocks now s =
     (case wcont s (me s) of
        [] \<Rightarrow> Inr (Returns 0, s)
      | k # ks \<Rightarrow> resume_at kspin nlocks now k (s\<lparr>wcont := (wcont s)(me s := ks)\<rparr>))"

text \<open>The hypercalls a running thread can make, and what each of them does up to its first switch.\<close>

datatype hcall =
    H_thread_create nat nat nat mem bool | H_curlwpop rumplwpop "nat option"
  | H_mutex_init int | H_mutex_enter nat | H_mutex_enter_nowrap nat | H_mutex_tryenter nat
  | H_mutex_exit nat | H_mutex_destroy nat
  | H_rw_init | H_rw_enter rumprwlock nat | H_rw_tryenter rumprwlock nat | H_rw_exit nat
  | H_rw_downgrade nat | H_rw_tryupgrade nat | H_rw_destroy nat
  | H_cv_init | H_cv_wait nat nat | H_cv_wait_nowrap nat nat | H_cv_timedwait nat nat int int
  | H_cv_signal nat | H_cv_broadcast nat | H_cv_destroy nat

abbreviation returnsR :: "int \<Rightarrow> synch res \<Rightarrow> (seg \<times> synch) res" where
  "returnsR rv r \<equiv> bindR r (\<lambda>s. Inr (Returns rv, s))"

abbreviation returns_with :: "('a \<Rightarrow> int) \<Rightarrow> ('a \<times> synch) res \<Rightarrow> (seg \<times> synch) res" where
  "returns_with f r \<equiv> bindR r (\<lambda>(x, s). Inr (Returns (f x), s))"

fun hypercall :: "hcall \<Rightarrow> synch \<Rightarrow> (seg \<times> synch) res" where
  "hypercall (H_thread_create bouncer f arg name j) s =
     bindR (rumpuser_thread_create bouncer f arg name j s) (\<lambda>(rv, _, s). Inr (Returns rv, s))"
| "hypercall (H_curlwpop lwpop l) s = returnsR 0 (rumpuser_curlwpop lwpop l s)"
| "hypercall (H_mutex_init flags) s = returns_with int (rumpuser_mutex_init flags s)"
| "hypercall (H_mutex_enter m) s = rumpuser_mutex_enter m s"
| "hypercall (H_mutex_enter_nowrap m) s = returnsR 0 (rumpuser_mutex_enter_nowrap m s)"
| "hypercall (H_mutex_tryenter m) s = returns_with id (rumpuser_mutex_tryenter m s)"
| "hypercall (H_mutex_exit m) s = returnsR 0 (rumpuser_mutex_exit m s)"
| "hypercall (H_mutex_destroy m) s = returnsR 0 (rumpuser_mutex_destroy m s)"
| "hypercall H_rw_init s = returns_with int (rumpuser_rw_init s)"
| "hypercall (H_rw_enter lk r) s = rumpuser_rw_enter lk r s"
| "hypercall (H_rw_tryenter lk r) s = returns_with id (rumpuser_rw_tryenter lk r s)"
| "hypercall (H_rw_exit r) s = returnsR 0 (rumpuser_rw_exit r s)"
| "hypercall (H_rw_downgrade r) s = returnsR 0 (rumpuser_rw_downgrade r s)"
| "hypercall (H_rw_tryupgrade r) s = returns_with id (Inr (rumpuser_rw_tryupgrade r s))"
| "hypercall (H_rw_destroy r) s = returnsR 0 (rumpuser_rw_destroy r s)"
| "hypercall H_cv_init s = returns_with int (rumpuser_cv_init s)"
| "hypercall (H_cv_wait c m) s = rumpuser_cv_wait c m s"
| "hypercall (H_cv_wait_nowrap c m) s = rumpuser_cv_wait_nowrap c m s"
| "hypercall (H_cv_timedwait c m sec nsec) s = rumpuser_cv_timedwait c m sec nsec s"
| "hypercall (H_cv_signal c) s = returnsR 0 (rumpuser_cv_signal c s)"
| "hypercall (H_cv_broadcast c) s = returnsR 0 (rumpuser_cv_broadcast c s)"
| "hypercall (H_cv_destroy c) s = returnsR 0 (rumpuser_cv_destroy c s)"

end
