(* ===== verification/SynchCorrect.thy ===== *)
theory SynchCorrect
  imports Synch SchedIface
begin

text \<open>
  What holds of the synchronisation hypercalls under every interleaving of their stretches:
  the wait queues hold exactly the threads that wait, the counter of a condition variable is
  the number of threads inside a wait on it, a free mutex with waiters always has a woken
  thread that has yet to retry.
\<close>

section \<open>Frames\<close>

lemma wake_current: "bmk_sched_wake k t = Inr k' \<Longrightarrow> bmk_current k' = bmk_current k"
  by (auto simp: bmk_sched_wake_def set_runnable_def setflags_def Let_def split: if_splits)

lemma timeq_insert_current: "timeq_sorted_insert k t = Inr k' \<Longrightarrow> bmk_current k' = bmk_current k"
  by (auto simp: timeq_sorted_insert_def split: if_splits option.splits)

lemma blockprepare_current: "bmk_sched_blockprepare_timeout k d = Inr k' \<Longrightarrow> bmk_current k' = bmk_current k"
  by (auto simp: bmk_sched_blockprepare_timeout_def clear_runnable_def Let_def setflags_def bindR_eq_Inr
      dest!: timeq_insert_current split: if_splits)

lemma heap_current [simp]: "bmk_current (k\<lparr>heap := h\<rparr>) = bmk_current k" by simp

text \<open>What a stretch that blocks or wakes leaves alone.\<close>

definition same_locks :: "synch \<Rightarrow> synch \<Rightarrow> bool" where
  "same_locks s s' \<longleftrightarrow> me s' = me s \<and> mtxs s' = mtxs s \<and> rws s' = rws s \<and> cvs s' = cvs s \<and>
     wcont s' = wcont s \<and> current_lwp s' = current_lwp s"

lemma wait_start_eq:
  assumes "wait_start wh wakeup now s = Inr s'"
  shows "same_locks s s'" "onlist s' = (onlist s)(me s := True)"
    "waitq s' = (waitq s)(wh := waitq s wh @ [me s])"
  using assms blockprepare_current by (auto simp: wait_start_def bindR_eq_Inr Let_def same_locks_def)

lemma wakeup_one_eq:
  assumes "wakeup_one wh s = Inr s'"
  shows "same_locks s s' \<and> waitq s' = (waitq s)(wh := tl (waitq s wh)) \<and>
    onlist s' = (if waitq s wh = [] then onlist s else (onlist s)(hd (waitq s wh) := False))"
  using assms wake_current
  by (cases "waitq s wh") (auto simp: wakeup_one_def bindR_eq_Inr same_locks_def)

lemma wakeup_all_one:
  "wakeup_all wh s = (if waitq s wh = [] then Inr s else bindR (wakeup_one wh s) (wakeup_all wh))"
  by (cases "waitq s wh") (simp_all add: wakeup_all.simps [of wh s] wakeup_one_def bindR_def split: sum.split)

lemma wait_finish_eq:
  "fst (wait_finish wh s) = (if onlist s (me s) then BMK_ETIMEDOUT else 0)"
  "snd (wait_finish wh s) =
     (if onlist s (me s) then s\<lparr>waitq := (waitq s)(wh := remove1 (me s) (waitq s wh))\<rparr> else s)"
  by (simp_all add: wait_finish_def)

section \<open>The wait queues\<close>

fun kont_head :: "wkont \<Rightarrow> waithead option" where
  "kont_head (W_mutex m _) = Some (Mtx_waiters m)"
| "kont_head (W_rw lk r _) = rw_waithead lk r"
| "kont_head (W_cv c _ _) = Some (Cv_waiters c)"
| "kont_head _ = None"

definition waits_at :: "synch \<Rightarrow> nat \<Rightarrow> waithead option" where
  "waits_at s t = (case wcont s t of [] \<Rightarrow> None | k # _ \<Rightarrow> kont_head k)"

abbreviation free_to_call :: "synch \<Rightarrow> bool" where
  "free_to_call s \<equiv> waits_at s (me s) = None"

definition waits_ok :: "synch \<Rightarrow> bool" where
  "waits_ok s \<longleftrightarrow>
     (\<forall>wh. distinct (waitq s wh)) \<and>
     (\<forall>wh t. t \<in> set (waitq s wh) \<longleftrightarrow> onlist s t \<and> waits_at s t = Some wh) \<and>
     (\<forall>t. \<forall>k \<in> set (tl (wcont s t)). kont_head k = None)"

lemma waits_okI:
  assumes "\<And>wh. distinct (waitq s wh)"
    and "\<And>wh t. t \<in> set (waitq s wh) \<longleftrightarrow> onlist s t \<and> waits_at s t = Some wh"
    and "\<And>t k. k \<in> set (tl (wcont s t)) \<Longrightarrow> kont_head k = None"
  shows "waits_ok s"
  using assms by (simp add: waits_ok_def)

lemma waits_okD:
  assumes "waits_ok s"
  shows "distinct (waitq s wh)"
    "t \<in> set (waitq s wh) \<longleftrightarrow> onlist s t \<and> waits_at s t = Some wh"
    "k \<in> set (tl (wcont s t)) \<Longrightarrow> kont_head k = None"
  using assms by (auto simp: waits_ok_def)

lemma waits_at_cong: "wcont s' t = wcont s t \<Longrightarrow> waits_at s' t = waits_at s t"
  by (simp add: waits_at_def)

lemma waits_ok_cong:
  "waits_ok s \<Longrightarrow> waitq s' = waitq s \<Longrightarrow> onlist s' = onlist s \<Longrightarrow> wcont s' = wcont s \<Longrightarrow> waits_ok s'"
  by (simp add: waits_ok_def waits_at_def)

lemma wakeup_one_waits:
  assumes w: "waits_ok s" and e: "wakeup_one wh s = Inr s'"
  shows "waits_ok s'"
proof (cases "waitq s wh")
  case Nil
  then show ?thesis using w e by (simp add: wakeup_one_def)
next
  case (Cons t ts)
  note f = wakeup_one_eq [OF e, unfolded same_locks_def Cons]
  have t: "onlist s t" "waits_at s t = Some wh" using waits_okD(2) [OF w, of t wh] Cons by simp_all
  have d: "distinct (t # ts)" using waits_okD(1) [OF w, of wh] Cons by simp
  show ?thesis
  proof (rule waits_okI)
    show "distinct (waitq s' wh')" for wh' using f d waits_okD(1) [OF w] by simp
    show "x \<in> set (waitq s' wh') \<longleftrightarrow> onlist s' x \<and> waits_at s' x = Some wh'" for wh' x
      using f d t waits_okD(2) [OF w, of x wh'] Cons by (auto simp: waits_at_def)
    show "kont_head k = None" if "k \<in> set (tl (wcont s' x))" for x k
      using f that waits_okD(3) [OF w] by simp
  qed
qed

lemma wakeup_all_ind:
  assumes "wakeup_all wh s = Inr s'" "P s"
    and "\<And>x y. P x \<Longrightarrow> wakeup_one wh x = Inr y \<Longrightarrow> P y"
  shows "P s' \<and> waitq s' wh = []"
  using assms(1,2)
proof (induction "length (waitq s wh)" arbitrary: s)
  case 0
  then show ?case by (simp add: wakeup_all_one [of wh s])
next
  case (Suc n)
  then have "waitq s wh \<noteq> []" by auto
  with Suc.prems(1) obtain y where y: "wakeup_one wh s = Inr y" "wakeup_all wh y = Inr s'"
    by (auto simp: wakeup_all_one [of wh s] bindR_eq_Inr)
  have "n = length (waitq y wh)" using wakeup_one_eq [OF y(1)] Suc.hyps(2) by simp
  then show ?case using Suc.hyps(1) y(2) assms(3) [OF Suc.prems(2) y(1)] by blast
qed

text \<open>Starting to wait, and coming back from a wait.\<close>

lemma start_waits:
  assumes w: "waits_ok s" and free: "free_to_call s"
    and e: "wait_start wh wakeup now s = Inr s'" and k: "kont_head k = Some wh"
  shows "waits_ok (goes_on s' k)"
proof -
  note f = wait_start_eq [OF e, unfolded same_locks_def]
  let ?r = "goes_on s' k"
  have r: "waitq ?r = (waitq s)(wh := waitq s wh @ [me s])" "onlist ?r = (onlist s)(me s := True)"
    "wcont ?r = (wcont s)(me s := k # wcont s (me s))"
    using f by (simp_all add: goes_on_def)
  have no: "me s \<notin> set (waitq s wh')" for wh' using waits_okD(2) [OF w, of "me s" wh'] free by simp
  have at: "waits_at ?r t = (if t = me s then Some wh else waits_at s t)" for t
    using k by (simp add: waits_at_def r)
  show ?thesis
  proof (rule waits_okI)
    show "distinct (waitq ?r wh')" for wh' using no waits_okD(1) [OF w] by (simp add: r)
    show "t \<in> set (waitq ?r wh') \<longleftrightarrow> onlist ?r t \<and> waits_at ?r t = Some wh'" for wh' t
      using no waits_okD(2) [OF w, of t] unfolding at by (auto simp: r)
    show "kont_head k' = None" if "k' \<in> set (tl (wcont ?r t))" for t k'
    proof (cases "t = me s")
      case True
      then have "k' \<in> set (wcont s (me s))" using that by (simp add: r)
      then show ?thesis using free waits_okD(3) [OF w, of k' "me s"]
        by (cases "wcont s (me s)") (auto simp: waits_at_def)
    qed (use that waits_okD(3) [OF w] in \<open>simp add: r\<close>)
  qed
qed

lemma push_waits:
  assumes w: "waits_ok s" and free: "free_to_call s" and k: "kont_head k = None"
  shows "waits_ok (goes_on s k)"
proof -
  have at: "waits_at (goes_on s k) t = (if t = me s then None else waits_at s t)" for t
    using k by (simp add: waits_at_def goes_on_def)
  show ?thesis
  proof (rule waits_okI)
    show "distinct (waitq (goes_on s k) wh)" for wh using waits_okD(1) [OF w] by (simp add: goes_on_def)
    show "t \<in> set (waitq (goes_on s k) wh) \<longleftrightarrow> onlist (goes_on s k) t \<and> waits_at (goes_on s k) t = Some wh" for wh t
      using free waits_okD(2) [OF w, of t wh] unfolding at by (auto simp: goes_on_def)
    show "kont_head k' = None" if "k' \<in> set (tl (wcont (goes_on s k) t))" for t k'
      using that free waits_okD(3) [OF w, of k' t]
      by (cases "wcont s t") (auto simp: goes_on_def waits_at_def split: if_splits)
  qed
qed

abbreviation popped :: "synch \<Rightarrow> wkont list \<Rightarrow> synch" where
  "popped s ks \<equiv> s\<lparr>wcont := (wcont s)(me s := ks)\<rparr>"

lemma popped_waits_at:
  assumes "waits_ok s" "wcont s (me s) = k # ks"
  shows "waits_at (popped s ks) t = (if t = me s then None else waits_at s t)"
  using waits_okD(3) [OF assms(1), of _ "me s"] assms(2) by (cases ks) (auto simp: waits_at_def)

lemma pop_waits:
  assumes w: "waits_ok s" and c: "wcont s (me s) = k # ks" and k: "kont_head k = None"
  shows "waits_ok (popped s ks)" "free_to_call (popped s ks)"
proof -
  note at = popped_waits_at [OF w c]
  have free: "waits_at s (me s) = None" using c k by (simp add: waits_at_def)
  show "free_to_call (popped s ks)" using at by simp
  show "waits_ok (popped s ks)"
  proof (rule waits_okI)
    show "distinct (waitq (popped s ks) wh)" for wh using waits_okD(1) [OF w] by simp
    show "t \<in> set (waitq (popped s ks) wh) \<longleftrightarrow> onlist (popped s ks) t \<and> waits_at (popped s ks) t = Some wh" for wh t
      using free waits_okD(2) [OF w, of t wh] unfolding at by auto
    show "kont_head k' = None" if "k' \<in> set (tl (wcont (popped s ks) t))" for t k'
      using that waits_okD(3) [OF w, of k' t] c by (cases ks) (auto split: if_splits)
  qed
qed

lemma finish_waits:
  assumes w: "waits_ok s" and c: "wcont s (me s) = k # ks" and k: "kont_head k = Some wh"
  defines "r \<equiv> snd (wait_finish wh (popped s ks))"
  shows "waits_ok r" "free_to_call r" "me s \<notin> set (waitq r wh')"
proof -
  have top: "waits_at s (me s) = Some wh" using c k by (simp add: waits_at_def)
  have r: "waitq r = (if onlist s (me s) then (waitq s)(wh := remove1 (me s) (waitq s wh)) else waitq s)"
    "onlist r = onlist s" "wcont r = (wcont s)(me s := ks)" "me r = me s"
    by (simp_all add: r_def wait_finish_eq)
  have at: "waits_at r t = (if t = me s then None else waits_at s t)" for t
    using popped_waits_at [OF w c, of t] waits_at_cong [of r t "popped s ks"] by (simp add: r)
  show "free_to_call r" using at by (simp add: r)
  show ok: "waits_ok r"
  proof (rule waits_okI)
    show "distinct (waitq r wh')" for wh' using waits_okD(1) [OF w] by (simp add: r)
    show "t \<in> set (waitq r wh') \<longleftrightarrow> onlist r t \<and> waits_at r t = Some wh'" for wh' t
      using top waits_okD(1,2) [OF w] waits_okD(2) [OF w, of t wh'] unfolding at by (auto simp: r)
    show "kont_head k' = None" if "k' \<in> set (tl (wcont r t))" for t k'
      using that waits_okD(3) [OF w, of k' t] c by (cases ks) (auto simp: r split: if_splits)
  qed
  show "me s \<notin> set (waitq r wh')" using waits_okD(2) [OF ok, of "me s" wh'] at by simp
qed

section \<open>Mutexes and condition variables\<close>

definition mutex_typed :: "rumpuser_mtx \<Rightarrow> bool" where
  "mutex_typed x \<longleftrightarrow> m_v x = 0 \<and> m_o x = None \<and> m_bmk_o x = None \<or> m_v x = 1 \<and> m_bmk_o x \<noteq> None"

text \<open>A thread that has been woken for mutex \<open>m\<close> and has yet to try again.\<close>

definition retries :: "synch \<Rightarrow> nat \<Rightarrow> bool" where
  "retries s m \<longleftrightarrow> (\<exists>t n ks. wcont s t = W_mutex m n # ks \<and> \<not> onlist s t)"

definition no_lost_wakeup :: "nat set \<Rightarrow> synch \<Rightarrow> bool" where
  "no_lost_wakeup X s \<longleftrightarrow>
     (\<forall>m. m \<notin> X \<longrightarrow> m_v (mtxs s m) = 0 \<longrightarrow> waitq s (Mtx_waiters m) \<noteq> [] \<longrightarrow> retries s m)"

fun kont_cv :: "wkont \<Rightarrow> nat option" where
  "kont_cv (W_cv_unsched c _ _) = Some c"
| "kont_cv (W_cv c _ _) = Some c"
| "kont_cv (W_cv_back c _ _) = Some c"
| "kont_cv _ = None"

definition inside :: "nat \<Rightarrow> wkont list \<Rightarrow> int" where
  "inside c ks = int (length (filter (\<lambda>k. kont_cv k = Some c) ks))"

definition cv_users :: "synch \<Rightarrow> nat \<Rightarrow> int" where
  "cv_users s c = (\<Sum>t | wcont s t \<noteq> []. inside c (wcont s t))"

text \<open>The counters up to a difference \<open>d\<close>, which is zero between the stretches.\<close>

definition counts_ok :: "(nat \<Rightarrow> int) \<Rightarrow> synch \<Rightarrow> bool" where
  "counts_ok d s \<longleftrightarrow> finite {t. wcont s t \<noteq> []} \<and> (\<forall>c. c_nwaiters (cvs s c) = cv_users s c + d c)"

definition unit_at :: "nat option \<Rightarrow> nat \<Rightarrow> int" where
  "unit_at x c = (if x = Some c then 1 else 0)"

lemma unit_at_None [simp]: "unit_at None = (\<lambda>_. 0)"
  by (simp add: unit_at_def fun_eq_iff)

lemma cv_users_upd:
  assumes "finite {t. wcont s t \<noteq> []}" "wcont s' = (wcont s)(u := ks)"
  shows "finite {t. wcont s' t \<noteq> []}" "cv_users s' c = cv_users s c - inside c (wcont s u) + inside c ks"
proof -
  let ?T = "insert u {t. wcont s t \<noteq> []}"
  have sub: "{t. wcont s' t \<noteq> []} \<subseteq> ?T" using assms(2) by auto
  then show "finite {t. wcont s' t \<noteq> []}" using assms(1) finite_subset by blast
  have T: "cv_users x c = (\<Sum>t\<in>?T. inside c (wcont x t))" if "{t. wcont x t \<noteq> []} \<subseteq> ?T" for x
    unfolding cv_users_def by (rule sum.mono_neutral_left) (use that assms(1) in \<open>auto simp: inside_def\<close>)
  have "(\<Sum>t\<in>?T - {u}. inside c (wcont s' t)) = (\<Sum>t\<in>?T - {u}. inside c (wcont s t))"
    by (rule sum.cong) (simp_all add: assms(2))
  then show "cv_users s' c = cv_users s c - inside c (wcont s u) + inside c ks"
    using T [OF sub] T [of s] assms sum.remove [of ?T u "\<lambda>t. inside c (wcont s' t)"]
      sum.remove [of ?T u "\<lambda>t. inside c (wcont s t)"] by (simp add: subset_insertI)
qed

lemma inside_Cons: "inside c (k # ks) = unit_at (kont_cv k) c + inside c ks"
  by (simp add: inside_def unit_at_def)

text \<open>All of it: \<open>X\<close> are the mutexes whose woken thread is just about to retry.\<close>

definition synch_inv :: "nat set \<Rightarrow> (nat \<Rightarrow> int) \<Rightarrow> synch \<Rightarrow> bool" where
  "synch_inv X d s \<longleftrightarrow> waits_ok s \<and> (\<forall>m. mutex_typed (mtxs s m)) \<and> no_lost_wakeup X s \<and> counts_ok d s"

definition runs :: "nat set \<Rightarrow> (nat \<Rightarrow> int) \<Rightarrow> synch \<Rightarrow> bool" where
  "runs X d s \<longleftrightarrow> synch_inv X d s \<and> free_to_call s"

lemma runsD: "runs X d s \<Longrightarrow> synch_inv X d s" by (simp add: runs_def)

lemma synch_inv_cong:
  assumes "synch_inv X d s" "waitq s' = waitq s" "onlist s' = onlist s" "wcont s' = wcont s"
    "mtxs s' = mtxs s" "cvs s' = cvs s"
  shows "synch_inv X d s'"
  using assms waits_ok_cong [of s s']
  by (auto simp: synch_inv_def no_lost_wakeup_def retries_def counts_ok_def cv_users_def)

lemma runs_cong:
  assumes "runs X d s" "waitq s' = waitq s" "onlist s' = onlist s" "wcont s' = wcont s"
    "mtxs s' = mtxs s" "cvs s' = cvs s" "me s' = me s"
  shows "runs X d s'"
  using assms synch_inv_cong [of X d s s'] by (simp add: runs_def waits_at_def)

lemma no_lost_wakeup_mono:
  assumes "no_lost_wakeup X s" "\<And>m. m \<notin> X \<Longrightarrow> retries s m \<Longrightarrow> retries s' m"
    and "\<And>m. m \<notin> X \<Longrightarrow> m_v (mtxs s' m) = 0 \<Longrightarrow> waitq s' (Mtx_waiters m) \<noteq> [] \<Longrightarrow>
      retries s' m \<or> m_v (mtxs s m) = 0 \<and> waitq s (Mtx_waiters m) \<noteq> []"
  shows "no_lost_wakeup X s'"
  using assms unfolding no_lost_wakeup_def by blast

section \<open>What the operations keep\<close>

lemma wakeup_one_inv:
  assumes i: "synch_inv X d s" and e: "wakeup_one wh s = Inr s'"
  shows "synch_inv X d s'"
proof -
  note f = wakeup_one_eq [OF e, unfolded same_locks_def]
  have "no_lost_wakeup X s'"
  proof (rule no_lost_wakeup_mono)
    show "no_lost_wakeup X s" using i by (simp add: synch_inv_def)
    show "retries s' m" if p: "retries s m" for m
    proof -
      obtain t n ks where "wcont s t = W_mutex m n # ks" "\<not> onlist s t" using p by (auto simp: retries_def)
      then have "wcont s' t = W_mutex m n # ks \<and> \<not> onlist s' t" using f by auto
      then show ?thesis unfolding retries_def by blast
    qed
    show "retries s' m \<or> m_v (mtxs s m) = 0 \<and> waitq s (Mtx_waiters m) \<noteq> []"
      if "m_v (mtxs s' m) = 0" "waitq s' (Mtx_waiters m) \<noteq> []" for m
      using that f by (cases "wh = Mtx_waiters m") auto
  qed
  then show ?thesis using i f wakeup_one_waits [OF _ e]
    by (simp add: synch_inv_def counts_ok_def cv_users_def)
qed

lemma wakeup_one_runs: "runs X d s \<Longrightarrow> wakeup_one wh s = Inr s' \<Longrightarrow> runs X d s'"
  using wakeup_one_inv [of X d s wh s'] wakeup_one_eq [of wh s s'] by (simp add: runs_def same_locks_def waits_at_def)

lemma wakeup_all_runs: "runs X d s \<Longrightarrow> wakeup_all wh s = Inr s' \<Longrightarrow> runs X d s'"
  using wakeup_all_ind [of wh s s' "runs X d"] wakeup_one_runs by blast

lemma set_mutex_inv:
  assumes "synch_inv X d s" "m_v x = 1" "m_bmk_o x \<noteq> None"
  shows "synch_inv (X - {m}) d (s\<lparr>mtxs := (mtxs s)(m := x)\<rparr>)"
  using assms waits_ok_cong [of s "s\<lparr>mtxs := (mtxs s)(m := x)\<rparr>"]
  by (auto simp: synch_inv_def no_lost_wakeup_def retries_def counts_ok_def cv_users_def mutex_typed_def)

lemma tryenter_runs:
  assumes i: "runs X d s" and e: "rumpuser_mutex_tryenter m s = Inr (rv, s')"
  shows "runs (X - {m}) d s'" "m_v (mtxs s' m) = 1"
proof -
  have t: "mutex_typed (mtxs s m)" using i by (simp add: runs_def synch_inv_def)
  have X: "runs (X - {m}) d s" if "m_v (mtxs s m) = 1"
    using i that by (auto simp: runs_def synch_inv_def no_lost_wakeup_def)
  show "m_v (mtxs s' m) = 1" using e t by (auto simp: rumpuser_mutex_tryenter_def mutex_typed_def split: if_splits)
  show "runs (X - {m}) d s'"
    using e t i X set_mutex_inv [of X d s] 
    by (auto simp: rumpuser_mutex_tryenter_def mutex_typed_def runs_def waits_at_def split: if_splits)
qed

lemma enter_nowrap_runs:
  assumes "runs {} d s" "rumpuser_mutex_enter_nowrap m s = Inr s'"
  shows "runs {} d s'"
  using assms tryenter_runs(1) [of "{}" d s m]
  by (auto simp: rumpuser_mutex_enter_nowrap_def bindR_eq_Inr split: if_splits)

lemma exit_runs:
  assumes r: "runs {} d s" and e: "rumpuser_mutex_exit m s = Inr s'"
  shows "runs {} d s'"
proof -
  let ?r = "s\<lparr>mtxs := (mtxs s)(m := (mtxs s m)\<lparr>m_v := 0, m_o := None, m_bmk_o := None\<rparr>)\<rparr>"
  have w: "wakeup_one (Mtx_waiters m) ?r = Inr s'" using e by (simp add: rumpuser_mutex_exit_def)
  have i: "synch_inv {} d s" "free_to_call s" using r by (simp_all add: runs_def)
  have "synch_inv {m} d ?r"
    using i waits_ok_cong [of s ?r]
    by (auto simp: synch_inv_def no_lost_wakeup_def retries_def counts_ok_def cv_users_def mutex_typed_def)
  then have m: "runs {m} d s'" using i(2) by (intro wakeup_one_runs [OF _ w]) (simp add: runs_def waits_at_def)
  have "retries s' m" if ne: "waitq s' (Mtx_waiters m) \<noteq> []"
  proof -
    note f = wakeup_one_eq [OF w, unfolded same_locks_def]
    obtain t ts where t: "waitq s (Mtx_waiters m) = t # ts" using ne f by (cases "waitq s (Mtx_waiters m)") auto
    then have "waits_at s t = Some (Mtx_waiters m)" using waits_okD(2) [of s t "Mtx_waiters m"] i by (simp add: synch_inv_def)
    then obtain k ks where k: "wcont s t = k # ks" "kont_head k = Some (Mtx_waiters m)"
      by (auto simp: waits_at_def split: list.splits)
    have "\<exists>n. k = W_mutex m n" using k(2) by (cases k) (auto simp: rw_waithead_def split: rumprwlock.splits)
    then show ?thesis using k(1) f t by (auto simp: retries_def)
  qed
  then have "no_lost_wakeup {} s'" using m unfolding runs_def synch_inv_def no_lost_wakeup_def by (metis singletonD)
  then show ?thesis using m by (simp add: runs_def synch_inv_def)
qed

lemma count_runs:
  assumes "runs X d s" "cv_count c n s = Inr s'"
  shows "runs X (\<lambda>x. d x + n * unit_at (Some c) x) s'"
  using assms waits_ok_cong [of s s']
  by (auto simp: cv_count_def chk32_def bindR_eq_Inr runs_def synch_inv_def no_lost_wakeup_def retries_def counts_ok_def
      cv_users_def waits_at_def unit_at_def)

lemma push_counts:
  assumes "counts_ok d s" shows "counts_ok (\<lambda>x. d x - unit_at (kont_cv k) x) (goes_on s k)"
proof -
  have "finite {t. wcont s t \<noteq> []}" using assms by (simp add: counts_ok_def)
  from cv_users_upd [OF this, of "goes_on s k" "me s" "k # wcont s (me s)"] show ?thesis
    using assms by (auto simp: counts_ok_def inside_Cons goes_on_def)
qed

lemma retries_kept:
  assumes p: "retries s m" and free: "free_to_call s" and o: "\<And>t. t \<noteq> me s \<Longrightarrow> onlist s' t = onlist s t"
    and w: "\<And>t. t \<noteq> me s \<Longrightarrow> wcont s' t = wcont s t"
  shows "retries s' m"
proof -
  obtain t n ks where t: "wcont s t = W_mutex m n # ks" "\<not> onlist s t" using p by (auto simp: retries_def)
  then have "t \<noteq> me s" using free by (auto simp: waits_at_def)
  then show ?thesis using t o w unfolding retries_def by metis
qed

lemma push_inv:
  assumes r: "runs {} d s" and k: "kont_head k = None"
  shows "synch_inv {} (\<lambda>x. d x - unit_at (kont_cv k) x) (goes_on s k)"
proof -
  have i: "waits_ok s" "free_to_call s" "no_lost_wakeup {} s" "counts_ok d s" "\<forall>m. mutex_typed (mtxs s m)"
    using r by (simp_all add: runs_def synch_inv_def)
  have "no_lost_wakeup {} (goes_on s k)"
    by (rule no_lost_wakeup_mono [OF i(3)]) (auto intro: retries_kept [OF _ i(2)] simp: goes_on_def)
  then show ?thesis using push_waits [OF i(1,2) k] push_counts [OF i(4)] i(5) by (simp add: synch_inv_def goes_on_def)
qed

lemma start_inv:
  assumes r: "runs {} d s" and e: "wait_start wh wakeup now s = Inr s'" and k: "kont_head k = Some wh"
    and busy: "\<forall>m. wh = Mtx_waiters m \<longrightarrow> m_v (mtxs s m) \<noteq> 0"
  shows "synch_inv {} (\<lambda>x. d x - unit_at (kont_cv k) x) (goes_on s' k)"
proof -
  have i: "waits_ok s" "free_to_call s" "no_lost_wakeup {} s" "counts_ok d s" "\<forall>m. mutex_typed (mtxs s m)"
    using r by (simp_all add: runs_def synch_inv_def)
  note f = wait_start_eq [OF e, unfolded same_locks_def]
  have "no_lost_wakeup {} (goes_on s' k)"
  proof (rule no_lost_wakeup_mono [OF i(3)])
    show "retries (goes_on s' k) m" if "retries s m" for m
      by (rule retries_kept [OF that i(2)]) (use f in \<open>simp_all add: goes_on_def\<close>)
    show "retries (goes_on s' k) m \<or> m_v (mtxs s m) = 0 \<and> waitq s (Mtx_waiters m) \<noteq> []"
      if "m_v (mtxs (goes_on s' k) m) = 0" "waitq (goes_on s' k) (Mtx_waiters m) \<noteq> []" for m
      using that f busy by (auto simp: goes_on_def split: if_splits)
  qed
  moreover have "counts_ok d s'" using i(4) f by (simp add: counts_ok_def cv_users_def)
  ultimately show ?thesis
    using start_waits [OF i(1,2) e k] push_counts [of d s' k] i(5) f by (simp add: synch_inv_def goes_on_def)
qed

lemma pop_counts:
  assumes "counts_ok d s" "wcont s (me s) = k # ks"
  shows "counts_ok (\<lambda>x. d x + unit_at (kont_cv k) x) (popped s ks)"
proof -
  have "finite {t. wcont s t \<noteq> []}" using assms by (simp add: counts_ok_def)
  from cv_users_upd [OF this, of "popped s ks" "me s" ks] show ?thesis
    using assms by (auto simp: counts_ok_def inside_Cons)
qed

text \<open>Only a continuation inside \<open>rumpuser_mutex_enter\<close> excepts a mutex, its own.\<close>

fun kont_mutex :: "wkont \<Rightarrow> nat set" where
  "kont_mutex (W_mutex m _) = {m}"
| "kont_mutex _ = {}"

lemma pop_retries:
  assumes "retries s m" "wcont s (me s) = k # ks" "m \<notin> kont_mutex k" "onlist s' = onlist s"
    "wcont s' = (wcont s)(me s := ks)"
  shows "retries s' m"
proof -
  obtain t n ks' where t: "wcont s t = W_mutex m n # ks'" "\<not> onlist s t" using assms(1) by (auto simp: retries_def)
  then have "t \<noteq> me s" using assms(2,3) by auto
  then show ?thesis using t assms(4,5) unfolding retries_def by auto
qed

lemma pop_runs:
  assumes i: "synch_inv {} d s" and c: "wcont s (me s) = k # ks" and k: "kont_head k = None"
  shows "runs {} (\<lambda>x. d x + unit_at (kont_cv k) x) (popped s ks)"
proof -
  have i': "waits_ok s" "no_lost_wakeup {} s" "counts_ok d s" "\<forall>m. mutex_typed (mtxs s m)"
    using i by (simp_all add: synch_inv_def)
  have e: "kont_mutex k = {}" using k by (cases k) simp_all
  have "no_lost_wakeup {} (popped s ks)"
  proof (rule no_lost_wakeup_mono [OF i'(2)])
    show "retries (popped s ks) m" if "retries s m" for m by (rule pop_retries [OF that c]) (simp_all add: e)
  qed simp
  then show ?thesis
    using pop_waits [OF i'(1) c k] pop_counts [OF i'(3) c] i'(4) by (simp add: runs_def synch_inv_def)
qed

lemma finish_runs:
  assumes i: "synch_inv {} d s" and c: "wcont s (me s) = k # ks" and k: "kont_head k = Some wh"
  shows "runs (kont_mutex k) (\<lambda>x. d x + unit_at (kont_cv k) x) (snd (wait_finish wh (popped s ks)))"
proof -
  let ?r = "snd (wait_finish wh (popped s ks))"
  have i': "waits_ok s" "no_lost_wakeup {} s" "counts_ok d s" "\<forall>m. mutex_typed (mtxs s m)"
    using i by (simp_all add: synch_inv_def)
  have sub: "waitq ?r wh' \<noteq> [] \<Longrightarrow> waitq s wh' \<noteq> []" for wh'
    by (auto simp: wait_finish_eq split: if_splits)
  have r: "onlist ?r = onlist s" "wcont ?r = (wcont s)(me s := ks)" "mtxs ?r = mtxs s" "cvs ?r = cvs s"
    by (simp_all add: wait_finish_eq)
  have n: "no_lost_wakeup (kont_mutex k) ?r"
  proof (rule no_lost_wakeup_mono)
    show "no_lost_wakeup (kont_mutex k) s" using i'(2) by (simp add: no_lost_wakeup_def)
    show "retries ?r m" if "m \<notin> kont_mutex k" "retries s m" for m
      by (rule pop_retries [OF that(2) c that(1) r(1,2)])
    show "retries ?r m \<or> m_v (mtxs s m) = 0 \<and> waitq s (Mtx_waiters m) \<noteq> []"
      if "m_v (mtxs ?r m) = 0" "waitq ?r (Mtx_waiters m) \<noteq> []" for m
      using that sub r by simp
  qed
  have "counts_ok (\<lambda>x. d x + unit_at (kont_cv k) x) ?r"
    using pop_counts [OF i'(3) c] r by (simp add: counts_ok_def cv_users_def)
  then show ?thesis using n finish_waits(1,2) [OF i'(1) c k] i'(4) r by (simp add: runs_def synch_inv_def)
qed

section \<open>Every interleaving\<close>

lemma mutex_enter_loop_inv:
  assumes "runs X d s" "X \<subseteq> {m}" "mutex_enter_loop m n s = Inr (g, s')"
  shows "synch_inv {} d s'"
proof -
  obtain rv y where t: "rumpuser_mutex_tryenter m s = Inr (rv, y)"
    and c: "(if rv \<noteq> 0 then bindR (wait_start (Mtx_waiters m) BLOCK_INFTIME 0 y)
        (\<lambda>s. Inr (Blocks, goes_on s (W_mutex m n)))
      else Inr (Returns 0, call_kernel y (Resched n None))) = Inr (g, s')"
    using assms(3) by (auto simp: mutex_enter_loop_def bindR_eq_Inr)
  have "X - {m} = {}" using assms(2) by auto
  with tryenter_runs [OF assms(1) t] have y: "runs {} d y" "m_v (mtxs y m) = 1" by simp_all
  show ?thesis
  proof (cases "rv = 0")
    case True
    then show ?thesis using c y(1) by (auto simp: call_kernel_def intro: synch_inv_cong [OF runsD])
  next
    case False
    then obtain z where z: "wait_start (Mtx_waiters m) BLOCK_INFTIME 0 y = Inr z" "s' = goes_on z (W_mutex m n)"
      using c by (auto simp: bindR_eq_Inr)
    show ?thesis using start_inv [OF y(1) z(1), of "W_mutex m n"] y(2) z(2) by simp
  qed
qed

lemma rw_tryenter_runs:
  assumes "runs {} d s" "rumpuser_rw_tryenter lk r s = Inr (rv, s')"
  shows "runs {} d s'"
  by (rule runs_cong [OF assms(1)])
    (use assms(2) in \<open>auto simp: rumpuser_rw_tryenter_def bindR_eq_Inr split: rumprwlock.splits if_splits\<close>)

lemma rw_enter_loop_inv:
  assumes "runs {} d s" "rw_enter_loop lk r n s = Inr (g, s')"
  shows "synch_inv {} d s'"
proof -
  obtain rv y where t: "rumpuser_rw_tryenter lk r s = Inr (rv, y)"
    and c: "(if rv \<noteq> 0 then (case rw_waithead lk r of None \<Rightarrow> Inl Null_deref
        | Some w \<Rightarrow> bindR (wait_start w BLOCK_INFTIME 0 y) (\<lambda>s. Inr (Blocks, goes_on s (W_rw lk r n))))
      else Inr (Returns 0, call_kernel y (Resched n None))) = Inr (g, s')"
    using assms(2) by (auto simp: rw_enter_loop_def bindR_eq_Inr)
  have y: "runs {} d y" by (rule rw_tryenter_runs [OF assms(1) t])
  show ?thesis
  proof (cases "rv = 0")
    case True
    then show ?thesis using c y by (auto simp: call_kernel_def intro: synch_inv_cong [OF runsD])
  next
    case False
    then obtain w z where z: "rw_waithead lk r = Some w" "wait_start w BLOCK_INFTIME 0 y = Inr z"
      "s' = goes_on z (W_rw lk r n)"
      using c by (auto simp: bindR_eq_Inr split: option.splits)
    have "\<forall>m. w \<noteq> Mtx_waiters m" using z(1) by (auto simp: rw_waithead_def split: rumprwlock.splits)
    then show ?thesis using start_inv [OF y(1) z(2), of "W_rw lk r n"] z(1,3) by simp
  qed
qed

lemma rw_exit_runs:
  assumes i: "runs {} d s" and e: "rumpuser_rw_exit r s = Inr s'"
  shows "runs {} d s'"
proof -
  obtain rw where c: "(let s = s\<lparr>rws := (rws s)(r := rw)\<rparr> in
      if waitq s (Rw_wwait r) \<noteq> [] then (if r_o rw = None then wakeup_one (Rw_wwait r) s else Inr s)
      else if waitq s (Rw_rwait r) \<noteq> [] \<and> r_o rw = None then wakeup_all (Rw_rwait r) s
      else Inr s) = Inr s'"
    using e unfolding rumpuser_rw_exit_def by (rule bindR_InrE)
  let ?y = "s\<lparr>rws := (rws s)(r := rw)\<rparr>"
  have y: "runs {} d ?y" by (rule runs_cong [OF i]) simp_all
  have c': "wakeup_one (Rw_wwait r) ?y = Inr s' \<or> wakeup_all (Rw_rwait r) ?y = Inr s' \<or> s' = ?y"
    using c unfolding Let_def by (simp only: synch.simps split: if_splits) (simp_all only: sum.inject simp_thms)
  show ?thesis
    using c' wakeup_one_runs [OF y] wakeup_all_runs [OF y] y by blast
qed

lemma call_kernel_runs: "runs {} d s \<Longrightarrow> runs {} d (call_kernel s c)"
  by (rule runs_cong) (simp_all add: call_kernel_def)

lemma unsched_wait_inv:
  assumes i: "runs {} d s" and x: "rumpuser_mutex_exit m s = Inr y"
    and w: "wait_start (Cv_waiters c) wakeup now y = Inr z"
  shows "synch_inv {} (\<lambda>x. d x - unit_at (Some c) x) (goes_on z (W_cv c m n))"
  using start_inv [OF exit_runs [OF i x] w, of "W_cv c m n"] by simp

text \<open>
  A lock is only initialised in memory that is not a lock in use: the allocator hands out no
  block twice, and a lock is destroyed only when nobody waits for it.
\<close>

definition idle_memory :: "hcall \<Rightarrow> seg \<Rightarrow> synch \<Rightarrow> bool" where
  "idle_memory c g s \<longleftrightarrow>
     (\<forall>f p. c = H_mutex_init f \<longrightarrow> g = Returns (int p) \<longrightarrow> waitq s (Mtx_waiters p) = [] \<and> m_v (mtxs s p) = 0) \<and>
     (\<forall>p. c = H_rw_init \<longrightarrow> g = Returns (int p) \<longrightarrow> waitq s (Rw_rwait p) = [] \<and> waitq s (Rw_wwait p) = []) \<and>
     (\<forall>p. c = H_cv_init \<longrightarrow> g = Returns (int p) \<longrightarrow> waitq s (Cv_waiters p) = [] \<and> c_nwaiters (cvs s p) = 0)"

text \<open>
  The steps of the system: a running thread makes a hypercall, goes on with one, or the
  scheduler does anything at all.
\<close>

inductive synch_step :: "int \<Rightarrow> synch \<Rightarrow> synch \<Rightarrow> bool" for kspin where
  step_call: "free_to_call s \<Longrightarrow> hypercall c s = Inr (g, s') \<Longrightarrow> idle_memory c g s \<Longrightarrow> synch_step kspin s s'"
| step_go: "resume kspin nlocks now s = Inr (g, s') \<Longrightarrow> synch_step kspin s s'"
| step_sched: "synch_step kspin s (s\<lparr>sc := k\<rparr>)"

inductive_cases synch_stepE: "synch_step kspin s s'"

abbreviation synch_ok :: "synch \<Rightarrow> bool" where
  "synch_ok \<equiv> synch_inv {} (\<lambda>_. 0)"

lemma lock_alloc_eq:
  assumes "lock_alloc n s = Inr (p, s')"
  obtains h where "s' = s\<lparr>sc := (sc s)\<lparr>heap := h\<rparr>\<rparr>"
proof -
  obtain x where x: "(case x of (q, h) \<Rightarrow> case q of None \<Rightarrow> Inl Null_deref
      | Some p \<Rightarrow> Inr (p, s\<lparr>sc := (sc s)\<lparr>heap := h\<rparr>\<rparr>)) = Inr (p, s')"
    using assms unfolding lock_alloc_def by (rule bindR_InrE)
  obtain q h where "x = (q, h)" by (cases x)
  with x have "s' = s\<lparr>sc := (sc s)\<lparr>heap := h\<rparr>\<rparr>" by (cases q) simp_all
  then show thesis by (rule that)
qed

lemma lock_alloc_runs:
  assumes "runs {} d s" "lock_alloc n s = Inr (p, s')"
  shows "runs {} d s'" "waitq s' = waitq s" "cvs s' = cvs s" "mtxs s' = mtxs s"
proof -
  obtain h where "s' = s\<lparr>sc := (sc s)\<lparr>heap := h\<rparr>\<rparr>" by (rule lock_alloc_eq [OF assms(2)])
  then show "waitq s' = waitq s" "cvs s' = cvs s" "mtxs s' = mtxs s" "runs {} d s'"
    by (simp_all add: runs_cong [OF assms(1)])
qed

lemma lock_free_runs:
  assumes "runs {} d s" "lock_free p s = Inr s'"
  shows "runs {} d s'"
proof -
  obtain h where "s' = s\<lparr>sc := (sc s)\<lparr>heap := h\<rparr>\<rparr>"
    using assms(2) unfolding lock_free_def bindR_eq_Inr by auto
  then show ?thesis by (simp add: runs_cong [OF assms(1)])
qed

lemma mutex_init_runs:
  assumes i: "runs {} d s" and e: "rumpuser_mutex_init flags s = Inr (m, s')" and w: "waitq s (Mtx_waiters m) = []"
  shows "runs {} d s'"
proof -
  obtain y where y: "lock_alloc 40 s = Inr (m, y)"
    "s' = y\<lparr>mtxs := (mtxs y)(m := \<lparr>m_v = 0, m_flags = flags, m_o = None, m_bmk_o = None\<rparr>),
      waitq := (waitq y)(Mtx_waiters m := [])\<rparr>"
    using e by (auto simp: rumpuser_mutex_init_def bindR_eq_Inr)
  note f = lock_alloc_runs(2) [OF i y(1)]
  have q: "waitq s' = waitq y" using w f y(2) by (simp add: fun_eq_iff)
  have j: "runs {} d y" by (rule lock_alloc_runs(1) [OF i y(1)])
  have "no_lost_wakeup {} s'"
  proof (rule no_lost_wakeup_mono)
    show "no_lost_wakeup {} y" using j by (simp add: runs_def synch_inv_def)
    show "retries y m' \<Longrightarrow> retries s' m'" for m' using y(2) by (auto simp: retries_def)
    show "retries s' m' \<or> m_v (mtxs y m') = 0 \<and> waitq y (Mtx_waiters m') \<noteq> []"
      if "m_v (mtxs s' m') = 0" "waitq s' (Mtx_waiters m') \<noteq> []" for m'
      using that w q f y(2) by (auto split: if_splits)
  qed
  then show ?thesis using j q y(2) waits_ok_cong [of y s']
    by (simp add: runs_def synch_inv_def counts_ok_def cv_users_def waits_at_def mutex_typed_def)
qed

lemma rw_init_runs:
  assumes i: "runs {} d s" and e: "rumpuser_rw_init s = Inr (r, s')"
    and w: "waitq s (Rw_rwait r) = []" "waitq s (Rw_wwait r) = []"
  shows "runs {} d s'"
proof -
  obtain y where y: "lock_alloc 48 s = Inr (r, y)"
    "s' = y\<lparr>rws := (rws y)(r := \<lparr>r_v = 0, r_o = None\<rparr>), waitq := (waitq y)(Rw_rwait r := [], Rw_wwait r := [])\<rparr>"
    using e by (auto simp: rumpuser_rw_init_def bindR_eq_Inr)
  have "waitq s' = waitq y" using w lock_alloc_runs(2) [OF i y(1)] y(2) by (simp add: fun_eq_iff)
  then show ?thesis using y(2) by (intro runs_cong [OF lock_alloc_runs(1) [OF i y(1)]]) simp_all
qed

lemma cv_init_runs:
  assumes i: "runs {} d s" and e: "rumpuser_cv_init s = Inr (c, s')"
    and w: "waitq s (Cv_waiters c) = []" "c_nwaiters (cvs s c) = 0"
  shows "runs {} d s'"
proof -
  obtain y where y: "lock_alloc 24 s = Inr (c, y)"
    "s' = y\<lparr>cvs := (cvs y)(c := \<lparr>c_nwaiters = 0\<rparr>), waitq := (waitq y)(Cv_waiters c := [])\<rparr>"
    using e by (auto simp: rumpuser_cv_init_def bindR_eq_Inr)
  have "waitq s' = waitq y" "cvs s' = cvs y" using w lock_alloc_runs(2,3) [OF i y(1)] y(2) by (simp_all add: fun_eq_iff)
  then show ?thesis using y(2) by (intro runs_cong [OF lock_alloc_runs(1) [OF i y(1)]]) simp_all
qed

lemma thread_create_runs:
  assumes "runs {} d s" "rumpuser_thread_create b f a nm j s = Inr (rv, thr, s')"
  shows "synch_inv {} d s'"
proof -
  obtain k where "s' = s\<lparr>sc := k, current_lwp := (current_lwp s)(thr := None)\<rparr>"
    using assms(2) unfolding rumpuser_thread_create_def bindR_eq_Inr by auto
  then show ?thesis by (simp add: synch_inv_cong [OF runsD [OF assms(1)]])
qed

lemma curlwpop_runs:
  assumes "runs {} d s" "rumpuser_curlwpop lwpop l s = Inr s'"
  shows "runs {} d s'"
proof -
  obtain f where "s' = s\<lparr>current_lwp := f\<rparr>"
  proof
    show "s' = s\<lparr>current_lwp := current_lwp s'\<rparr>"
      using assms(2) by (cases lwpop) (auto simp: rumpuser_curlwpop_def)
  qed
  then show ?thesis by (simp add: runs_cong [OF assms(1)])
qed

lemma cv_wait_inv:
  assumes i: "runs {} (\<lambda>_. 0) s" and c: "cv_count c 1 s = Inr y"
  shows "synch_ok (goes_on (call_kernel y x) (W_cv_unsched c m w))"
  using push_inv [OF call_kernel_runs [OF count_runs [OF i c]], of "W_cv_unsched c m w" x] by simp

lemma cv_wait_nowrap_inv:
  assumes i: "runs {} (\<lambda>_. 0) s" and e: "rumpuser_cv_wait_nowrap c m s = Inr (g, s')"
  shows "synch_ok s'"
proof -
  obtain y z v where y: "cv_count c 1 s = Inr y" "rumpuser_mutex_exit m y = Inr z"
    "wait_start (Cv_waiters c) BLOCK_INFTIME 0 z = Inr v" "s' = goes_on v (W_cv c m None)"
    using e unfolding rumpuser_cv_wait_nowrap_def bindR_eq_Inr by blast
  show ?thesis using unsched_wait_inv [OF count_runs [OF i y(1)] y(2,3), of None] y(4) by simp
qed

text \<open>The hypercalls that neither block nor leave a continuation.\<close>

lemma simple_call_inv:
  assumes i: "runs {} (\<lambda>_. 0) s" and e: "hypercall c s = Inr (g, s')" and m: "idle_memory c g s"
    and no: "\<And>m. c \<noteq> H_mutex_enter m" "\<And>lk r. c \<noteq> H_rw_enter lk r" "\<And>c' m. c \<noteq> H_cv_wait c' m"
    "\<And>c' m. c \<noteq> H_cv_wait_nowrap c' m" "\<And>c' m a b. c \<noteq> H_cv_timedwait c' m a b"
    "\<And>b f a nm j. c \<noteq> H_thread_create b f a nm j"
  shows "runs {} (\<lambda>_. 0) s'"
proof (cases c)
  case (H_mutex_init flags)
  then obtain p where "rumpuser_mutex_init flags s = Inr (p, s')" "g = Returns (int p)"
    using e by (auto simp: bindR_eq_Inr)
  then show ?thesis using mutex_init_runs [OF i, of flags p s'] m H_mutex_init by (simp add: idle_memory_def)
next
  case H_rw_init
  then obtain p where "rumpuser_rw_init s = Inr (p, s')" "g = Returns (int p)"
    using e by (auto simp: bindR_eq_Inr)
  then show ?thesis using rw_init_runs [OF i, of p s'] m H_rw_init by (simp add: idle_memory_def)
next
  case H_cv_init
  then obtain p where "rumpuser_cv_init s = Inr (p, s')" "g = Returns (int p)"
    using e by (auto simp: bindR_eq_Inr)
  then show ?thesis using cv_init_runs [OF i, of p s'] m H_cv_init by (simp add: idle_memory_def)
next
  case (H_rw_downgrade r)
  then show ?thesis using e by (intro runs_cong [OF i]) (auto simp: bindR_eq_Inr rumpuser_rw_downgrade_def)
next
  case (H_rw_tryupgrade r)
  then show ?thesis using e by (intro runs_cong [OF i]) (auto simp: rumpuser_rw_tryupgrade_def split: if_splits)
qed (use e no tryenter_runs(1) [OF i] in \<open>auto simp: bindR_eq_Inr rumpuser_cv_signal_def rumpuser_cv_broadcast_def
    rumpuser_rw_destroy_def rumpuser_mutex_destroy_def rumpuser_cv_destroy_def
    intro: curlwpop_runs [OF i] enter_nowrap_runs [OF i] exit_runs [OF i] rw_tryenter_runs [OF i]
      rw_exit_runs [OF i] lock_free_runs [OF i] wakeup_one_runs [OF i] wakeup_all_runs [OF i]\<close>)

lemma hypercall_inv:
  assumes i: "runs {} (\<lambda>_. 0) s" and e: "hypercall c s = Inr (g, s')" and m: "idle_memory c g s"
  shows "synch_ok s'"
proof (cases c)
  case (H_mutex_enter x)
  then obtain rv y where t: "rumpuser_mutex_tryenter x s = Inr (rv, y)"
    and s': "s' = (if rv \<noteq> 0 then goes_on (call_kernel y (Unsched None)) (W_mutex_unsched x) else y)"
    using e by (auto simp: rumpuser_mutex_enter_def bindR_eq_Inr split: if_splits)
  have y: "runs {} (\<lambda>_. 0) y" using tryenter_runs(1) [OF i t] by simp
  show ?thesis using s' y push_inv [OF call_kernel_runs [OF y], of "W_mutex_unsched x"] by (simp add: runsD)
next
  case (H_rw_enter lk r)
  then obtain rv y where t: "rumpuser_rw_tryenter lk r s = Inr (rv, y)"
    and s': "s' = (if rv \<noteq> 0 then goes_on (call_kernel y (Unsched None)) (W_rw_unsched lk r) else y)"
    using e by (auto simp: rumpuser_rw_enter_def bindR_eq_Inr split: if_splits)
  have y: "runs {} (\<lambda>_. 0) y" by (rule rw_tryenter_runs [OF i t])
  show ?thesis using s' y push_inv [OF call_kernel_runs [OF y], of "W_rw_unsched lk r"] by (simp add: runsD)
next
  case (H_cv_wait c' m)
  then show ?thesis using e by (auto simp: rumpuser_cv_wait_def bindR_eq_Inr intro: cv_wait_inv [OF i])
next
  case (H_cv_wait_nowrap c' m)
  then show ?thesis using e cv_wait_nowrap_inv [OF i] by simp
next
  case (H_cv_timedwait c' m a b)
  then show ?thesis using e by (auto simp: rumpuser_cv_timedwait_def bindR_eq_Inr intro: cv_wait_inv [OF i])
next
  case (H_thread_create b f a nm j)
  then show ?thesis using e by (auto simp: bindR_eq_Inr intro: thread_create_runs [OF i])
qed (rule runsD [OF simple_call_inv [OF i e m]]; simp)+

lemma count_back:
  assumes "runs {} (unit_at (Some c)) y" "cv_count c (- 1) y = Inr s'"
  shows "synch_ok s'"
proof -
  have "(\<lambda>x. unit_at (Some c) x + - 1 * unit_at (Some c) x) = (\<lambda>_. 0)" by simp
  with runsD [OF count_runs [OF assms]] show ?thesis by simp
qed

lemma cv_resume_inv:
  assumes i: "runs {} (unit_at (Some c)) y" and e: "cv_resched kspin c m n rv y = Inr (g, s')"
  shows "synch_ok s'"
proof -
  obtain z x where z: "runs {} (unit_at (Some c)) z" "s' = goes_on (call_kernel z (Resched n (Some m))) (W_cv_back c x rv)"
  proof (cases "m_flags (mtxs y m) AND kspin = kspin")
    case True
    then show thesis using that [OF i, of "Some m"] e by (simp add: cv_resched_def)
  next
    case False
    then obtain z where "rumpuser_mutex_enter_nowrap m y = Inr z"
      "s' = goes_on (call_kernel z (Resched n (Some m))) (W_cv_back c None rv)"
      using e by (auto simp: cv_resched_def bindR_eq_Inr)
    then show thesis using that [of z None] enter_nowrap_runs [OF i] by simp
  qed
  then show ?thesis using push_inv [OF call_kernel_runs [OF z(1)], of "W_cv_back c x rv"] by simp
qed

lemma cv_back_inv:
  assumes i: "runs {} (unit_at (Some c)) y" and e: "cv_back c m rv y = Inr (g, s')"
  shows "synch_ok s'"
proof -
  obtain z where z: "(case m of None \<Rightarrow> Inr y | Some m \<Rightarrow> rumpuser_mutex_enter_nowrap m y) = Inr z"
    "cv_count c (- 1) z = Inr s'"
    using e by (auto simp: cv_back_def bindR_eq_Inr)
  have "runs {} (unit_at (Some c)) z" using z(1) i enter_nowrap_runs [OF i] by (cases m) simp_all
  then show ?thesis using count_back z(2) by blast
qed

lemma resume_inv:
  assumes i: "synch_ok s" and e: "resume kspin nlocks now s = Inr (g, s')"
  shows "synch_ok s'"
proof (cases "wcont s (me s)")
  case Nil
  then show ?thesis using i e by (simp add: resume_def)
next
  case (Cons k ks)
  have e': "resume_at kspin nlocks now k (popped s ks) = Inr (g, s')" using e Cons by (simp add: resume_def)
  note pop = pop_runs [OF i Cons] and fin = finish_runs [OF i Cons]
  show ?thesis
  proof (cases k)
    case (W_mutex_unsched m)
    then show ?thesis using mutex_enter_loop_inv [of "{}"] pop e' by (simp add: resume_at_def)
  next
    case (W_mutex m n)
    then show ?thesis using mutex_enter_loop_inv [of "{m}" _ _ m n] fin e' by (simp add: resume_at_def)
  next
    case (W_rw_unsched lk r)
    then show ?thesis using rw_enter_loop_inv pop e' by (simp add: resume_at_def)
  next
    case (W_rw lk r n)
    then show ?thesis using rw_enter_loop_inv fin e' by (auto simp: resume_at_def split: option.splits)
  next
    case (W_cv_unsched c m wakeup)
    then have p: "runs {} (unit_at (Some c)) (popped s ks)" using pop by simp
    obtain y z where y: "rumpuser_mutex_exit m (popped s ks) = Inr y" "wait_start (Cv_waiters c) wakeup now y = Inr z"
      "s' = goes_on z (W_cv c m (Some nlocks))"
      using e' W_cv_unsched by (auto simp: resume_at_def cv_unsched_wait_def bindR_eq_Inr)
    show ?thesis using unsched_wait_inv [OF p y(1,2), of "Some nlocks"] y(3) by simp
  next
    case (W_cv c m n)
    let ?y = "snd (wait_finish (Cv_waiters c) (popped s ks))"
    have y: "runs {} (unit_at (Some c)) ?y" using fin W_cv by simp
    show ?thesis
    proof (cases n)
      case None
      then obtain z where "rumpuser_mutex_enter_nowrap m ?y = Inr z" "cv_count c (- 1) z = Inr s'"
        using e' W_cv by (auto simp: resume_at_def cv_resume_def bindR_eq_Inr case_prod_unfold)
      then show ?thesis using count_back enter_nowrap_runs [OF y] by blast
    next
      case (Some n')
      then have "cv_resched kspin c m n' (fst (wait_finish (Cv_waiters c) (popped s ks))) ?y = Inr (g, s')"
        using e' W_cv by (simp add: resume_at_def cv_resume_def case_prod_unfold Let_def)
      then show ?thesis by (rule cv_resume_inv [OF y])
    qed
  next
    case (W_cv_back c m rv)
    then show ?thesis using cv_back_inv [of c "popped s ks"] pop e' by (simp add: resume_at_def)
  qed
qed

lemma synch_step_inv: "synch_ok s \<Longrightarrow> synch_step kspin s s' \<Longrightarrow> synch_ok s'"
  by (erule synch_stepE) (auto simp: runs_def intro: hypercall_inv resume_inv synch_inv_cong)

lemma synch_steps_inv: "(synch_step kspin)\<^sup>*\<^sup>* s s' \<Longrightarrow> synch_ok s \<Longrightarrow> synch_ok s'"
  by (induction rule: rtranclp_induct) (auto intro: synch_step_inv)

end
