(* ===== verification/SynchLock.thy ===== *)
theory SynchLock
  imports SynchCorrect
begin

text \<open>
  A mutex behaves as an abstract lock with a first-in first-out queue, under every interleaving
  of the stretches of the hypercalls.
\<close>

section \<open>A mutex as an abstract lock\<close>

text \<open>
  What a mutex promises: it has at most one owner, it is taken only when free, a thread queues
  only while another one owns it, and a release serves the queue from its front.
\<close>

record lock =
  owner :: "nat option"
  queue :: "nat list"

inductive lock_step :: "nat \<Rightarrow> lock \<Rightarrow> lock \<Rightarrow> bool" for t where
  lock_acquire: "owner a = None \<Longrightarrow> lock_step t a (a\<lparr>owner := Some t\<rparr>)"
| lock_wait: "owner a = Some u \<Longrightarrow> u \<noteq> t \<Longrightarrow> t \<notin> set (queue a) \<Longrightarrow> lock_step t a (a\<lparr>queue := queue a @ [t]\<rparr>)"
| lock_release: "owner a = Some u \<Longrightarrow> lock_step t a \<lparr>owner = None, queue = tl (queue a)\<rparr>"
| lock_leave: "lock_step t a (a\<lparr>queue := remove1 t (queue a)\<rparr>)"

definition lock_of :: "nat \<Rightarrow> synch \<Rightarrow> lock" where
  "lock_of m s = \<lparr>owner = m_bmk_o (mtxs s m), queue = waitq s (Mtx_waiters m)\<rparr>"

abbreviation lock_steps :: "nat \<Rightarrow> lock \<Rightarrow> lock \<Rightarrow> bool" where
  "lock_steps t \<equiv> (lock_step t)\<^sup>*\<^sup>*"

definition refines :: "synch \<Rightarrow> synch \<Rightarrow> bool" where
  "refines s s' \<longleftrightarrow> (\<forall>m. lock_steps (me s) (lock_of m s) (lock_of m s'))"

lemma refines_same: "mtxs s' = mtxs s \<Longrightarrow> waitq s' = waitq s \<Longrightarrow> refines s s'"
  by (simp add: refines_def lock_of_def)

lemma refines_trans: "refines s y \<Longrightarrow> refines y s' \<Longrightarrow> me y = me s \<Longrightarrow> refines s s'"
  unfolding refines_def by (metis rtranclp_trans)

lemma tryenter_refines:
  assumes t: "\<forall>m. mutex_typed (mtxs s m)" and e: "rumpuser_mutex_tryenter m s = Inr (rv, s')"
  shows "refines s s'" "me s' = me s" "rv \<noteq> 0 \<longrightarrow> (\<exists>u. m_bmk_o (mtxs s' m) = Some u \<and> u \<noteq> me s)"
proof -
  have m: "mutex_typed (mtxs s m)" using t by simp
  show "me s' = me s" "rv \<noteq> 0 \<longrightarrow> (\<exists>u. m_bmk_o (mtxs s' m) = Some u \<and> u \<noteq> me s)"
    using e m by (auto simp: rumpuser_mutex_tryenter_def mutex_typed_def split: if_splits)
  show "refines s s'"
    unfolding refines_def
  proof
    fix m'
    show "lock_steps (me s) (lock_of m' s) (lock_of m' s')"
      using e m lock_acquire [of "lock_of m' s" "me s"]
      by (auto simp: rumpuser_mutex_tryenter_def mutex_typed_def lock_of_def split: if_splits)
  qed
qed

lemma wakeup_other_refines:
  assumes "wakeup_one wh s = Inr s'" "\<forall>m. wh \<noteq> Mtx_waiters m"
  shows "refines s s'" "me s' = me s" "mtxs s' = mtxs s"
  using wakeup_one_eq [OF assms(1)] assms(2) by (auto simp: refines_def lock_of_def same_locks_def)

lemma wakeup_all_refines:
  assumes "wakeup_all wh s = Inr s'" "\<forall>m. wh \<noteq> Mtx_waiters m"
  shows "refines s s'"
proof -
  have "refines s s" by (simp add: refines_def)
  then have "(refines s s' \<and> me s' = me s) \<and> waitq s' wh = []"
    using wakeup_all_ind [OF assms(1), of "\<lambda>y. refines s y \<and> me y = me s"] wakeup_other_refines [OF _ assms(2)]
      refines_trans by (smt (verit, best))
  then show ?thesis by simp
qed

lemma exit_refines:
  assumes t: "\<forall>m. mutex_typed (mtxs s m)" and e: "rumpuser_mutex_exit m s = Inr s'"
  shows "refines s s'" "me s' = me s"
proof -
  let ?y = "s\<lparr>mtxs := (mtxs s)(m := (mtxs s m)\<lparr>m_v := 0, m_o := None, m_bmk_o := None\<rparr>)\<rparr>"
  have e': "m_v (mtxs s m) = 1" "wakeup_one (Mtx_waiters m) ?y = Inr s'" using e by (simp_all add: rumpuser_mutex_exit_def)
  note f = wakeup_one_eq [OF e'(2), unfolded same_locks_def]
  show "me s' = me s" using f by simp
  obtain u where u: "m_bmk_o (mtxs s m) = Some u" using t e'(1) by (auto simp: mutex_typed_def dest: spec [of _ m])
  have "lock_step (me s) (lock_of m s) (lock_of m s')"
    using lock_release [of "lock_of m s" u "me s"] u f by (simp add: lock_of_def)
  moreover have "lock_of m' s' = lock_of m' s" if "m' \<noteq> m" for m' using f that by (simp add: lock_of_def)
  ultimately show "refines s s'" unfolding refines_def by (metis r_into_rtranclp rtranclp.rtrancl_refl)
qed

lemma start_refines:
  assumes e: "wait_start wh wakeup now s = Inr s'" and w: "waits_ok s" "free_to_call s"
    and b: "\<forall>m. wh = Mtx_waiters m \<longrightarrow> (\<exists>u. m_bmk_o (mtxs s m) = Some u \<and> u \<noteq> me s)"
  shows "refines s (goes_on s' k)"
  unfolding refines_def
proof
  fix m
  note f = wait_start_eq [OF e, unfolded same_locks_def]
  show "lock_steps (me s) (lock_of m s) (lock_of m (goes_on s' k))"
  proof (cases "wh = Mtx_waiters m")
    case True
    then obtain u where u: "m_bmk_o (mtxs s m) = Some u" "u \<noteq> me s" using b by blast
    have "me s \<notin> set (waitq s (Mtx_waiters m))" using waits_okD(2) [OF w(1)] w(2) by simp
    then have "lock_step (me s) (lock_of m s) (lock_of m (goes_on s' k))"
      using lock_wait [of "lock_of m s" u "me s"] u f True by (simp add: lock_of_def goes_on_def)
    then show ?thesis by simp
  qed (use f in \<open>simp add: lock_of_def goes_on_def\<close>)
qed

lemma finish_refines: "refines s (snd (wait_finish wh (popped s ks)))" "me (snd (wait_finish wh (popped s ks))) = me s"
proof -
  let ?r = "snd (wait_finish wh (popped s ks))"
  show "me ?r = me s" by (simp add: wait_finish_eq)
  have "lock_of m ?r = lock_of m s \<or> lock_step (me s) (lock_of m s) (lock_of m ?r)" for m
    using lock_leave [of "me s" "lock_of m s"] by (auto simp: wait_finish_eq lock_of_def)
  then have "lock_steps (me s) (lock_of m s) (lock_of m ?r)" for m
    by (metis r_into_rtranclp rtranclp.rtrancl_refl)
  then show "refines s ?r" by (simp add: refines_def)
qed

lemma mutex_enter_loop_refines:
  assumes i: "runs X d s" and e: "mutex_enter_loop m n s = Inr (g, s')"
  shows "refines s s'"
proof -
  obtain rv y where t: "rumpuser_mutex_tryenter m s = Inr (rv, y)"
    and c: "(if rv \<noteq> 0 then bindR (wait_start (Mtx_waiters m) BLOCK_INFTIME 0 y)
        (\<lambda>s. Inr (Blocks, goes_on s (W_mutex m n)))
      else Inr (Returns 0, call_kernel y (Resched n None))) = Inr (g, s')"
    using e by (auto simp: mutex_enter_loop_def bindR_eq_Inr)
  have ty: "\<forall>m. mutex_typed (mtxs s m)" using i by (simp add: runs_def synch_inv_def)
  note f = tryenter_refines [OF ty t]
  have y: "waits_ok y" "free_to_call y" using tryenter_runs(1) [OF i t] by (simp_all add: runs_def synch_inv_def)
  have "refines y s'"
  proof (cases "rv = 0")
    case True
    then show ?thesis using c by (auto simp: call_kernel_def intro: refines_same)
  next
    case False
    then obtain z where z: "wait_start (Mtx_waiters m) BLOCK_INFTIME 0 y = Inr z" "s' = goes_on z (W_mutex m n)"
      using c by (auto simp: bindR_eq_Inr)
    show ?thesis using start_refines [OF z(1) y] f(2,3) False z(2) by auto
  qed
  then show ?thesis using refines_trans f(1,2) by blast
qed

lemma rw_tryenter_eq:
  assumes "rumpuser_rw_tryenter lk r s = Inr (rv, s')"
  shows "mtxs s' = mtxs s \<and> waitq s' = waitq s \<and> me s' = me s"
  using assms by (auto simp: rumpuser_rw_tryenter_def bindR_eq_Inr split: rumprwlock.splits if_splits)

lemma rw_enter_loop_refines:
  assumes i: "runs {} d s" and e: "rw_enter_loop lk r n s = Inr (g, s')"
  shows "refines s s'"
proof -
  obtain rv y where t: "rumpuser_rw_tryenter lk r s = Inr (rv, y)"
    and c: "(if rv \<noteq> 0 then (case rw_waithead lk r of None \<Rightarrow> Inl Null_deref
        | Some w \<Rightarrow> bindR (wait_start w BLOCK_INFTIME 0 y) (\<lambda>s. Inr (Blocks, goes_on s (W_rw lk r n))))
      else Inr (Returns 0, call_kernel y (Resched n None))) = Inr (g, s')"
    using e by (auto simp: rw_enter_loop_def bindR_eq_Inr)
  have y: "waits_ok y" "free_to_call y" using rw_tryenter_runs [OF i t] by (simp_all add: runs_def synch_inv_def)
  note f = rw_tryenter_eq [OF t]
  have "refines y s'"
  proof (cases "rv = 0")
    case True
    then show ?thesis using c by (auto simp: call_kernel_def intro: refines_same)
  next
    case False
    then obtain w z where z: "rw_waithead lk r = Some w" "wait_start w BLOCK_INFTIME 0 y = Inr z"
      "s' = goes_on z (W_rw lk r n)"
      using c by (auto simp: bindR_eq_Inr split: option.splits)
    have "\<forall>m. w \<noteq> Mtx_waiters m" using z(1) by (auto simp: rw_waithead_def split: rumprwlock.splits)
    then show ?thesis using start_refines [OF z(2) y] z(3) by auto
  qed
  then show ?thesis using refines_trans [OF refines_same] f by blast
qed

lemma enter_nowrap_refines:
  assumes "runs {} d s" "rumpuser_mutex_enter_nowrap m s = Inr s'"
  shows "refines s s'" "me s' = me s"
proof -
  have ty: "\<forall>m. mutex_typed (mtxs s m)" using assms(1) by (simp add: runs_def synch_inv_def)
  have "rumpuser_mutex_tryenter m s = Inr (0, s')"
    using assms(2) by (auto simp: rumpuser_mutex_enter_nowrap_def bindR_eq_Inr split: if_splits)
  from tryenter_refines [OF ty this] show "refines s s'" "me s' = me s" by simp_all
qed

lemma cv_count_eq: "cv_count c n s = Inr s' \<Longrightarrow> mtxs s' = mtxs s \<and> waitq s' = waitq s \<and> me s' = me s"
  by (auto simp: cv_count_def bindR_eq_Inr)

lemma unsched_wait_refines:
  assumes i: "runs {} d s" and x: "rumpuser_mutex_exit m s = Inr y"
    and w: "wait_start (Cv_waiters c) wakeup now y = Inr z"
  shows "refines s (goes_on z k)"
proof -
  have ty: "\<forall>m. mutex_typed (mtxs s m)" using i by (simp add: runs_def synch_inv_def)
  have y: "waits_ok y" "free_to_call y" using exit_runs [OF i x] by (simp_all add: runs_def synch_inv_def)
  have "refines y (goes_on z k)" using start_refines [OF w y] by simp
  then show ?thesis using refines_trans exit_refines [OF ty x] by blast
qed

lemma rw_exit_refines:
  assumes e: "rumpuser_rw_exit r s = Inr s'"
  shows "refines s s'"
proof -
  obtain rw where c: "(let s = s\<lparr>rws := (rws s)(r := rw)\<rparr> in
      if waitq s (Rw_wwait r) \<noteq> [] then (if r_o rw = None then wakeup_one (Rw_wwait r) s else Inr s)
      else if waitq s (Rw_rwait r) \<noteq> [] \<and> r_o rw = None then wakeup_all (Rw_rwait r) s
      else Inr s) = Inr s'"
    using e unfolding rumpuser_rw_exit_def by (rule bindR_InrE)
  let ?y = "s\<lparr>rws := (rws s)(r := rw)\<rparr>"
  have "wakeup_one (Rw_wwait r) ?y = Inr s' \<or> wakeup_all (Rw_rwait r) ?y = Inr s' \<or> s' = ?y"
    using c unfolding Let_def by (simp only: synch.simps split: if_splits) (simp_all only: sum.inject simp_thms)
  moreover have "refines s ?y" by (rule refines_same) simp_all
  ultimately show ?thesis
    using wakeup_other_refines(1) [of "Rw_wwait r" ?y s'] wakeup_all_refines [of "Rw_rwait r" ?y s']
      refines_trans [of s ?y s'] by auto
qed

lemma refines_locks: "(\<And>m. lock_of m s' = lock_of m s) \<Longrightarrow> refines s s'"
  by (simp add: refines_def)

lemma init_refines:
  assumes i: "runs {} d s"
  shows "rumpuser_mutex_init flags s = Inr (m, s') \<Longrightarrow> waitq s (Mtx_waiters m) = [] \<Longrightarrow> m_v (mtxs s m) = 0 \<Longrightarrow> refines s s'"
    and "rumpuser_rw_init s = Inr (m, s') \<Longrightarrow> refines s s'"
    and "rumpuser_cv_init s = Inr (m, s') \<Longrightarrow> refines s s'"
proof -
  have ty: "mutex_typed (mtxs s m)" for m using i by (simp add: runs_def synch_inv_def)
  show "refines s s'" if e: "rumpuser_mutex_init flags s = Inr (m, s')" and w: "waitq s (Mtx_waiters m) = []" "m_v (mtxs s m) = 0"
  proof -
    obtain y where y: "lock_alloc 40 s = Inr (m, y)"
      "s' = y\<lparr>mtxs := (mtxs y)(m := \<lparr>m_v = 0, m_flags = flags, m_o = None, m_bmk_o = None\<rparr>),
        waitq := (waitq y)(Mtx_waiters m := [])\<rparr>"
      using e by (auto simp: rumpuser_mutex_init_def bindR_eq_Inr)
    show ?thesis
      by (rule refines_locks)
        (use y w ty [of m] lock_alloc_runs(2,4) [OF i y(1)] in \<open>auto simp: lock_of_def mutex_typed_def\<close>)
  qed
  show "refines s s'" if e: "rumpuser_rw_init s = Inr (m, s')"
  proof -
    obtain y where y: "lock_alloc 48 s = Inr (m, y)"
      "s' = y\<lparr>rws := (rws y)(m := \<lparr>r_v = 0, r_o = None\<rparr>), waitq := (waitq y)(Rw_rwait m := [], Rw_wwait m := [])\<rparr>"
      using e by (auto simp: rumpuser_rw_init_def bindR_eq_Inr)
    show ?thesis
      by (rule refines_locks) (use y lock_alloc_runs(2,4) [OF i y(1)] in \<open>simp add: lock_of_def\<close>)
  qed
  show "refines s s'" if e: "rumpuser_cv_init s = Inr (m, s')"
  proof -
    obtain y where y: "lock_alloc 24 s = Inr (m, y)"
      "s' = y\<lparr>cvs := (cvs y)(m := \<lparr>c_nwaiters = 0\<rparr>), waitq := (waitq y)(Cv_waiters m := [])\<rparr>"
      using e by (auto simp: rumpuser_cv_init_def bindR_eq_Inr)
    show ?thesis
      by (rule refines_locks) (use y lock_alloc_runs(2,4) [OF i y(1)] in \<open>simp add: lock_of_def\<close>)
  qed
qed

lemma lock_free_eq:
  assumes "lock_free p s = Inr s'"
  shows "mtxs s' = mtxs s" "waitq s' = waitq s"
proof -
  obtain h where "s' = s\<lparr>sc := (sc s)\<lparr>heap := h\<rparr>\<rparr>"
    using assms unfolding lock_free_def bindR_eq_Inr by auto
  then show "mtxs s' = mtxs s" "waitq s' = waitq s" by simp_all
qed

text \<open>The hypercalls that touch no mutex.\<close>

lemma other_call_refines:
  "rumpuser_thread_create b f a nm j s = Inr (rv, thr, s') \<Longrightarrow> refines s s'"
  "rumpuser_curlwpop lwpop l s = Inr s' \<Longrightarrow> refines s s'"
  "rumpuser_mutex_destroy m s = Inr s' \<Longrightarrow> refines s s'"
  "rumpuser_rw_destroy r s = Inr s' \<Longrightarrow> refines s s'"
  "rumpuser_cv_destroy c s = Inr s' \<Longrightarrow> refines s s'"
  "rumpuser_rw_downgrade r s = Inr s' \<Longrightarrow> refines s s'"
  "rumpuser_rw_tryupgrade r s = (v, s') \<Longrightarrow> refines s s'"
  "rumpuser_rw_tryenter lk r s = Inr (v, s') \<Longrightarrow> refines s s'"
  "rumpuser_cv_signal c s = Inr s' \<Longrightarrow> refines s s'"
  "rumpuser_cv_broadcast c s = Inr s' \<Longrightarrow> refines s s'"
proof -
  show "rumpuser_thread_create b f a nm j s = Inr (rv, thr, s') \<Longrightarrow> refines s s'"
    by (rule refines_same) (auto simp: rumpuser_thread_create_def bindR_eq_Inr)
  show "rumpuser_curlwpop lwpop l s = Inr s' \<Longrightarrow> refines s s'"
    by (rule refines_same) (auto simp: rumpuser_curlwpop_def split: rumplwpop.splits)
  show "rumpuser_mutex_destroy m s = Inr s' \<Longrightarrow> refines s s'" "rumpuser_rw_destroy r s = Inr s' \<Longrightarrow> refines s s'"
    "rumpuser_cv_destroy c s = Inr s' \<Longrightarrow> refines s s'"
    using refines_same lock_free_eq
    by (auto simp: rumpuser_mutex_destroy_def rumpuser_rw_destroy_def rumpuser_cv_destroy_def)
  show "rumpuser_rw_downgrade r s = Inr s' \<Longrightarrow> refines s s'"
    by (rule refines_same) (auto simp: rumpuser_rw_downgrade_def)
  show "rumpuser_rw_tryupgrade r s = (v, s') \<Longrightarrow> refines s s'"
    by (rule refines_same) (auto simp: rumpuser_rw_tryupgrade_def split: if_splits)
  show "rumpuser_rw_tryenter lk r s = Inr (v, s') \<Longrightarrow> refines s s'" using refines_same rw_tryenter_eq by blast
  show "rumpuser_cv_signal c s = Inr s' \<Longrightarrow> refines s s'"
    using wakeup_other_refines(1) [of "Cv_waiters c" s s'] by (simp add: rumpuser_cv_signal_def)
  show "rumpuser_cv_broadcast c s = Inr s' \<Longrightarrow> refines s s'"
    using wakeup_all_refines [of "Cv_waiters c" s s'] by (simp add: rumpuser_cv_broadcast_def)
qed

lemma goes_on_refines: "refines s y \<Longrightarrow> refines s (goes_on (call_kernel y c) k)"
  by (simp add: refines_def lock_of_def goes_on_def call_kernel_def)

lemma cv_wait_refines:
  assumes i: "runs {} d s" and c: "cv_count c 1 s = Inr y"
  shows "refines s y"
  using cv_count_eq [OF c] by (simp add: refines_same)

lemma cv_wait_nowrap_refines:
  assumes i: "runs {} d s" and e: "rumpuser_cv_wait_nowrap c m s = Inr (g, s')"
  shows "refines s s'"
proof -
  obtain y z v where y: "cv_count c 1 s = Inr y" "rumpuser_mutex_exit m y = Inr z"
    "wait_start (Cv_waiters c) BLOCK_INFTIME 0 z = Inr v" "s' = goes_on v (W_cv c m None)"
    using e unfolding rumpuser_cv_wait_nowrap_def bindR_eq_Inr by blast
  show ?thesis
    using unsched_wait_refines [OF count_runs [OF i y(1)] y(2,3)] y(4) cv_count_eq [OF y(1)]
      refines_trans [OF refines_same [of y s]] by simp
qed

lemma hypercall_refines:
  assumes i: "runs {} d s" and e: "hypercall c s = Inr (g, s')" and m: "idle_memory c g s"
  shows "refines s s'"
proof -
  have ty: "\<forall>m. mutex_typed (mtxs s m)" using i by (simp add: runs_def synch_inv_def)
  show ?thesis
  proof (cases c)
    case (H_mutex_init flags)
    then obtain p where "rumpuser_mutex_init flags s = Inr (p, s')" "g = Returns (int p)"
      using e by (auto simp: bindR_eq_Inr)
    then show ?thesis using init_refines(1) [OF i, of flags p s'] m H_mutex_init by (simp add: idle_memory_def)
  next
    case (H_mutex_enter x)
    then obtain rv y where t: "rumpuser_mutex_tryenter x s = Inr (rv, y)"
      and s': "s' = (if rv \<noteq> 0 then goes_on (call_kernel y (Unsched None)) (W_mutex_unsched x) else y)"
      using e by (auto simp: rumpuser_mutex_enter_def bindR_eq_Inr split: if_splits)
    show ?thesis using s' tryenter_refines(1) [OF ty t] goes_on_refines by simp
  next
    case (H_rw_enter lk r)
    then obtain rv y where t: "rumpuser_rw_tryenter lk r s = Inr (rv, y)"
      and s': "s' = (if rv \<noteq> 0 then goes_on (call_kernel y (Unsched None)) (W_rw_unsched lk r) else y)"
      using e by (auto simp: rumpuser_rw_enter_def bindR_eq_Inr split: if_splits)
    show ?thesis using s' other_call_refines(8) [OF t] goes_on_refines by simp
  next
    case (H_cv_wait c' m)
    then show ?thesis using e cv_wait_refines [OF i] goes_on_refines by (auto simp: rumpuser_cv_wait_def bindR_eq_Inr)
  next
    case (H_cv_timedwait c' m a b)
    then show ?thesis using e cv_wait_refines [OF i] goes_on_refines by (auto simp: rumpuser_cv_timedwait_def bindR_eq_Inr)
  next
    case (H_cv_wait_nowrap c' m)
    then show ?thesis using e cv_wait_nowrap_refines [OF i] by simp
  next
    case (H_rw_tryupgrade r)
    then show ?thesis using e other_call_refines(7) [of r s "fst (rumpuser_rw_tryupgrade r s)" s']
      by (simp add: case_prod_unfold prod_eq_iff)
  qed (use e in \<open>auto simp: bindR_eq_Inr intro: other_call_refines init_refines(2,3) [OF i] rw_exit_refines
      exit_refines(1) [OF ty] enter_nowrap_refines(1) [OF i] tryenter_refines(1) [OF ty]\<close>)
qed

lemma count_refines:
  assumes "runs {} d y" "rumpuser_mutex_enter_nowrap m y = Inr z" "cv_count c n z = Inr s'"
  shows "refines y s'"
proof -
  have "refines z s'" using cv_count_eq [OF assms(3)] by (simp add: refines_same)
  then show ?thesis using refines_trans enter_nowrap_refines [OF assms(1,2)] by blast
qed

lemma cv_resched_refines:
  assumes i: "runs {} d y" and e: "cv_resched kspin c m n rv y = Inr (g, s')"
  shows "refines y s'"
proof (cases "m_flags (mtxs y m) AND kspin = kspin")
  case True
  then show ?thesis using e by (auto simp: cv_resched_def intro!: goes_on_refines refines_same)
next
  case False
  then show ?thesis using e enter_nowrap_refines(1) [OF i] goes_on_refines
    by (auto simp: cv_resched_def bindR_eq_Inr)
qed

lemma cv_back_refines:
  assumes i: "runs {} d y" and e: "cv_back c m rv y = Inr (g, s')"
  shows "refines y s'"
proof (cases m)
  case None
  then have "cv_count c (- 1) y = Inr s'" using e by (auto simp: cv_back_def bindR_eq_Inr)
  then show ?thesis using cv_count_eq refines_same by blast
next
  case (Some m')
  then obtain z where "rumpuser_mutex_enter_nowrap m' y = Inr z" "cv_count c (- 1) z = Inr s'"
    using e by (auto simp: cv_back_def bindR_eq_Inr)
  then show ?thesis by (rule count_refines [OF i])
qed

lemma resume_refines:
  assumes i: "synch_ok s" and e: "resume kspin nlocks now s = Inr (g, s')"
  shows "refines s s'"
proof (cases "wcont s (me s)")
  case Nil
  then show ?thesis using e by (simp add: resume_def refines_same)
next
  case (Cons k ks)
  have e': "resume_at kspin nlocks now k (popped s ks) = Inr (g, s')" using e Cons by (simp add: resume_def)
  note pop = pop_runs [OF i Cons] and fin = finish_runs [OF i Cons]
  have p: "refines s s'" if "refines (popped s ks) s'"
    using that by (simp add: refines_def lock_of_def)
  have q: "refines s s'" if "refines (snd (wait_finish wh (popped s ks))) s'" for wh
    using refines_trans [OF finish_refines(1) that finish_refines(2)] .
  show ?thesis
  proof (cases k)
    case (W_mutex_unsched m)
    then show ?thesis using mutex_enter_loop_refines [of "{}"] pop e' p by (simp add: resume_at_def)
  next
    case (W_mutex m n)
    then have "refines (snd (wait_finish (Mtx_waiters m) (popped s ks))) s'"
      using mutex_enter_loop_refines [of "{m}" _ _ m n] fin e' by (simp add: resume_at_def)
    then show ?thesis by (rule q)
  next
    case (W_rw_unsched lk r)
    then show ?thesis using rw_enter_loop_refines pop e' p by (simp add: resume_at_def)
  next
    case (W_rw lk r n)
    then obtain w where w: "rw_waithead lk r = Some w"
      "rw_enter_loop lk r n (snd (wait_finish w (popped s ks))) = Inr (g, s')"
      using e' by (auto simp: resume_at_def split: option.splits)
    show ?thesis by (rule q [OF rw_enter_loop_refines [OF _ w(2)]]) (use fin W_rw w(1) in simp)
  next
    case (W_cv_unsched c m wakeup)
    then have r: "runs {} (unit_at (Some c)) (popped s ks)" using pop by simp
    show ?thesis
      using e' W_cv_unsched p unsched_wait_refines [OF r]
      by (auto simp: resume_at_def cv_unsched_wait_def bindR_eq_Inr)
  next
    case (W_cv c m n)
    let ?y = "snd (wait_finish (Cv_waiters c) (popped s ks))"
    have y: "runs {} (unit_at (Some c)) ?y" using fin W_cv by simp
    have "refines ?y s'"
    proof (cases n)
      case None
      then show ?thesis using e' W_cv count_refines [OF y]
        by (auto simp: resume_at_def cv_resume_def bindR_eq_Inr case_prod_unfold Let_def)
    next
      case (Some n')
      then show ?thesis using e' W_cv cv_resched_refines [OF y]
        by (simp add: resume_at_def cv_resume_def case_prod_unfold Let_def)
    qed
    then show ?thesis by (rule q)
  next
    case (W_cv_back c m rv)
    then show ?thesis using cv_back_refines pop e' p by (simp add: resume_at_def)
  qed
qed

lemma synch_step_refines: "synch_ok s \<Longrightarrow> synch_step kspin s s' \<Longrightarrow> refines s s'"
  by (erule synch_stepE) (auto simp: runs_def intro: hypercall_refines resume_refines refines_same)

end
