(* ===== verification/SynchIface.thy ===== *)
theory SynchIface
  imports SynchLock SchedExample
begin

text \<open>
  The properties of the synchronisation hypercalls: the invariant and the refinement over every
  run, the wake-ups on a good state of the scheduler, and what the reader-writer lock does not
  exclude.
\<close>

section \<open>The state at the start\<close>

definition synch_boot :: "sched \<Rightarrow> synch" where
  "synch_boot k = \<lparr>sc = k, waitq = \<lambda>_. [], onlist = \<lambda>_. False,
     mtxs = \<lambda>_. \<lparr>m_v = 0, m_flags = 0, m_o = None, m_bmk_o = None\<rparr>, rws = \<lambda>_. \<lparr>r_v = 0, r_o = None\<rparr>,
     cvs = \<lambda>_. \<lparr>c_nwaiters = 0\<rparr>, current_lwp = \<lambda>_. None, wcont = \<lambda>_. [], kcalls = []\<rparr>"

lemma synch_boot_ok: "synch_ok (synch_boot k)"
  by (simp add: synch_boot_def synch_inv_def waits_ok_def waits_at_def mutex_typed_def no_lost_wakeup_def
      counts_ok_def cv_users_def)

lemma cv_users_pos:
  assumes "finite {t. wcont s t \<noteq> []}"
  shows "cv_users s c \<noteq> 0 \<longleftrightarrow> (\<exists>t. \<exists>k \<in> set (wcont s t). kont_cv k = Some c)"
proof -
  have "cv_users s c = 0 \<longleftrightarrow> (\<forall>t \<in> {t. wcont s t \<noteq> []}. inside c (wcont s t) = 0)"
    unfolding cv_users_def by (rule sum_nonneg_eq_0_iff [OF assms]) (simp add: inside_def)
  also have "\<dots> \<longleftrightarrow> (\<forall>t. \<forall>k \<in> set (wcont s t). kont_cv k \<noteq> Some c)"
    by (simp add: inside_def filter_empty_conv) (metis empty_iff list.set(1))
  finally show ?thesis by blast
qed

section \<open>Every run\<close>

text \<open>
  C5. The state of the synchronisation hypercalls is well-formed in every state that a run from
  a well-formed one reaches, the state at the start being one: no thread is twice on a wait
  queue, and a thread is on a queue exactly when it is inside \<open>wait\<close> on it and has not been
  woken; \<open>wait\<close> returns 0 exactly when the thread has been taken off the queue by a wake-up,
  and leaves no dead waiter behind when it times out; a mutex is either free without an owner
  or taken with one; the counter of a condition variable is the number of calls that are
  inside a wait on it.
\<close>

theorem synch_run_typed:
  assumes "synch_ok s" "(synch_step kspin)\<^sup>*\<^sup>* s s'"
  shows "synch_ok (synch_boot k) \<and>
    (\<forall>wh. distinct (waitq s' wh)) \<and>
    (\<forall>wh t. t \<in> set (waitq s' wh) \<longleftrightarrow> onlist s' t \<and> waits_at s' t = Some wh) \<and>
    (\<forall>wh. waits_at s' (me s') = Some wh \<longrightarrow>
      (fst (wait_finish wh s') = 0 \<longleftrightarrow> me s' \<notin> set (waitq s' wh)) \<and>
      (\<forall>wh'. me s' \<notin> set (waitq (snd (wait_finish wh s')) wh'))) \<and>
    (\<forall>m. mutex_typed (mtxs s' m)) \<and>
    (\<forall>c. c_nwaiters (cvs s' c) = cv_users s' c) \<and>
    (\<forall>c. rumpuser_cv_has_waiters c s' \<longleftrightarrow> (\<exists>t. \<exists>k \<in> set (wcont s' t). kont_cv k = Some c))"
proof -
  have i: "synch_ok s'" by (rule synch_steps_inv [OF assms(2,1)])
  then have w: "waits_ok s'" and n: "counts_ok (\<lambda>_. 0) s'" by (simp_all add: synch_inv_def)
  have q: "t \<in> set (waitq s' wh) \<longleftrightarrow> onlist s' t \<and> waits_at s' t = Some wh" "distinct (waitq s' wh)"
    for wh t using waits_okD [OF w] by simp_all
  have f: "(fst (wait_finish wh s') = 0 \<longleftrightarrow> me s' \<notin> set (waitq s' wh)) \<and>
      (\<forall>wh'. me s' \<notin> set (waitq (snd (wait_finish wh s')) wh'))" if "waits_at s' (me s') = Some wh" for wh
    using that q by (auto simp: wait_finish_eq)
  have c: "rumpuser_cv_has_waiters c s' \<longleftrightarrow> (\<exists>t. \<exists>k \<in> set (wcont s' t). kont_cv k = Some c)" for c
    using cv_users_pos [of s' c] n by (simp add: rumpuser_cv_has_waiters_def counts_ok_def)
  show ?thesis
    using synch_boot_ok q f c i n by (simp add: synch_inv_def counts_ok_def)
qed

text \<open>Thread 11 takes a mutex; thread 12 finds it taken and goes on to wait for it.\<close>

abbreviation at_thread :: "nat \<Rightarrow> synch \<Rightarrow> synch" where
  "at_thread t s \<equiv> s\<lparr>sc := (sc s)\<lparr>bmk_current := t\<rparr>\<rparr>"

theorem synch_run_typed_witness:
  "\<exists>s1 s2 k. hypercall (H_mutex_tryenter 8) (at_thread 11 (synch_boot k)) = Inr (Returns 0, s1) \<and>
     hypercall (H_mutex_enter 8) (at_thread 12 s1) = Inr (Calls, s2) \<and>
     wcont s2 12 = [W_mutex_unsched 8] \<and> mutex_typed (mtxs s2 8) \<and> \<not> rumpuser_cv_has_waiters 8 s2"
proof -
  let ?s = "synch_boot ex_sched"
  obtain s1 where s1: "hypercall (H_mutex_tryenter 8) (at_thread 11 ?s) = Inr (Returns 0, s1)"
    "wcont s1 = (\<lambda>_. [])" "m_v (mtxs s1 8) = 1" "m_bmk_o (mtxs s1 8) = Some 11"
    by (simp add: rumpuser_mutex_tryenter_def synch_boot_def)
  obtain s2 where s2: "hypercall (H_mutex_enter 8) (at_thread 12 s1) = Inr (Calls, s2)" "wcont s2 12 = [W_mutex_unsched 8]"
    using s1 by (simp add: rumpuser_mutex_enter_def rumpuser_mutex_tryenter_def goes_on_def call_kernel_def)
  have "synch_step 3 ?s (at_thread 11 ?s)" by (rule step_sched)
  moreover have "synch_step 3 (at_thread 11 ?s) s1"
    by (rule step_call [OF _ s1(1)]) (simp_all add: waits_at_def synch_boot_def idle_memory_def)
  moreover have "synch_step 3 s1 (at_thread 12 s1)" by (rule step_sched)
  moreover have "synch_step 3 (at_thread 12 s1) s2"
    by (rule step_call [OF _ s2(1)]) (simp_all add: waits_at_def s1 idle_memory_def)
  ultimately have run: "(synch_step 3)\<^sup>*\<^sup>* ?s s2" by (meson converse_rtranclp_into_rtranclp rtranclp.rtrancl_refl)
  have no: "\<not> (\<exists>t. \<exists>k \<in> set (wcont s2 t). kont_cv k = Some 8)"
    using s1 s2(1) by (auto simp: rumpuser_mutex_enter_def rumpuser_mutex_tryenter_def goes_on_def call_kernel_def)
  show ?thesis
    using synch_run_typed [OF synch_boot_ok run] s1(1) s2 no by blast
qed

text \<open>
  C6. No wake-up of a mutex is lost: in every state that a run from a well-formed one reaches,
  when a mutex is free and threads are queued on it, some thread has been woken for it and has
  yet to try again, so that the queue cannot be forgotten; and a waiter of it that gets
  the processor then takes the mutex.
\<close>

theorem mutex_no_lost_wakeup:
  assumes "synch_ok s" "(synch_step kspin)\<^sup>*\<^sup>* s s'" "m_v (mtxs s' m) = 0" "waitq s' (Mtx_waiters m) \<noteq> []"
  shows "(\<exists>t n ks. wcont s' t = W_mutex m n # ks \<and> \<not> onlist s' t) \<and>
    (\<forall>n ks. wcont s' (me s') = W_mutex m n # ks \<longrightarrow>
       (\<exists>s''. resume kspin nlocks now s' = Inr (Returns 0, s'') \<and> m_bmk_o (mtxs s'' m) = Some (me s')))"
proof -
  have i: "synch_ok s'" by (rule synch_steps_inv [OF assms(2,1)])
  then have "retries s' m" using assms(3,4) by (simp add: synch_inv_def no_lost_wakeup_def)
  moreover have t: "m_bmk_o (mtxs s' m) = None"
    using i assms(3) by (auto simp: synch_inv_def mutex_typed_def dest: spec [of _ m])
  have "\<exists>s''. resume kspin nlocks now s' = Inr (Returns 0, s'') \<and> m_bmk_o (mtxs s'' m) = Some (me s')"
    if "wcont s' (me s') = W_mutex m n # ks" for n ks
    using that assms(3) t
    by (auto simp: resume_def resume_at_def mutex_enter_loop_def rumpuser_mutex_tryenter_def wait_finish_eq call_kernel_def)
  ultimately show ?thesis unfolding retries_def by blast
qed

text \<open>Thread 11 has been woken for mutex 8, on which thread 12 is still queued.\<close>

definition ex_handover :: synch where
  "ex_handover = (synch_boot ex_sched)
     \<lparr>sc := ex_sched\<lparr>bmk_current := 11\<rparr>, waitq := (\<lambda>_. [])(Mtx_waiters 8 := [12]), onlist := (\<lambda>_. False)(12 := True),
      wcont := (\<lambda>_. [])(11 := [W_mutex 8 0], 12 := [W_mutex 8 0])\<rparr>"

lemma ex_handover_ok: "synch_ok ex_handover"
proof -
  let ?s = ex_handover
  have T: "{t. wcont ?s t \<noteq> []} = {11, 12}" by (auto simp: ex_handover_def)
  have "waits_ok ?s"
    by (rule waits_okI) (auto simp: ex_handover_def waits_at_def synch_boot_def split: if_splits)
  moreover have "retries ?s 8"
    unfolding retries_def by (rule exI [of _ 11]) (simp add: ex_handover_def synch_boot_def)
  moreover have "waitq ?s (Mtx_waiters m) \<noteq> [] \<Longrightarrow> m = 8" for m
    by (simp add: ex_handover_def synch_boot_def split: if_splits)
  moreover have "counts_ok (\<lambda>_. 0) ?s"
    unfolding counts_ok_def cv_users_def T by (simp add: ex_handover_def synch_boot_def inside_def)
  moreover have "mutex_typed (mtxs ?s m)" for m
    by (simp add: ex_handover_def synch_boot_def mutex_typed_def)
  ultimately show ?thesis unfolding synch_inv_def no_lost_wakeup_def by blast
qed

theorem mutex_no_lost_wakeup_witness:
  "m_v (mtxs ex_handover 8) = 0 \<and> waitq ex_handover (Mtx_waiters 8) = [12] \<and>
    (\<exists>t n ks. wcont ex_handover t = W_mutex 8 n # ks \<and> \<not> onlist ex_handover t) \<and>
    (\<exists>s''. resume 3 0 0 ex_handover = Inr (Returns 0, s'') \<and> m_bmk_o (mtxs s'' 8) = Some 11)"
proof -
  have h: "m_v (mtxs ex_handover 8) = 0" "waitq ex_handover (Mtx_waiters 8) = [12]" "me ex_handover = 11"
    "wcont ex_handover 11 = W_mutex 8 0 # []"
    by (simp_all add: ex_handover_def synch_boot_def)
  have ne: "waitq ex_handover (Mtx_waiters 8) \<noteq> []" using h(2) by simp
  note c = mutex_no_lost_wakeup [OF ex_handover_ok rtranclp.rtrancl_refl h(1) ne, of 3 0 0]
  have "\<exists>s''. resume 3 0 0 ex_handover = Inr (Returns 0, s'') \<and> m_bmk_o (mtxs s'' 8) = Some 11"
    using conjunct2 [OF c] h(4) unfolding h(3) by blast
  then show ?thesis using conjunct1 [OF c] h(1,2) by blast
qed

text \<open>
  C7. A mutex implements the abstract lock \<open>lock_step\<close>: in every run from a well-formed state,
  whatever the hypercalls, their resumptions and the scheduler do, each step changes each mutex
  only by steps of the abstract lock made by the thread that runs; in particular the owner only
  changes from none to the running thread or to none, and the queue is served from its front.
\<close>

theorem mutex_refines_lock:
  assumes "synch_ok s" "(synch_step kspin)\<^sup>*\<^sup>* s s'" "synch_step kspin s' s''"
  shows "(lock_step (me s'))\<^sup>*\<^sup>* (lock_of m s') (lock_of m s'') \<and>
    (owner (lock_of m s'') = owner (lock_of m s') \<or> owner (lock_of m s'') \<in> {None, Some (me s')})"
proof -
  have r: "(lock_step (me s'))\<^sup>*\<^sup>* (lock_of m s') (lock_of m s'')"
    using synch_step_refines [OF synch_steps_inv [OF assms(2,1)] assms(3)] by (simp add: refines_def)
  then have "owner (lock_of m s'') = owner (lock_of m s') \<or> owner (lock_of m s'') \<in> {None, Some (me s')}"
    by (induction rule: rtranclp_induct) (auto elim!: lock_step.cases)
  then show ?thesis using r by simp
qed

theorem mutex_refines_lock_witness:
  "\<exists>s''. resume 3 0 0 ex_handover = Inr (Returns 0, s'') \<and>
    (lock_step 11)\<^sup>*\<^sup>* \<lparr>owner = None, queue = [12]\<rparr> \<lparr>owner = Some 11, queue = [12]\<rparr>"
proof -
  have h: "me ex_handover = 11" "lock_of 8 ex_handover = \<lparr>owner = None, queue = [12]\<rparr>"
    by (simp_all add: ex_handover_def synch_boot_def lock_of_def)
  obtain s'' where s'': "resume 3 0 0 ex_handover = Inr (Returns 0, s'')"
    "lock_of 8 s'' = \<lparr>owner = Some 11, queue = [12]\<rparr>"
    by (simp add: resume_def resume_at_def mutex_enter_loop_def rumpuser_mutex_tryenter_def wait_finish_eq
        call_kernel_def ex_handover_def synch_boot_def lock_of_def)
  note c = mutex_refines_lock [OF ex_handover_ok rtranclp.rtrancl_refl step_go [OF s''(1)], of 8]
  show ?thesis using conjunct1 [OF c] s''(1) unfolding h s''(2) by blast
qed

section \<open>Wake-ups and the scheduler\<close>

definition sleepers :: "waithead \<Rightarrow> synch \<Rightarrow> bool" where
  "sleepers wh s \<longleftrightarrow> set (waitq s wh) \<subseteq> set (threadq (sc s)) - {me s}"

lemma wakeup_one_good:
  assumes g: "sched_good I E P (sc s)" and w: "sleepers wh s"
  obtains s' where "wakeup_one wh s = Inr s'" "sched_good I E P (sc s')" "sleepers wh s'"
    "set (runq (sc s)) \<union> set (take 1 (waitq s wh)) \<subseteq> set (runq (sc s'))" "waitq s' wh = drop 1 (waitq s wh)"
proof (cases "waitq s wh")
  case Nil
  then show ?thesis using that [of s] g w by (simp add: wakeup_one_def)
next
  case (Cons t ts)
  have t: "t \<in> set (threadq (sc s))" "t \<noteq> bmk_current (sc s)" using w Cons by (simp_all add: sleepers_def)
  obtain k where k: "bmk_sched_wake (sc s) t = Inr k" "sched_good I E P k" "t \<in> set (runq k)"
    using wake_good [OF g t(1)] t(2) by blast
  note f = wake_queues [OF k(1)]
  show ?thesis
    by (rule that [of "s\<lparr>waitq := (waitq s)(wh := ts), onlist := (onlist s)(t := False), sc := k\<rparr>"])
      (use k f w Cons in \<open>auto simp: wakeup_one_def sleepers_def\<close>)
qed

lemma wakeup_all_good:
  assumes "sched_good I E P (sc s)" "sleepers wh s"
  shows "\<exists>s'. wakeup_all wh s = Inr s' \<and> sched_good I E P (sc s') \<and>
    set (runq (sc s)) \<union> set (waitq s wh) \<subseteq> set (runq (sc s')) \<and> waitq s' wh = []"
  using assms
proof (induction "length (waitq s wh)" arbitrary: s)
  case 0
  then show ?case by (simp add: wakeup_all_one [of wh s])
next
  case (Suc n)
  obtain y where y: "wakeup_one wh s = Inr y" "sched_good I E P (sc y)" "sleepers wh y"
    "set (runq (sc s)) \<union> set (take 1 (waitq s wh)) \<subseteq> set (runq (sc y))" "waitq y wh = drop 1 (waitq s wh)"
    by (rule wakeup_one_good [OF Suc.prems])
  have ne: "waitq s wh \<noteq> []" using Suc.hyps(2) by auto
  have "n = length (waitq y wh)" using Suc.hyps(2) y(5) by simp
  from Suc.hyps(1) [OF this y(2,3)] obtain s' where s': "wakeup_all wh y = Inr s'" "sched_good I E P (sc s')"
    "set (runq (sc y)) \<union> set (waitq y wh) \<subseteq> set (runq (sc s'))" "waitq s' wh = []" by blast
  have "set (waitq s wh) = set (take 1 (waitq s wh)) \<union> set (drop 1 (waitq s wh))"
    by (metis append_take_drop_id set_append)
  then have "set (runq (sc s)) \<union> set (waitq s wh) \<subseteq> set (runq (sc s'))" using y(4,5) s'(3) by auto
  then show ?case using y(1) s'(1,2,4) ne by (simp add: wakeup_all_one [of wh s])
qed

text \<open>
  C16. When the scheduler is in a good state and the waiters of a condition variable are live
  threads other than the running one, \<open>rumpuser_cv_broadcast\<close> ends, with the queue empty, every
  waiter runnable and the scheduler in a good state; and \<open>rumpuser_mutex_exit\<close> by the holder
  ends with the mutex free and the first waiter runnable.
\<close>

theorem wakeups_end:
  assumes "sched_good I E P (sc s)" "sleepers (Cv_waiters c) s" "sleepers (Mtx_waiters m) s" "m_v (mtxs s m) = 1"
  shows "(\<exists>s'. rumpuser_cv_broadcast c s = Inr s' \<and> waitq s' (Cv_waiters c) = [] \<and>
      set (waitq s (Cv_waiters c)) \<subseteq> set (runq (sc s')) \<and> sched_good I E P (sc s')) \<and>
    (\<exists>s'. rumpuser_mutex_exit m s = Inr s' \<and> m_v (mtxs s' m) = 0 \<and> m_bmk_o (mtxs s' m) = None \<and>
      waitq s' (Mtx_waiters m) = tl (waitq s (Mtx_waiters m)) \<and>
      (waitq s (Mtx_waiters m) \<noteq> [] \<longrightarrow> hd (waitq s (Mtx_waiters m)) \<in> set (runq (sc s'))) \<and> sched_good I E P (sc s'))"
proof (rule conjI)
  show "\<exists>s'. rumpuser_cv_broadcast c s = Inr s' \<and> waitq s' (Cv_waiters c) = [] \<and>
      set (waitq s (Cv_waiters c)) \<subseteq> set (runq (sc s')) \<and> sched_good I E P (sc s')"
    using wakeup_all_good [OF assms(1,2)] by (auto simp: rumpuser_cv_broadcast_def)
  let ?y = "s\<lparr>mtxs := (mtxs s)(m := (mtxs s m)\<lparr>m_v := 0, m_o := None, m_bmk_o := None\<rparr>)\<rparr>"
  have y: "sched_good I E P (sc ?y)" "sleepers (Mtx_waiters m) ?y" using assms(1,3) by (simp_all add: sleepers_def)
  obtain s' where s': "wakeup_one (Mtx_waiters m) ?y = Inr s'" "sched_good I E P (sc s')"
    "set (runq (sc ?y)) \<union> set (take 1 (waitq ?y (Mtx_waiters m))) \<subseteq> set (runq (sc s'))"
    "waitq s' (Mtx_waiters m) = drop 1 (waitq ?y (Mtx_waiters m))"
    by (rule wakeup_one_good [OF y])
  have "mtxs s' = mtxs ?y" using wakeup_one_eq [OF s'(1)] by (simp add: same_locks_def)
  moreover have "waitq s (Mtx_waiters m) \<noteq> [] \<longrightarrow> hd (waitq s (Mtx_waiters m)) \<in> set (runq (sc s'))"
    using s'(3) by (cases "waitq s (Mtx_waiters m)") simp_all
  ultimately show "\<exists>s'. rumpuser_mutex_exit m s = Inr s' \<and> m_v (mtxs s' m) = 0 \<and> m_bmk_o (mtxs s' m) = None \<and>
      waitq s' (Mtx_waiters m) = tl (waitq s (Mtx_waiters m)) \<and>
      (waitq s (Mtx_waiters m) \<noteq> [] \<longrightarrow> hd (waitq s (Mtx_waiters m)) \<in> set (runq (sc s'))) \<and> sched_good I E P (sc s')"
    using s'(1,2,4) assms(4) by (simp add: rumpuser_mutex_exit_def drop_Suc)
qed

text \<open>The main thread of the example holds a mutex, and its worker waits for a condition.\<close>

definition ex_signal :: synch where
  "ex_signal = (synch_boot ex_sched)
     \<lparr>waitq := (\<lambda>_. [])(Cv_waiters 8 := [ex_worker]),
      mtxs := (\<lambda>_. \<lparr>m_v = 1, m_flags = 0, m_o = None, m_bmk_o = Some ex_main\<rparr>)\<rparr>"

theorem wakeups_end_witness:
  "(\<exists>s'. rumpuser_cv_broadcast 8 ex_signal = Inr s' \<and> waitq s' (Cv_waiters 8) = [] \<and> ex_worker \<in> set (runq (sc s'))) \<and>
   (\<exists>s'. rumpuser_mutex_exit 16 ex_signal = Inr s' \<and> m_v (mtxs s' 16) = 0)"
proof -
  have g: "sched_good {} [ex_tls] {#} (sc ex_signal)" using ex_good by (simp add: ex_signal_def synch_boot_def)
  have w: "sleepers (Cv_waiters 8) ex_signal" "sleepers (Mtx_waiters 16) ex_signal" "m_v (mtxs ex_signal 16) = 1"
    "waitq ex_signal (Cv_waiters 8) = [ex_worker]"
    using ex_distinct by (auto simp: ex_signal_def synch_boot_def sleepers_def)
  show ?thesis using wakeups_end [OF g w(1-3)] w(4) by auto
qed

section \<open>Reader-writer locks\<close>

text \<open>
  C26. A reader-writer lock does not exclude a writer while there are readers: on a free lock,
  thread \<open>a\<close> enters as a reader and thread \<open>b\<close> then enters as a writer without waiting; when
  \<open>a\<close> leaves, it is the hold of \<open>b\<close> that is dropped and not its own, so that a third thread
  enters as a writer while \<open>b\<close> has not left, and the lock keeps counting a reader.
\<close>

theorem rw_writers_overlap:
  assumes free: "rws s r = \<lparr>r_v = 0, r_o = None\<rparr>" "waitq s (Rw_wwait r) = []" "waitq s (Rw_rwait r) = []"
    and lwps: "current_lwp s b = Some lb" "current_lwp s c = Some lc" "lb \<noteq> lc"
  shows "\<exists>s1 s2 s3 s4. rumpuser_rw_tryenter RUMPUSER_RW_READER r (at_thread a s) = Inr (0, s1) \<and>
    rumpuser_rw_tryenter RUMPUSER_RW_WRITER r (at_thread b s1) = Inr (0, s2) \<and>
    rumpuser_rw_held RUMPUSER_RW_READER r s2 = Some True \<and> rumpuser_rw_held RUMPUSER_RW_WRITER r s2 = Some True \<and>
    rumpuser_rw_exit r (at_thread a s2) = Inr s3 \<and>
    rumpuser_rw_held RUMPUSER_RW_WRITER r (at_thread b s3) = Some False \<and>
    rumpuser_rw_tryenter RUMPUSER_RW_WRITER r (at_thread c s3) = Inr (0, s4) \<and> r_v (rws s4 r) = 1"
  using assms
  by (simp add: rumpuser_rw_tryenter_def rumpuser_rw_exit_def rumpuser_rw_held_def rumpuser_curlwp_def Let_def chk32_def)

theorem rw_writers_overlap_witness:
  "\<exists>s s2 s3 s4. rumpuser_rw_tryenter RUMPUSER_RW_WRITER 8 (at_thread 12 s) = Inr (0, s2) \<and>
    rumpuser_rw_held RUMPUSER_RW_READER 8 s2 = Some True \<and> rumpuser_rw_exit 8 (at_thread 11 s2) = Inr s3 \<and>
    rumpuser_rw_tryenter RUMPUSER_RW_WRITER 8 (at_thread 13 s3) = Inr (0, s4)"
proof -
  let ?s = "(synch_boot ex_sched)\<lparr>current_lwp := [11 \<mapsto> 101, 12 \<mapsto> 102, 13 \<mapsto> 103]\<rparr>"
  have "rws ?s 8 = \<lparr>r_v = 0, r_o = None\<rparr>" "waitq ?s (Rw_wwait 8) = []" "waitq ?s (Rw_rwait 8) = []"
    "current_lwp ?s 12 = Some 102" "current_lwp ?s 13 = Some 103" "(102::nat) \<noteq> 103"
    by (simp_all add: synch_boot_def)
  from rw_writers_overlap [OF this, of 11] show ?thesis by blast
qed

end
