(* ===== verification/UserMalloc.thy ===== *)
theory UserMalloc
  imports Memalloc
begin

text \<open>
  The allocation functions of the C library, \<open>lib/librumprun_base/malloc.c\<close>, on the allocator of
  \<open>Memalloc\<close>. Only \<open>posix_memalign\<close> reports an error number; none of them sets \<open>errno\<close>.
\<close>

abbreviation BMK_ENOMEM :: int where "BMK_ENOMEM \<equiv> 12"

definition posix_memalign :: "mstate \<Rightarrow> nat \<Rightarrow> nat \<Rightarrow> (int \<times> nat option \<times> mstate) res" where
  "posix_memalign s align nbytes =
     bindR (bmk_memalloc s nbytes align BMK_MEMWHO_USER) (\<lambda>(v, s).
       Inr (if v \<noteq> None then 0 else BMK_ENOMEM, v, s))"

definition malloc :: "mstate \<Rightarrow> nat \<Rightarrow> (nat option \<times> mstate) res" where
  "malloc s nbytes = bmk_memalloc s nbytes 8 BMK_MEMWHO_USER"

definition calloc :: "mstate \<Rightarrow> nat \<Rightarrow> nat \<Rightarrow> (nat option \<times> mstate) res" where
  "calloc s n nbytes = bmk_memcalloc s n nbytes BMK_MEMWHO_USER"

definition realloc :: "mstate \<Rightarrow> nat option \<Rightarrow> nat \<Rightarrow> (nat option \<times> mstate) res" where
  "realloc s cp nbytes = bmk_memrealloc_user s cp nbytes"

definition free :: "mstate \<Rightarrow> nat option \<Rightarrow> mstate res" where
  "free s cp = bmk_memfree s cp BMK_MEMWHO_USER"

end
