(* ===== verification/Lwp.thy ===== *)
theory Lwp
  imports Sched UserMalloc
begin

text \<open>
  The lightweight processes of the C library, \<open>lib/librumprun_base/_lwp.c\<close>, on top of the
  scheduler. The pointer \<open>me\<close> is thread-local, so that it is a map from the address of a thread
  control block. The calls into the rump kernel are entries of a log, and what they return is an
  argument; \<open>_lwp_park\<close> is cut at the block. The values of \<open>lc_curcpu\<close> that NetBSD reserves are
  constructors.
\<close>

section \<open>State\<close>

abbreviation ESRCH :: int where "ESRCH \<equiv> 3"
abbreviation ENOSYS :: int where "ENOSYS \<equiv> 78"
abbreviation EBUSY :: int where "EBUSY \<equiv> 16"
abbreviation FIRST_LWPID :: int where "FIRST_LWPID \<equiv> 1"

datatype lwp_cpu = LWPCTL_CPU_NONE | LWPCTL_CPU_EXITED | Lwp_cpu int

record rumprun_lwp =
  rl_thread :: nat
  rl_lwpid :: int
  rl_name :: mem
  rl_start :: nat
  rl_arg :: nat
  lc_curcpu :: lwp_cpu
  lc_pctr :: int
  rl_no_parking_hare :: bool

definition blank_lwp :: rumprun_lwp where
  "blank_lwp = \<lparr>rl_thread = 0, rl_lwpid = 0, rl_name = [], rl_start = 0, rl_arg = 0, lc_curcpu = Lwp_cpu 0, lc_pctr = 0,
     rl_no_parking_hare = False\<rparr>"

datatype lwproc_call = Lwproc_curlwp | Lwproc_newlwp | Lwproc_switch nat | Lwproc_releaselwp

record lwps =
  lsc :: sched
  rls :: "nat \<Rightarrow> rumprun_lwp"
  all_lwp :: "nat list"
  curlwpid :: int
  tls_me :: "nat \<Rightarrow> nat option"
  lerrno :: int
  mainthread :: nat
  lwproc :: "lwproc_call list"

definition assignme :: "lwps \<Rightarrow> nat \<Rightarrow> nat option \<Rightarrow> lwps" where
  "assignme s tcb v = s\<lparr>tls_me := (tls_me s)(tcb := v)\<rparr>"

definition lwp_me :: "lwps \<Rightarrow> nat res" where
  "lwp_me s = (case tls_me s (bmk_sched_gettcb (lsc s)) of None \<Rightarrow> Inl Null_deref | Some r \<Rightarrow> Inr r)"

definition note_lwproc :: "lwps \<Rightarrow> lwproc_call list \<Rightarrow> lwps" where
  "note_lwproc s cs = s\<lparr>lwproc := rev cs @ lwproc s\<rparr>"

definition upd_lwp :: "lwps \<Rightarrow> nat \<Rightarrow> (rumprun_lwp \<Rightarrow> rumprun_lwp) \<Rightarrow> lwps" where
  "upd_lwp s r f = s\<lparr>rls := (rls s)(r := f (rls s r))\<rparr>"

definition lwp_ctl :: "lwps \<Rightarrow> nat res" where
  "lwp_ctl s = lwp_me s"

section \<open>Creation\<close>

text \<open>
  \<open>kl\<close> are the lwp of the caller, what \<open>newlwp\<close> returns, and the new lwp; \<open>rlsize\<close> is the size of
  the structure, which depends on NetBSD's headers. The scheduler never returns a null thread,
  and a null pointer of \<open>calloc\<close> leaves \<open>errno\<close> as it was.
\<close>

definition rumprun_makelwp ::
  "nat \<Rightarrow> nat \<Rightarrow> nat \<Rightarrow> nat \<times> int \<times> nat \<Rightarrow> nat \<Rightarrow> nat \<Rightarrow> nat \<Rightarrow> nat option \<Rightarrow> nat \<Rightarrow> lwps \<Rightarrow> (int \<times> int option \<times> lwps) res" where
  "rumprun_makelwp rlsize bouncer tramp kl start arg private stack_base stack_size s =
     bindR (calloc (heap (lsc s)) 1 rlsize) (\<lambda>(rl, h).
     let s = s\<lparr>lsc := (lsc s)\<lparr>heap := h\<rparr>\<rparr> in
     case rl of
       None \<Rightarrow> Inr (lerrno s, None, s)
     | Some rl \<Rightarrow>
         let s = assignme (upd_lwp s rl (\<lambda>_. blank_lwp)) private (Some rl);
             (curlwp, error, newlwp) = kl;
             s = (note_lwproc s [Lwproc_curlwp, Lwproc_newlwp])\<lparr>lerrno := error\<rparr>
         in if error \<noteq> 0 then
              bindR (free (heap (lsc s)) (Some rl)) (\<lambda>h.
                Inr (lerrno s, None, s\<lparr>lsc := (lsc s)\<lparr>heap := h\<rparr>\<rparr>))
            else
              bindR (chk32 (curlwpid s + 1)) (\<lambda>lid.
              let s = upd_lwp ((note_lwproc s [Lwproc_curlwp])\<lparr>curlwpid := lid\<rparr>) rl
                        (\<lambda>l. l\<lparr>rl_start := start, rl_arg := arg, rl_lwpid := lid\<rparr>)
              in bindR (bmk_sched_create_withtls bouncer (lsc s) (bytes ''lwp'' @ [0]) rl False tramp newlwp
                          stack_base stack_size private) (\<lambda>(thr, k).
                 let s = upd_lwp (s\<lparr>lsc := k\<rparr>) rl (\<lambda>l. l\<lparr>rl_thread := thr\<rparr>);
                     s = note_lwproc s [Lwproc_switch curlwp]
                 in Inr (0, Some lid, s\<lparr>all_lwp := all_lwp s @ [rl]\<rparr>))))"

text \<open>The trampoline switches and calls the function and argument it returns here.\<close>

definition rumprun_makelwp_tramp :: "nat \<Rightarrow> lwps \<Rightarrow> ((nat \<times> nat) \<times> lwps) res" where
  "rumprun_makelwp_tramp arg s =
     (let s = note_lwproc s [Lwproc_switch arg] in
      bindR (lwp_me s) (\<lambda>r. Inr ((rl_start (rls s r), rl_arg (rls s r)), s)))"

section \<open>Waking and parking\<close>

definition lwpid2rl :: "int \<Rightarrow> lwps \<Rightarrow> nat option" where
  "lwpid2rl lid s = (if lid = 0 then Some (mainthread s) else find (\<lambda>r. rl_lwpid (rls s r) = lid) (all_lwp s))"

definition lwp_unpark :: "int \<Rightarrow> lwps \<Rightarrow> (int \<times> lwps) res" where
  "lwp_unpark lid s =
     (case lwpid2rl lid s of
        None \<Rightarrow> Inr (- 1, s)
      | Some r \<Rightarrow> bindR (bmk_sched_wake (lsc s) (rl_thread (rls s r))) (\<lambda>k. Inr (0, s\<lparr>lsc := k\<rparr>)))"

fun unpark_loop :: "int list \<Rightarrow> int \<Rightarrow> lwps \<Rightarrow> (int \<times> lwps) res" where
  "unpark_loop [] rv s = Inr (rv, s)"
| "unpark_loop (lid # targets) rv s =
     bindR (lwp_unpark lid s) (\<lambda>(e, s). unpark_loop targets (if e \<noteq> 0 then rv - 1 else rv) s)"

definition lwp_unpark_all :: "int list option \<Rightarrow> lwps \<Rightarrow> (int \<times> lwps) res" where
  "lwp_unpark_all targets s =
     (case targets of
        None \<Rightarrow> Inr (1024, s)
      | Some ts \<Rightarrow> unpark_loop ts (int (length ts)) s)"

text \<open>The hook of the scheduler; a null cookie is 0.\<close>

definition schedhook :: "nat \<Rightarrow> nat \<Rightarrow> lwps \<Rightarrow> lwps res" where
  "schedhook prev next s =
     (let s = (if prev \<noteq> 0 \<and> lc_curcpu (rls s prev) \<noteq> LWPCTL_CPU_EXITED
               then upd_lwp s prev (\<lambda>l. l\<lparr>lc_curcpu := LWPCTL_CPU_NONE\<rparr>) else s)
      in if next \<noteq> 0
         then bindR (chk32 (lc_pctr (rls s next) + 1)) (\<lambda>n.
                Inr (upd_lwp s next (\<lambda>l. l\<lparr>lc_curcpu := Lwp_cpu 0, lc_pctr := n\<rparr>)))
         else Inr s)"

definition rumprun_lwp_init :: "lwps \<Rightarrow> lwps" where
  "rumprun_lwp_init s =
     (let tcb = bmk_sched_gettcb (lsc s);
          s = s\<lparr>lsc := bmk_sched_set_hook (lsc s) True\<rparr>;
          s = assignme s tcb (Some (mainthread s));
          (thr, k) = bmk_sched_init_mainlwp (lsc s) (mainthread s);
          s = upd_lwp (s\<lparr>lsc := k\<rparr>) (mainthread s) (\<lambda>l. l\<lparr>rl_thread := thr\<rparr>)
      in s\<lparr>all_lwp := all_lwp s @ [mainthread s]\<rparr>)"

text \<open>
  \<open>_lwp_park\<close> up to the block, with the two clocks as arguments: it returns a value when it does
  not block. \<open>lwp_park_end\<close> is the rest, with the result of the block.
\<close>

definition park_deadline :: "int \<times> int \<Rightarrow> bool \<Rightarrow> bmk_time \<Rightarrow> bmk_time \<Rightarrow> bmk_time res" where
  "park_deadline ts abstime epochoffset now =
     (let (sec, nsec) = ts in
      bindR (chk64 (sec * 1000)) (\<lambda>x. bindR (chk64 (x * 1000)) (\<lambda>x. bindR (chk64 (x * 1000)) (\<lambda>x.
      bindR (chk64 (x + nsec)) (\<lambda>nsecs. chk64 (if abstime then nsecs - epochoffset else nsecs + now))))))"

definition lwp_park ::
  "(int \<times> int) option \<Rightarrow> bool \<Rightarrow> int \<Rightarrow> bmk_time \<Rightarrow> bmk_time \<Rightarrow> lwps \<Rightarrow> (int option \<times> lwps) res" where
  "lwp_park ts abstime unpark epochoffset now s =
     bindR (if unpark \<noteq> 0 then lwp_unpark unpark s else Inr (0, s)) (\<lambda>(_, s).
     bindR (lwp_me s) (\<lambda>r.
     if rl_no_parking_hare (rls s r) then Inr (Some 0, upd_lwp s r (\<lambda>l. l\<lparr>rl_no_parking_hare := False\<rparr>))
     else
       bindR (case ts of
                None \<Rightarrow> bmk_sched_blockprepare (lsc s)
              | Some ts \<Rightarrow> bindR (park_deadline ts abstime epochoffset now) (bmk_sched_blockprepare_timeout (lsc s)))
         (\<lambda>k. Inr (None, s\<lparr>lsc := k\<rparr>))))"

definition lwp_park_end :: "lwps \<Rightarrow> (int \<times> lwps) res" where
  "lwp_park_end s =
     (let rv = block_result (lsc s) in
      guardR (rv = 0 \<or> rv = BMK_ETIMEDOUT) Assert_failed
        (Inr (if rv \<noteq> 0 then (- 1, s\<lparr>lerrno := rv\<rparr>) else (rv, s))))"

section \<open>The other calls\<close>

definition lwp_exit :: "rounds \<Rightarrow> lwps \<Rightarrow> (lwps \<times> rounds) res" where
  "lwp_exit rs s =
     bindR (lwp_me s) (\<lambda>r.
     let s = upd_lwp s r (\<lambda>l. l\<lparr>lc_curcpu := LWPCTL_CPU_EXITED\<rparr>);
         s = note_lwproc s [Lwproc_releaselwp];
         s = s\<lparr>all_lwp := remove1 r (all_lwp s)\<rparr>;
         s = assignme s (bmk_sched_gettcb (lsc s)) None
     in bindR (bmk_sched_exit_withtls rs (lsc s)) (\<lambda>(k, rs). Inr (s\<lparr>lsc := k\<rparr>, rs)))"

definition on_lwp :: "int \<Rightarrow> lwps \<Rightarrow> (nat \<Rightarrow> lwps res) \<Rightarrow> (int \<times> lwps) res" where
  "on_lwp lid s f = (case lwpid2rl lid s of None \<Rightarrow> Inr (ESRCH, s) | Some r \<Rightarrow> bindR (f r) (\<lambda>s. Inr (0, s)))"

definition lwp_continue :: "int \<Rightarrow> lwps \<Rightarrow> (int \<times> lwps) res" where
  "lwp_continue lid s = on_lwp lid s (\<lambda>r. bindR (bmk_sched_unsuspend (lsc s) (rl_thread (rls s r))) (\<lambda>k. Inr (s\<lparr>lsc := k\<rparr>)))"

definition lwp_suspend :: "int \<Rightarrow> lwps \<Rightarrow> (int \<times> lwps) res" where
  "lwp_suspend lid s = on_lwp lid s (\<lambda>r. bindR (bmk_sched_suspend (lsc s) (rl_thread (rls s r))) (\<lambda>k. Inr (s\<lparr>lsc := k\<rparr>)))"

definition lwp_wakeup :: "int \<Rightarrow> lwps \<Rightarrow> (int \<times> lwps) res" where
  "lwp_wakeup lid s = on_lwp lid s (\<lambda>r. bindR (bmk_sched_wake (lsc s) (rl_thread (rls s r))) (\<lambda>k. Inr (s\<lparr>lsc := k\<rparr>)))"

text \<open>\<open>strlcpy\<close> into the field of \<open>MAXCOMLEN + 1\<close> bytes; the length comes from NetBSD.\<close>

definition lwp_setname :: "nat \<Rightarrow> int \<Rightarrow> mem \<Rightarrow> lwps \<Rightarrow> (int \<times> lwps) res" where
  "lwp_setname maxcomlen lid name s =
     on_lwp lid s (\<lambda>r. Inr (upd_lwp s r (\<lambda>l. l\<lparr>rl_name := take maxcomlen (takeWhile (\<lambda>c. c \<noteq> 0) name)\<rparr>)))"

definition lwp_self :: "lwps \<Rightarrow> int res" where
  "lwp_self s = bindR (lwp_me s) (\<lambda>r. Inr (rl_lwpid (rls s r)))"

definition sys_sched_yield :: "rounds \<Rightarrow> lwps \<Rightarrow> (lwps \<times> rounds) res" where
  "sys_sched_yield rs s = bindR (bmk_sched_yield rs (lsc s)) (\<lambda>(k, rs). Inr (s\<lparr>lsc := k\<rparr>, rs))"

definition rtld_tls_allocate :: "lwps \<Rightarrow> (nat \<times> lwps) res" where
  "rtld_tls_allocate s = bindR (bmk_sched_tls_alloc (lsc s)) (\<lambda>(p, k). Inr (p, s\<lparr>lsc := k\<rparr>))"

definition rtld_tls_free :: "nat \<Rightarrow> lwps \<Rightarrow> lwps res" where
  "rtld_tls_free p s = bindR (bmk_sched_tls_free (lsc s) p) (\<lambda>k. Inr (s\<lparr>lsc := k\<rparr>))"

definition lwp_getprivate :: "lwps \<Rightarrow> nat" where
  "lwp_getprivate s = bmk_sched_gettcb (lsc s)"

definition rasctl :: int where
  "rasctl = ENOSYS"

end
