(* ===== verification/LwpCorrect.thy ===== *)
theory LwpCorrect
  imports Lwp SchedIface SchedExample
begin

text \<open>
  The registry of lightweight processes: identifiers are never reused and always lead to the
  process they were given to, and waking by identifier reaches exactly the registered ones.
\<close>

section \<open>The registry\<close>

abbreviation id_of :: "lwps \<Rightarrow> nat \<Rightarrow> int" where
  "id_of s r \<equiv> rl_lwpid (rls s r)"

definition lwp_ok :: "lwps \<Rightarrow> bool" where
  "lwp_ok s \<longleftrightarrow> distinct (all_lwp s) \<and> inj_on (id_of s) (set (all_lwp s)) \<and>
     (\<forall>r \<in> set (all_lwp s). 1 \<le> id_of s r \<and> id_of s r \<le> curlwpid s)"

text \<open>What changes neither the list nor the identifiers.\<close>

definition same_registry :: "lwps \<Rightarrow> lwps \<Rightarrow> bool" where
  "same_registry s s' \<longleftrightarrow> all_lwp s' = all_lwp s \<and> (\<forall>r \<in> set (all_lwp s). id_of s' r = id_of s r) \<and> curlwpid s' = curlwpid s \<and>
     mainthread s' = mainthread s"

lemma same_registry_refl [simp]: "same_registry s s"
  by (simp add: same_registry_def)

lemma same_registry_ok: "lwp_ok s \<Longrightarrow> same_registry s s' \<Longrightarrow> lwp_ok s'"
  by (simp add: lwp_ok_def same_registry_def inj_on_def)

lemma same_registry_lookup: "same_registry s s' \<Longrightarrow> lwpid2rl lid s' = lwpid2rl lid s"
  by (simp add: lwpid2rl_def same_registry_def cong: find_cong)

lemma same_registry_sched [simp]: "same_registry s (s\<lparr>lsc := k\<rparr>)"
  by (simp add: same_registry_def)

lemma unpark_same: "lwp_unpark lid s = Inr (e, s') \<Longrightarrow> same_registry s s'"
  by (auto simp: lwp_unpark_def bindR_eq_Inr split: option.splits)

lemma hook_same: "schedhook p n s = Inr s' \<Longrightarrow> same_registry s s'"
  by (auto simp: schedhook_def bindR_eq_Inr same_registry_def upd_lwp_def Let_def split: if_splits)

lemma park_same:
  assumes "lwp_park ts ab u off now s = Inr (e, s')"
  shows "same_registry s s'"
proof -
  obtain v y where y: "(if u \<noteq> 0 then lwp_unpark u s else Inr (0, s)) = Inr (v, y)"
    and c: "bindR (lwp_me y) (\<lambda>r.
     if rl_no_parking_hare (rls y r) then Inr (Some 0, upd_lwp y r (\<lambda>l. l\<lparr>rl_no_parking_hare := False\<rparr>))
     else
       bindR (case ts of None \<Rightarrow> bmk_sched_blockprepare (lsc y)
              | Some ts \<Rightarrow> bindR (park_deadline ts ab off now) (bmk_sched_blockprepare_timeout (lsc y)))
         (\<lambda>k. Inr (None, y\<lparr>lsc := k\<rparr>))) = Inr (e, s')"
    using assms unfolding lwp_park_def by (auto simp: bindR_eq_Inr)
  have 1: "same_registry s y" using y unpark_same [of u s v y] by (auto split: if_splits)
  have "same_registry y s'"
    using c by (auto simp: bindR_eq_Inr same_registry_def upd_lwp_def split: if_splits)
  then show ?thesis using 1 by (simp add: same_registry_def)
qed

lemma setname_same: "lwp_setname n lid name s = Inr (e, s') \<Longrightarrow> same_registry s s'"
  by (auto simp: lwp_setname_def on_lwp_def same_registry_def upd_lwp_def split: option.splits)

lemma park_end_same: "lwp_park_end s = Inr (e, s') \<Longrightarrow> same_registry s s'"
  by (auto simp: lwp_park_end_def same_registry_def Let_def split: if_splits)

lemma exit_registry:
  assumes e: "lwp_exit rs s = Inr (s', rs')" and ok: "lwp_ok s"
  obtains r where "tls_me s (bmk_sched_gettcb (lsc s)) = Some r" "all_lwp s' = remove1 r (all_lwp s)" "lwp_ok s'"
    "\<And>x. id_of s' x = id_of s x" "mainthread s' = mainthread s"
proof -
  obtain r where r: "tls_me s (bmk_sched_gettcb (lsc s)) = Some r"
    using e by (auto simp: lwp_exit_def lwp_me_def split: option.splits)
  obtain k where k: "all_lwp s' = remove1 r (all_lwp s)" "curlwpid s' = curlwpid s" "mainthread s' = mainthread s"
    "\<And>x. id_of s' x = id_of s x"
    using e r by (auto simp: lwp_exit_def lwp_me_def bindR_eq_Inr Let_def upd_lwp_def note_lwproc_def assignme_def)
  have "lwp_ok s'"
    using ok set_remove1_subset [of r "all_lwp s"] unfolding lwp_ok_def k inj_on_def by auto
  then show thesis using that r k by blast
qed

text \<open>A new process: the memory of \<open>calloc\<close> is that of no registered one.\<close>

definition fresh_lwp :: "nat \<Rightarrow> lwps \<Rightarrow> bool" where
  "fresh_lwp n s \<longleftrightarrow> (\<forall>rl h. calloc (heap (lsc s)) 1 n = Inr (Some rl, h) \<longrightarrow> rl \<notin> set (all_lwp s))"

lemma makelwp_registry:
  assumes e: "rumprun_makelwp n b tr kl start arg priv sb sz s = Inr (err, lid, s')" and f: "fresh_lwp n s"
  obtains "lid = None" "same_registry s s'"
  | rl where "err = 0" "lid = Some (curlwpid s + 1)" "rl \<notin> set (all_lwp s)" "all_lwp s' = all_lwp s @ [rl]"
      "curlwpid s' = curlwpid s + 1" "id_of s' rl = curlwpid s + 1" "\<And>x. x \<noteq> rl \<Longrightarrow> id_of s' x = id_of s x"
      "mainthread s' = mainthread s" "rl_start (rls s' rl) = start" "rl_arg (rls s' rl) = arg"
proof -
  obtain curlwp error newlwp where kl: "kl = (curlwp, error, newlwp)" by (cases kl)
  obtain p h where c: "calloc (heap (lsc s)) 1 n = Inr (p, h)"
    using e unfolding rumprun_makelwp_def by (auto simp: bindR_eq_Inr)
  show thesis
  proof (cases p)
    case None
    then have "lid = None" "s' = s\<lparr>lsc := (lsc s)\<lparr>heap := h\<rparr>\<rparr>"
      using e unfolding rumprun_makelwp_def c by simp_all
    then show thesis using that(1) by simp
  next
    case (Some rl)
    have fr: "rl \<notin> set (all_lwp s)" using f c Some by (simp add: fresh_lwp_def)
    note e' = e [unfolded rumprun_makelwp_def c Some kl bindR_simps]
    note d = Let_def upd_lwp_def note_lwproc_def assignme_def
    show thesis
    proof (cases "error = 0")
      case False
      then obtain h' where "lid = None" "all_lwp s' = all_lwp s" "curlwpid s' = curlwpid s" "mainthread s' = mainthread s"
        "rls s' = (rls s)(rl := blank_lwp)"
        using e' by (auto simp: d bindR_eq_Inr)
      then show thesis using that(1) fr by (auto simp: same_registry_def)
    next
      case True
      obtain thr where "err = 0" "lid = Some (curlwpid s + 1)" "all_lwp s' = all_lwp s @ [rl]" "curlwpid s' = curlwpid s + 1"
        "mainthread s' = mainthread s"
        "rls s' = (rls s)(rl := blank_lwp\<lparr>rl_start := start, rl_arg := arg, rl_lwpid := curlwpid s + 1, rl_thread := thr\<rparr>)"
        using e' True by (auto simp: d bindR_eq_Inr dest!: chk32_InrD)
      then show thesis using that(2) fr by simp
    qed
  qed
qed

lemma add_registry:
  assumes ok: "lwp_ok s" and rl: "rl \<notin> set (all_lwp s)" "all_lwp s' = all_lwp s @ [rl]" "curlwpid s' = curlwpid s + 1"
    "id_of s' rl = curlwpid s + 1" "\<And>x. x \<noteq> rl \<Longrightarrow> id_of s' x = id_of s x" and c: "0 \<le> curlwpid s"
  shows "lwp_ok s'"
proof -
  have id: "id_of s' x = id_of s x" if "x \<in> set (all_lwp s)" for x using rl(1,5) that by metis
  have lt: "1 \<le> id_of s x \<and> id_of s x \<le> curlwpid s" if "x \<in> set (all_lwp s)" for x using ok that by (simp add: lwp_ok_def)
  have "inj_on (id_of s') (set (all_lwp s'))"
  proof (rule inj_onI)
    fix x y assume xy: "x \<in> set (all_lwp s')" "y \<in> set (all_lwp s')" "id_of s' x = id_of s' y"
    show "x = y"
    proof (cases "x = rl \<or> y = rl")
      case True
      then show ?thesis using xy id lt rl by fastforce
    next
      case False
      then have "x \<in> set (all_lwp s)" "y \<in> set (all_lwp s)" using xy(1,2) rl(2) by auto
      then show ?thesis using ok xy(3) id by (simp add: lwp_ok_def inj_on_def)
    qed
  qed
  moreover have "\<forall>r \<in> set (all_lwp s'). 1 \<le> id_of s' r \<and> id_of s' r \<le> curlwpid s'"
    using rl id lt c by fastforce
  ultimately show ?thesis using ok rl(1,2) by (simp add: lwp_ok_def)
qed

section \<open>Every run\<close>

inductive lwp_step :: "lwps \<Rightarrow> lwps \<Rightarrow> bool" where
  lwp_make: "rumprun_makelwp n b tr kl start arg priv sb sz s = Inr (err, lid, s') \<Longrightarrow> fresh_lwp n s \<Longrightarrow> lwp_step s s'"
| lwp_leave: "lwp_exit rs s = Inr (s', rs') \<Longrightarrow> lwp_step s s'"
| lwp_wake: "lwp_unpark lid s = Inr (e, s') \<Longrightarrow> lwp_step s s'"
| lwp_stop: "lwp_park ts ab u off now s = Inr (p, s') \<Longrightarrow> lwp_step s s'"
| lwp_back: "lwp_park_end s = Inr (e, s') \<Longrightarrow> lwp_step s s'"
| lwp_name: "lwp_setname n lid name s = Inr (e, s') \<Longrightarrow> lwp_step s s'"
| lwp_hook: "schedhook p nx s = Inr s' \<Longrightarrow> lwp_step s s'"
| lwp_sched: "lwp_step s (s\<lparr>lsc := k\<rparr>)"

definition lwp_inv :: "lwps \<Rightarrow> bool" where
  "lwp_inv s \<longleftrightarrow> lwp_ok s \<and> 0 \<le> curlwpid s"

lemma same_registry_inv: "lwp_inv s \<Longrightarrow> same_registry s s' \<Longrightarrow> lwp_inv s'"
  using same_registry_ok by (auto simp: lwp_inv_def same_registry_def)

lemma lwp_step_inv:
  assumes i: "lwp_inv s" and st: "lwp_step s s'"
  shows "lwp_inv s'"
  using st
proof cases
  case (lwp_make n b tr kl start arg priv sb sz err lid)
  show ?thesis
  proof (rule makelwp_registry [OF lwp_make])
    fix rl assume "err = 0" "lid = Some (curlwpid s + 1)" "rl \<notin> set (all_lwp s)" "all_lwp s' = all_lwp s @ [rl]"
      "curlwpid s' = curlwpid s + 1" "id_of s' rl = curlwpid s + 1" "\<And>x. x \<noteq> rl \<Longrightarrow> id_of s' x = id_of s x"
    then show ?thesis using add_registry [of s rl s'] i by (simp add: lwp_inv_def)
  qed (rule same_registry_inv [OF i])
next
  case (lwp_leave rs rs')
  have "curlwpid s' = curlwpid s"
    using lwp_leave by (auto simp: lwp_exit_def bindR_eq_Inr Let_def upd_lwp_def note_lwproc_def assignme_def)
  then show ?thesis using exit_registry [OF lwp_leave] i by (auto simp: lwp_inv_def)
next
  case lwp_wake
  then show ?thesis by (intro same_registry_inv [OF i] unpark_same)
next
  case lwp_stop
  then show ?thesis by (intro same_registry_inv [OF i] park_same)
next
  case lwp_back
  then show ?thesis by (intro same_registry_inv [OF i] park_end_same)
next
  case lwp_name
  then show ?thesis by (intro same_registry_inv [OF i] setname_same)
next
  case lwp_hook
  then show ?thesis by (intro same_registry_inv [OF i] hook_same)
next
  case (lwp_sched k)
  then show ?thesis using same_registry_inv [OF i, of s'] by simp
qed

lemma lwp_steps_inv: "lwp_step\<^sup>*\<^sup>* s s' \<Longrightarrow> lwp_inv s \<Longrightarrow> lwp_inv s'"
  by (induction rule: rtranclp_induct) (auto intro: lwp_step_inv)

lemma lookup_registered:
  assumes "lwp_ok s" "r \<in> set (all_lwp s)"
  shows "lwpid2rl (id_of s r) s = Some r"
proof -
  have ne: "id_of s r \<noteq> 0" using assms by (auto simp: lwp_ok_def)
  have "find (\<lambda>x. id_of s x = id_of s r) (all_lwp s) = Some r"
  proof (cases "find (\<lambda>x. id_of s x = id_of s r) (all_lwp s)")
    case None
    then show ?thesis using assms(2) by (auto simp: find_None_iff)
  next
    case (Some x)
    then have "x \<in> set (all_lwp s)" "id_of s x = id_of s r" by (auto simp: find_Some_iff)
    then show ?thesis using Some assms by (auto simp: lwp_ok_def inj_on_def)
  qed
  then show ?thesis using ne by (simp add: lwpid2rl_def)
qed

lemma lookup_None: "lid \<noteq> 0 \<Longrightarrow> lwpid2rl lid s = None \<longleftrightarrow> (\<forall>r \<in> set (all_lwp s). id_of s r \<noteq> lid)"
  by (auto simp: lwpid2rl_def find_None_iff)

lemma lookup_add:
  assumes ok: "lwp_ok s" and rl: "rl \<notin> set (all_lwp s)" "all_lwp s' = all_lwp s @ [rl]" "mainthread s' = mainthread s"
    "id_of s' rl = lid" "\<And>x. x \<noteq> rl \<Longrightarrow> id_of s' x = id_of s x" and l: "lid' \<noteq> lid"
  shows "lwpid2rl lid' s' = lwpid2rl lid' s"
proof -
  have "find (\<lambda>x. id_of s' x = lid') (all_lwp s) = find (\<lambda>x. id_of s x = lid') (all_lwp s)"
    by (rule find_cong [OF refl]) (use rl(1,5) in metis)
  moreover have "find p (xs @ [y]) = (case find p xs of None \<Rightarrow> if p y then Some y else None | Some x \<Rightarrow> Some x)" for p :: "nat \<Rightarrow> bool" and xs y
    by (induction xs) auto
  ultimately show ?thesis using rl(2,3,4) l by (auto simp: lwpid2rl_def split: option.splits)
qed

section \<open>Waking by identifier\<close>

definition live_lwps :: "lwps \<Rightarrow> bool" where
  "live_lwps s \<longleftrightarrow> (\<forall>r \<in> insert (mainthread s) (set (all_lwp s)). rl_thread (rls s r) \<in> set (threadq (lsc s)))"

lemma lookup_member: "lwpid2rl lid s = Some r \<Longrightarrow> r \<in> insert (mainthread s) (set (all_lwp s))"
  by (auto simp: lwpid2rl_def find_Some_iff split: if_splits)

lemma unpark_good:
  assumes g: "sched_good I E P (lsc s)" and l: "live_lwps s"
  obtains k where "lwp_unpark lid s = Inr (if lwpid2rl lid s = None then - 1 else 0, s\<lparr>lsc := k\<rparr>)" "sched_good I E P k"
    "set (runq (lsc s)) \<subseteq> set (runq k)" "threadq k = threadq (lsc s)" "bmk_current k = bmk_current (lsc s)"
    "\<forall>r. lwpid2rl lid s = Some r \<longrightarrow> rl_thread (rls s r) \<noteq> bmk_current (lsc s) \<longrightarrow> rl_thread (rls s r) \<in> set (runq k)"
proof (cases "lwpid2rl lid s")
  case None
  then show ?thesis using that [of "lsc s"] g by (simp add: lwp_unpark_def)
next
  case (Some r)
  have t: "rl_thread (rls s r) \<in> set (threadq (lsc s))" using l lookup_member [OF Some] by (auto simp: live_lwps_def)
  obtain k where k: "bmk_sched_wake (lsc s) (rl_thread (rls s r)) = Inr k" "sched_good I E P k"
    "rl_thread (rls s r) \<noteq> bmk_current (lsc s) \<longrightarrow> rl_thread (rls s r) \<in> set (runq k)"
    using wake_good [OF g t] by blast
  show ?thesis
    by (rule that [of k]) (use Some k wake_queues [OF k(1)] in \<open>auto simp: lwp_unpark_def\<close>)
qed

abbreviation known :: "lwps \<Rightarrow> int \<Rightarrow> bool" where
  "known s lid \<equiv> lwpid2rl lid s \<noteq> None"

lemma unpark_loop_good:
  assumes "sched_good I E P (lsc s)" "live_lwps s"
  shows "\<exists>k. unpark_loop ts rv s = Inr (rv - int (length (filter (\<lambda>l. \<not> known s l) ts)), s\<lparr>lsc := k\<rparr>) \<and> sched_good I E P k \<and>
    set (runq (lsc s)) \<subseteq> set (runq k) \<and>
    (\<forall>l \<in> set ts. \<forall>r. lwpid2rl l s = Some r \<longrightarrow> rl_thread (rls s r) \<noteq> bmk_current (lsc s) \<longrightarrow> rl_thread (rls s r) \<in> set (runq k))"
  using assms
proof (induction ts arbitrary: s rv)
  case Nil
  then show ?case by (intro exI [of _ "lsc s"]) simp
next
  case (Cons l ts)
  obtain k where k: "lwp_unpark l s = Inr (if lwpid2rl l s = None then - 1 else 0, s\<lparr>lsc := k\<rparr>)" "sched_good I E P k"
    "set (runq (lsc s)) \<subseteq> set (runq k)" "threadq k = threadq (lsc s)" "bmk_current k = bmk_current (lsc s)"
    "\<forall>r. lwpid2rl l s = Some r \<longrightarrow> rl_thread (rls s r) \<noteq> bmk_current (lsc s) \<longrightarrow> rl_thread (rls s r) \<in> set (runq k)"
    by (rule unpark_good [OF Cons.prems, where lid = l])
  let ?y = "s\<lparr>lsc := k\<rparr>" and ?rv = "if known s l then rv else rv - 1"
  have y: "live_lwps ?y" "lwpid2rl x ?y = lwpid2rl x s" for x
    using Cons.prems(2) k(4) same_registry_lookup [OF same_registry_sched] by (auto simp: live_lwps_def)
  obtain k' where k': "unpark_loop ts ?rv ?y = Inr (?rv - int (length (filter (\<lambda>l. \<not> known s l) ts)), s\<lparr>lsc := k'\<rparr>)"
    "sched_good I E P k'" "set (runq k) \<subseteq> set (runq k')"
    "\<forall>l \<in> set ts. \<forall>r. lwpid2rl l s = Some r \<longrightarrow> rl_thread (rls s r) \<noteq> bmk_current (lsc s) \<longrightarrow> rl_thread (rls s r) \<in> set (runq k')"
    using Cons.IH [of ?y ?rv] k(2,5) y by auto
  have "unpark_loop (l # ts) rv s = unpark_loop ts ?rv ?y" using k(1) by auto
  also have "\<dots> = Inr (rv - int (length (filter (\<lambda>l. \<not> known s l) (l # ts))), s\<lparr>lsc := k'\<rparr>)" using k'(1) by simp
  finally show ?case using k(3,6) k'(2-4) by (intro exI [of _ k']) auto
qed

text \<open>
  C17. In every state that creations, exits, parking, waking, renaming, context switches and the
  scheduler reach in any order, the identifiers of the registered lightweight processes lead to
  them and no other identifier but 0 leads anywhere; a successful \<open>rumprun_makelwp\<close> returns an
  identifier that was not in use, registers the new process under it with its start function
  and argument, and changes no other lookup; and \<open>_lwp_unpark_all\<close> returns how many of the
  identifiers it is given are registered and makes the threads of all those runnable.
\<close>

theorem lwp_registry:
  assumes "lwp_inv s0" "lwp_step\<^sup>*\<^sup>* s0 s"
  shows "(\<forall>r \<in> set (all_lwp s). lwpid2rl (rl_lwpid (rls s r)) s = Some r) \<and>
    (\<forall>lid. lid \<noteq> 0 \<longrightarrow> (lwpid2rl lid s = None \<longleftrightarrow> (\<forall>r \<in> set (all_lwp s). rl_lwpid (rls s r) \<noteq> lid))) \<and>
    (\<forall>n b tr kl start arg priv sb sz err lid s'.
      rumprun_makelwp n b tr kl start arg priv sb sz s = Inr (err, Some lid, s') \<longrightarrow> fresh_lwp n s \<longrightarrow>
      err = 0 \<and> lwpid2rl lid s = None \<and> (\<forall>lid'. lid' \<noteq> lid \<longrightarrow> lwpid2rl lid' s' = lwpid2rl lid' s) \<and>
      (\<exists>rl. lwpid2rl lid s' = Some rl \<and> rl_start (rls s' rl) = start \<and> rl_arg (rls s' rl) = arg)) \<and>
    (\<forall>I E P ts. sched_good I E P (lsc s) \<longrightarrow> live_lwps s \<longrightarrow>
      (\<exists>s'. lwp_unpark_all (Some ts) s = Inr (int (length (filter (\<lambda>l. lwpid2rl l s \<noteq> None) ts)), s') \<and>
        sched_good I E P (lsc s') \<and>
        (\<forall>l \<in> set ts. \<forall>r. lwpid2rl l s = Some r \<longrightarrow> rl_thread (rls s r) \<noteq> bmk_current (lsc s) \<longrightarrow>
          rl_thread (rls s r) \<in> set (runq (lsc s')))))"
proof (intro conjI allI impI ballI)
  have i: "lwp_inv s" by (rule lwp_steps_inv [OF assms(2,1)])
  then have ok: "lwp_ok s" "0 \<le> curlwpid s" by (simp_all add: lwp_inv_def)
  show "lwpid2rl (id_of s r) s = Some r" if "r \<in> set (all_lwp s)" for r using lookup_registered [OF ok(1) that] .
  show "lwpid2rl lid s = None \<longleftrightarrow> (\<forall>r \<in> set (all_lwp s). id_of s r \<noteq> lid)" if "lid \<noteq> 0" for lid
    using lookup_None [OF that] .
  {
    fix n b tr kl start arg priv sb sz err lid s'
    assume m: "rumprun_makelwp n b tr kl start arg priv sb sz s = Inr (err, Some lid, s')" "fresh_lwp n s"
    obtain rl where rl: "err = 0" "lid = curlwpid s + 1" "rl \<notin> set (all_lwp s)" "all_lwp s' = all_lwp s @ [rl]"
      "curlwpid s' = curlwpid s + 1" "id_of s' rl = curlwpid s + 1" "\<And>x. x \<noteq> rl \<Longrightarrow> id_of s' x = id_of s x"
      "mainthread s' = mainthread s" "rl_start (rls s' rl) = start" "rl_arg (rls s' rl) = arg"
      by (rule makelwp_registry [OF m]) auto
    have l: "lid \<noteq> 0" using rl(2) ok(2) by simp
    show "err = 0" by (rule rl(1))
    show "lwpid2rl lid s = None"
      unfolding lookup_None [OF l] using ok(1) rl(2) by (fastforce simp: lwp_ok_def)
    show "lwpid2rl lid' s' = lwpid2rl lid' s" if "lid' \<noteq> lid" for lid'
      by (rule lookup_add [OF ok(1) rl(3,4,8) _ rl(7) that]) (simp add: rl(2,6))
    have "lwp_ok s'" using add_registry [OF ok(1) rl(3-7) ok(2)] .
    then have "lwpid2rl (id_of s' rl) s' = Some rl" by (rule lookup_registered) (simp add: rl(4))
    then show "\<exists>rl. lwpid2rl lid s' = Some rl \<and> rl_start (rls s' rl) = start \<and> rl_arg (rls s' rl) = arg"
      using rl(2,6,9,10) by auto
  }
  fix I E P ts
  assume g: "sched_good I E P (lsc s)" "live_lwps s"
  have n: "int (length ts) - int (length (filter (\<lambda>l. \<not> known s l) ts)) = int (length (filter (known s) ts))"
    using sum_length_filter_compl [of "known s" ts] by simp
  show "\<exists>s'. lwp_unpark_all (Some ts) s = Inr (int (length (filter (\<lambda>l. lwpid2rl l s \<noteq> None) ts)), s') \<and>
        sched_good I E P (lsc s') \<and>
        (\<forall>l \<in> set ts. \<forall>r. lwpid2rl l s = Some r \<longrightarrow> rl_thread (rls s r) \<noteq> bmk_current (lsc s) \<longrightarrow>
          rl_thread (rls s r) \<in> set (runq (lsc s')))"
    using unpark_loop_good [OF g, of ts "int (length ts)"] unfolding n by (auto simp: lwp_unpark_all_def)
qed

text \<open>Two processes with identifiers 1 and 2, and an identifier that is not in use.\<close>

definition ex_lwps :: lwps where
  "ex_lwps = \<lparr>lsc = ex_sched,
     rls = (\<lambda>_. blank_lwp)(50 := blank_lwp\<lparr>rl_thread := ex_main, rl_lwpid := 1\<rparr>, 60 := blank_lwp\<lparr>rl_thread := ex_worker, rl_lwpid := 2\<rparr>),
     all_lwp = [50, 60], curlwpid = 2, tls_me = \<lambda>_. None, lerrno = 0, mainthread = 50, lwproc = []\<rparr>"

theorem lwp_registry_witness:
  "lwpid2rl 2 ex_lwps = Some 60 \<and>
   (\<exists>s'. lwp_unpark_all (Some [2, 7]) ex_lwps = Inr (1, s') \<and> ex_worker \<in> set (runq (lsc s')))"
proof -
  have i: "lwp_inv ex_lwps" by (auto simp: lwp_inv_def lwp_ok_def ex_lwps_def)
  have l: "lwpid2rl 2 ex_lwps = Some 60" "lwpid2rl 7 ex_lwps = None" "sched_good {} [ex_tls] {#} (lsc ex_lwps)" "live_lwps ex_lwps"
    "rl_thread (rls ex_lwps 60) = ex_worker" "bmk_current (lsc ex_lwps) = ex_main"
    by (simp_all add: lwpid2rl_def ex_lwps_def ex_good live_lwps_def)
  note c = lwp_registry [OF i rtranclp.rtrancl_refl]
  note c4 = conjunct2 [OF conjunct2 [OF conjunct2 [OF c]]]
  obtain s' where s': "lwp_unpark_all (Some [2, 7]) ex_lwps =
      Inr (int (length (filter (\<lambda>l. lwpid2rl l ex_lwps \<noteq> None) [2, 7])), s')"
    "\<forall>l \<in> set [2, 7]. \<forall>r. lwpid2rl l ex_lwps = Some r \<longrightarrow> rl_thread (rls ex_lwps r) \<noteq> bmk_current (lsc ex_lwps) \<longrightarrow>
      rl_thread (rls ex_lwps r) \<in> set (runq (lsc s'))"
    using c4 [rule_format, OF l(3,4), of "[2, 7]"] by blast
  have "ex_worker \<in> set (runq (lsc s'))" using s'(2) l ex_distinct by auto
  moreover have "lwp_unpark_all (Some [2, 7]) ex_lwps = Inr (1, s')" using s'(1) l(1,2) by simp
  ultimately show ?thesis using l(1) by blast
qed

end
