(* ===== verification/Rumpuser.thy ===== *)
theory Rumpuser
  imports Sched BmkString Prf
begin

text \<open>
  The remaining hypercalls of \<open>lib/libbmk_rumpuser\<close>: start-up, parameters, random bytes and exit
  (\<open>rumpuser_base.c\<close>), clocks (\<open>rumpuser_clock.c\<close>), memory (\<open>rumpuser_mem.c\<close>) and console output
  (\<open>rumpuser_cons.c\<close>), on the models of the scheduler, of the two allocators and of the printer.
  Constants of the rump kernel's interface are arguments, and so are the readings of the clock.
\<close>

section \<open>Start-up and parameters\<close>

abbreviation RUMPHYPER_MYVERSION :: int where "RUMPHYPER_MYVERSION \<equiv> 17"

text \<open>
  \<open>platform\<close> is what \<open>rumprun_platform_rumpuser_init\<close> returns, and \<open>hyp\<close> the table of upcalls, which
  becomes \<open>rumpuser__hyp\<close>.
\<close>

definition rumpuser_init :: "int \<Rightarrow> 'hyp \<Rightarrow> int \<Rightarrow> (int \<times> 'hyp) res" where
  "rumpuser_init version hyp platform =
     (if version \<noteq> RUMPHYPER_MYVERSION then Inl (Halt ''rump kernel hypercall revision mismatch'')
      else Inr (platform, hyp))"

text \<open>The addresses of the strings that \<open>rumpuser_getparam\<close> names.\<close>

record param_strings =
  ps_verbose :: nat
  ps_ncpu :: nat
  ps_hostname :: nat
  ps_memlimit :: nat
  ps_one :: nat
  ps_rumprun :: nat

text \<open>The digits of the memory limit into \<open>tmp\<close>, last digit first, and back into the buffer.\<close>

function limit_digits :: "nat \<Rightarrow> nat \<Rightarrow> u8 list \<Rightarrow> u8 list res" where
  "limit_digits memsize i tmp =
     (if memsize > 0
      then guardR (i < 63) Assert_failed
             (limit_digits (memsize div 10) (i + 1) (tmp @ [of_nat (memsize mod 10) + 48]))
      else Inr tmp)"
  by pat_completeness auto
termination
  by (relation "measure (\<lambda>(m, i, t). m)") auto

declare limit_digits.simps [simp del]

fun limit_copy :: "u8 list \<Rightarrow> nat \<Rightarrow> nat \<Rightarrow> nat \<Rightarrow> mem \<Rightarrow> mem res" where
  "limit_copy tmp res j 0 M = Inr M"
| "limit_copy tmp res j (Suc i) M = bindR (wr M (res + (j - Suc i)) (tmp ! i)) (limit_copy tmp res j i)"

text \<open>The result is the error, the memory, and whether the warning about little memory is printed.\<close>

definition rumpuser_getparam ::
  "param_strings \<Rightarrow> nat \<Rightarrow> mem \<Rightarrow> nat \<Rightarrow> nat \<Rightarrow> nat \<Rightarrow> (int \<times> mem \<times> bool) res" where
  "rumpuser_getparam ps bmk_memsize M name buf buflen =
     (if buflen \<le> 2 then Inr (22, M, False)
      else
        bindR (bmk_strcmp M name (ps_verbose ps)) (\<lambda>c.
        if c = 0 then bindR (bmk_strcpy M buf (ps_one ps)) (\<lambda>(M, _). Inr (0, M, False))
        else bindR (bmk_strcmp M name (ps_ncpu ps)) (\<lambda>c.
        if c = 0 then bindR (bmk_strcpy M buf (ps_one ps)) (\<lambda>(M, _). Inr (0, M, False))
        else bindR (bmk_strcmp M name (ps_hostname ps)) (\<lambda>c.
        if c = 0 then bindR (bmk_strncpy M buf (ps_rumprun ps) (buflen - 1)) (\<lambda>(M, _). Inr (0, M, False))
        else bindR (bmk_strcmp M name (ps_memlimit ps)) (\<lambda>c.
        if c = 0 then
          guardR (bmk_memsize \<noteq> 0) Assert_failed
            (let memsize = min (2 ^ 64 - 1) (bmk_memsize div 2);
                 warns = (memsize < 8 * 1024 * 1024)
             in bindR (limit_digits memsize 0 []) (\<lambda>tmp.
                if length tmp \<ge> buflen then Inr (22, M, warns)
                else bindR (wr M (buf + length tmp) 0) (\<lambda>M.
                     bindR (limit_copy tmp buf (length tmp) (length tmp) M) (\<lambda>M. Inr (0, M, warns)))))
        else Inr (2, M, False))))))"

text \<open>One reading of the clock for each byte.\<close>

fun rumpuser_getrandom :: "bmk_time list \<Rightarrow> mem \<Rightarrow> nat \<Rightarrow> nat \<Rightarrow> (nat \<times> mem) res" where
  "rumpuser_getrandom clock M buf 0 = Inr (0, M)"
| "rumpuser_getrandom [] M buf (Suc n) = Inl Out_of_fuel"
| "rumpuser_getrandom (t # clock) M buf (Suc n) =
     bindR (wr M buf (of_int (t AND 0xff))) (\<lambda>M.
     bindR (rumpuser_getrandom clock M (buf + 1) n) (\<lambda>(r, M). Inr (r + 1, M)))"

text \<open>Without a panic the message is a null pointer, here the empty message.\<close>

definition rumpuser_exit :: "int \<Rightarrow> int \<Rightarrow> 'a res" where
  "rumpuser_exit RUMPUSER_PANIC v = Inl (Halt (if v = RUMPUSER_PANIC then ''rumpuser panic'' else []))"

definition rumpuser_seterrno :: "int \<Rightarrow> sched \<Rightarrow> sched" where
  "rumpuser_seterrno err s =
     s\<lparr>threads := (threads s)(bmk_current s := (threads s (bmk_current s))\<lparr>bt_errno := err\<rparr>)\<rparr>"

section \<open>Clocks\<close>

datatype rumpclock = RUMPUSER_CLOCK_RELWALL | RUMPUSER_CLOCK_ABSMONO | Clock_other

text \<open>The divisor is unsigned, and so are both operands then.\<close>

definition rumpuser_clock_gettime :: "rumpclock \<Rightarrow> bmk_time \<Rightarrow> bmk_time \<Rightarrow> (int \<times> int) res" where
  "rumpuser_clock_gettime which now epochoffset =
     bindR (if which = RUMPUSER_CLOCK_RELWALL then chk64 (now + epochoffset) else Inr now) (\<lambda>time.
       let t = time mod 2 ^ 64 in Inr (to_s64 (t div 1000000000), t mod 1000000000))"

definition sleep_deadline :: "rumpclock \<Rightarrow> int \<Rightarrow> int \<Rightarrow> bmk_time \<Rightarrow> bmk_time res" where
  "sleep_deadline rclk sec nsec now =
     (let deadline = (if rclk = RUMPUSER_CLOCK_RELWALL then now else 0) in
      bindR (chk64 (sec * 1000)) (\<lambda>x. bindR (chk64 (x * 1000)) (\<lambda>x. bindR (chk64 (x * 1000)) (\<lambda>x.
      bindR (chk64 (x + nsec)) (\<lambda>x. chk64 (deadline + x))))))"

text \<open>\<open>rumpuser_clock_sleep\<close> between the two calls into the rump kernel.\<close>

definition rumpuser_clock_sleep :: "rounds \<Rightarrow> rumpclock \<Rightarrow> int \<Rightarrow> int \<Rightarrow> bmk_time \<Rightarrow> sched \<Rightarrow> (sched \<times> rounds) res" where
  "rumpuser_clock_sleep rs rclk sec nsec now s =
     bindR (sleep_deadline rclk sec nsec now) (\<lambda>deadline.
     bindR (bmk_sched_blockprepare_timeout s deadline) (bmk_sched_block rs))"

section \<open>Memory\<close>

text \<open>\<open>__builtin_clzl\<close> is undefined at zero; the callers have at least a page there.\<close>

definition len2order :: "nat \<Rightarrow> int" where
  "len2order len =
     (let v = 64 - int (builtin_clzl len);
          v = (if len AND (len - 1) = 0 then v - 1 else v)
      in v - 12)"

text \<open>A negative alignment or order is a large number for the allocators.\<close>

definition rumpuser_malloc :: "nat \<Rightarrow> int \<Rightarrow> mstate \<Rightarrow> (int \<times> nat option \<times> mstate) res" where
  "rumpuser_malloc len alignment s =
     bindR (if len < PAGE_SIZE
            then bmk_memalloc s len (nat (alignment mod 2 ^ 64)) BMK_MEMWHO_RUMPKERN
            else
              bindR (chk32 (alignment - 1)) (\<lambda>a1.
              guardR (alignment AND a1 = 0) Assert_failed
                (let alignment = (if alignment < int PAGE_SIZE then int PAGE_SIZE else alignment)
                 in bindR (bmk_pgalloc_align (mpg s) (nat (len2order len)) (nat alignment)) (\<lambda>(p, pg).
                      Inr (p, s\<lparr>mpg := pg\<rparr>))))) (\<lambda>(retval, s).
       Inr (if retval \<noteq> None then 0 else 12, retval, s))"

definition rumpuser_free :: "nat \<Rightarrow> nat \<Rightarrow> mstate \<Rightarrow> mstate res" where
  "rumpuser_free buf buflen s =
     (if buflen < PAGE_SIZE then bmk_memfree s (Some buf) BMK_MEMWHO_RUMPKERN
      else bindR (bmk_pgfree (mpg s) buf (nat (len2order buflen))) (\<lambda>pg. Inr (s\<lparr>mpg := pg\<rparr>)))"

section \<open>Console\<close>

definition rumpuser_putchar :: "kst \<Rightarrow> int \<Rightarrow> kst res" where
  "rumpuser_putchar st c = bmk_putchar st (of_int c)"

definition rumpuser_dprintf :: "kst \<Rightarrow> nat \<Rightarrow> va_list \<Rightarrow> kst res" where
  "rumpuser_dprintf st fmt ap = bmk_vprintf st fmt ap"

end
