(* ===== verification/RumpuserCorrect.thy ===== *)
theory RumpuserCorrect
  imports Rumpuser MemallocIface
begin









end
