(* ===== verification/Gnttab.thy ===== *)
theory Gnttab
  imports Pgalloc
begin

text \<open>
  The grant table of the Xen platform, \<open>platform/xen/xen/gnttab.c\<close>: references to entries of a
  table that is shared with the hypervisor, handed out from a free list in \<open>gnttab_list\<close>, whose
  entry 0 is the head and where 0 ends the list. The flag bits of Xen's header are the argument
  \<open>gtf\<close>, with what a store to the two other fields of an entry keeps of the value, and the number
  of entries, which depends on the layout there, is the length of the list.
\<close>

section \<open>State\<close>

record gtf_bits =
  GTF_permit_access :: u16
  GTF_accept_transfer :: u16
  GTF_readonly :: u16
  GTF_reading :: u16
  GTF_writing :: u16
  GTF_transfer_committed :: u16
  GTF_transfer_completed :: u16
  as_domid :: "nat \<Rightarrow> nat"
  as_frame :: "nat \<Rightarrow> nat"

record grant_entry =
  ge_flags :: u16
  ge_domid :: nat
  ge_frame :: nat

record gnttab =
  gnttab_table :: "grant_entry list"
  gnttab_list :: "nat list"
  gnttab_sem :: int

abbreviation NR_RESERVED_ENTRIES :: nat where "NR_RESERVED_ENTRIES \<equiv> 8"

abbreviation NR_GRANT_ENTRIES :: "gnttab \<Rightarrow> nat" where "NR_GRANT_ENTRIES s \<equiv> length (gnttab_list s)"

section \<open>The free list\<close>

text \<open>\<open>up\<close> and \<open>down\<close> of the semaphore count the free entries. A thread waits in \<open>down\<close> at zero.\<close>

definition put_free_entry :: "nat \<Rightarrow> gnttab \<Rightarrow> gnttab res" where
  "put_free_entry ref s =
     guardR (ref < NR_GRANT_ENTRIES s) Out_of_bounds
       (let l = (gnttab_list s)[ref := gnttab_list s ! 0];
            s = s\<lparr>gnttab_list := l[0 := ref]\<rparr>
        in bindR (chk32 (gnttab_sem s + 1)) (\<lambda>n. Inr (s\<lparr>gnttab_sem := n\<rparr>)))"

text \<open>None: the thread waits for an entry to become free.\<close>

definition get_free_entry :: "gnttab \<Rightarrow> (nat \<times> gnttab) option res" where
  "get_free_entry s =
     (if gnttab_sem s > 0 then
        let s = s\<lparr>gnttab_sem := gnttab_sem s - 1\<rparr>;
            ref = gnttab_list s ! 0
        in guardR (\<not> (ref < NR_RESERVED_ENTRIES \<or> ref \<ge> NR_GRANT_ENTRIES s)) Assert_failed
             (Inr (Some (ref, s\<lparr>gnttab_list := (gnttab_list s)[0 := gnttab_list s ! ref]\<rparr>)))
      else Inr None)"

section \<open>Granting\<close>

definition set_entry :: "gtf_bits \<Rightarrow> nat \<Rightarrow> nat \<Rightarrow> nat \<Rightarrow> u16 \<Rightarrow> gnttab \<Rightarrow> gnttab res" where
  "set_entry gtf ref domid frame flags s =
     guardR (ref < length (gnttab_table s)) Out_of_bounds
       (Inr (s\<lparr>gnttab_table := (gnttab_table s)[ref :=
          \<lparr>ge_flags = flags, ge_domid = as_domid gtf domid, ge_frame = as_frame gtf frame\<rparr>]\<rparr>))"

definition gnttab_grant_access :: "gtf_bits \<Rightarrow> nat \<Rightarrow> nat \<Rightarrow> int \<Rightarrow> gnttab \<Rightarrow> (nat \<times> gnttab) option res" where
  "gnttab_grant_access gtf domid frame readonly s =
     bindR (get_free_entry s) (\<lambda>r. case r of
         None \<Rightarrow> Inr None
       | Some (ref, s) \<Rightarrow>
           let readonly = of_int readonly * GTF_readonly gtf in
           bindR (set_entry gtf ref domid frame (GTF_permit_access gtf OR readonly) s) (\<lambda>s. Inr (Some (ref, s))))"

definition gnttab_grant_transfer :: "gtf_bits \<Rightarrow> nat \<Rightarrow> nat \<Rightarrow> gnttab \<Rightarrow> (nat \<times> gnttab) option res" where
  "gnttab_grant_transfer gtf domid pfn s =
     bindR (get_free_entry s) (\<lambda>r. case r of
         None \<Rightarrow> Inr None
       | Some (ref, s) \<Rightarrow>
           bindR (set_entry gtf ref domid pfn (GTF_accept_transfer gtf) s) (\<lambda>s. Inr (Some (ref, s))))"

section \<open>Ending a grant\<close>

text \<open>
  The other domain changes the flags of an entry at any time. The list \<open>seen\<close> has what the routine
  finds there at each of its accesses; a list that is too short ends with \<open>Out_of_fuel\<close>.
\<close>

definition set_flags :: "nat \<Rightarrow> u16 \<Rightarrow> gnttab \<Rightarrow> gnttab" where
  "set_flags ref flags s = s\<lparr>gnttab_table := (gnttab_table s)[ref := (gnttab_table s ! ref)\<lparr>ge_flags := flags\<rparr>]\<rparr>"

text \<open>Whether the exchange was made, and the flags there are left.\<close>

fun end_access_loop :: "gtf_bits \<Rightarrow> u16 \<Rightarrow> u16 list \<Rightarrow> (bool \<times> u16) res" where
  "end_access_loop gtf nflags seen =
     (if nflags AND (GTF_reading gtf OR GTF_writing gtf) \<noteq> 0 then Inr (False, nflags)
      else case seen of
          [] \<Rightarrow> Inl Out_of_fuel
        | v # seen \<Rightarrow> if v = nflags then Inr (True, 0) else end_access_loop gtf v seen)"

declare end_access_loop.simps [simp del]

definition gnttab_end_access :: "gtf_bits \<Rightarrow> nat \<Rightarrow> u16 list \<Rightarrow> gnttab \<Rightarrow> (int \<times> gnttab) res" where
  "gnttab_end_access gtf ref seen s =
     guardR (\<not> (ref \<ge> NR_GRANT_ENTRIES s \<or> ref < NR_RESERVED_ENTRIES)) Assert_failed
       (case seen of
          [] \<Rightarrow> Inl Out_of_fuel
        | nflags # seen \<Rightarrow>
            bindR (end_access_loop gtf nflags seen) (\<lambda>(done, flags).
              let s = set_flags ref flags s in
              if done then bindR (put_free_entry ref s) (\<lambda>s. Inr (1, s)) else Inr (0, s)))"

text \<open>Either the entry is released, or the flags say that the transfer is committed.\<close>

fun uncommitted_loop :: "gtf_bits \<Rightarrow> u16 list \<Rightarrow> (u16 option \<times> u16 list) res" where
  "uncommitted_loop gtf [] = Inl Out_of_fuel"
| "uncommitted_loop gtf (flags # seen) =
     (if flags AND GTF_transfer_committed gtf \<noteq> 0 then Inr (Some flags, seen)
      else case seen of
          [] \<Rightarrow> Inl Out_of_fuel
        | v # seen \<Rightarrow> if v = flags then Inr (None, seen) else uncommitted_loop gtf seen)"

fun incomplete_loop :: "gtf_bits \<Rightarrow> u16 \<Rightarrow> u16 list \<Rightarrow> u16 res" where
  "incomplete_loop gtf flags seen =
     (if flags AND GTF_transfer_completed gtf \<noteq> 0 then Inr flags
      else case seen of [] \<Rightarrow> Inl Out_of_fuel | v # seen \<Rightarrow> incomplete_loop gtf v seen)"

declare incomplete_loop.simps [simp del]

text \<open>\<open>frame\<close> is what the hypervisor has stored when the transfer is complete.\<close>

definition gnttab_end_transfer :: "gtf_bits \<Rightarrow> nat \<Rightarrow> u16 list \<Rightarrow> nat \<Rightarrow> gnttab \<Rightarrow> (nat \<times> gnttab) res" where
  "gnttab_end_transfer gtf ref seen frame s =
     guardR (\<not> (ref \<ge> NR_GRANT_ENTRIES s \<or> ref < NR_RESERVED_ENTRIES)) Assert_failed
       (bindR (uncommitted_loop gtf seen) (\<lambda>(r, seen). case r of
            None \<Rightarrow> bindR (put_free_entry ref (set_flags ref 0 s)) (\<lambda>s. Inr (0, s))
          | Some flags \<Rightarrow>
              bindR (incomplete_loop gtf flags seen) (\<lambda>flags.
                let s = set_flags ref flags s;
                    s = s\<lparr>gnttab_table := (gnttab_table s)[ref := (gnttab_table s ! ref)\<lparr>ge_frame := frame\<rparr>]\<rparr>
                in bindR (put_free_entry ref s) (\<lambda>s. Inr (frame, s)))))"

section \<open>Shared pages, messages and start-up\<close>

text \<open>A page that is not there is granted as well, as the page at address 0.\<close>

definition gnttab_alloc_and_grant ::
  "gtf_bits \<Rightarrow> (nat \<Rightarrow> nat) \<Rightarrow> pgstate \<Rightarrow> gnttab \<Rightarrow> ((nat option \<times> nat \<times> gnttab) option \<times> pgstate) res" where
  "gnttab_alloc_and_grant gtf virt_to_mfn pg s =
     bindR (bmk_pgalloc pg 0) (\<lambda>(map, pg).
       let mfn = virt_to_mfn (case map of None \<Rightarrow> 0 | Some p \<Rightarrow> p) in
       bindR (gnttab_grant_access gtf 0 mfn 0 s) (\<lambda>r. case r of
           None \<Rightarrow> Inr (None, pg)
         | Some (gref, s) \<Rightarrow> Inr (Some (map, gref, s), pg)))"

text \<open>The status is a signed 16-bit value, also after the change of sign.\<close>

definition gnttabop_error :: "string list \<Rightarrow> int \<Rightarrow> string" where
  "gnttabop_error msgs status =
     (let status = (- status + 2 ^ 15) mod 2 ^ 16 - 2 ^ 15
      in if status < 0 \<or> status \<ge> int (length msgs) then ''bad status'' else msgs ! nat status)"

fun put_entries :: "nat list \<Rightarrow> gnttab \<Rightarrow> gnttab res" where
  "put_entries [] s = Inr s"
| "put_entries (i # is) s = bindR (put_free_entry i s) (put_entries is)"

text \<open>The table that the hypervisor has set up is mapped after the list is filled.\<close>

definition init_gnttab :: "grant_entry list \<Rightarrow> gnttab \<Rightarrow> gnttab res" where
  "init_gnttab mapped s =
     bindR (put_entries [NR_RESERVED_ENTRIES..<NR_GRANT_ENTRIES s] s) (\<lambda>s. Inr (s\<lparr>gnttab_table := mapped\<rparr>))"

text \<open>The statics before \<open>init_gnttab\<close>.\<close>

definition gnttab_static :: "nat \<Rightarrow> gnttab" where
  "gnttab_static n = \<lparr>gnttab_table = [], gnttab_list = replicate n 0, gnttab_sem = 0\<rparr>"

end
