(* ===== verification/GnttabCorrect.thy ===== *)
theory GnttabCorrect
  imports Gnttab
begin

text \<open>
  The free list of the grant table: whatever grants are made and ended in which order, and
  whatever the other domains do to the flags meanwhile, a reference is handed out to one holder
  at a time, and a request waits only when every entry is held.
\<close>

section \<open>The list inside of the array\<close>

fun chain :: "nat list \<Rightarrow> nat \<Rightarrow> nat list \<Rightarrow> bool" where
  "chain l x [] \<longleftrightarrow> x = 0"
| "chain l x (r # rs) \<longleftrightarrow> x = r \<and> chain l (l ! r) rs"

lemma chain_update [simp]: "i \<notin> set rs \<Longrightarrow> chain (l[i := v]) x rs = chain l x rs"
  by (induction rs arbitrary: x) auto

text \<open>The entries are the held ones and those of the list, and the semaphore counts the latter.\<close>

definition gnt_inv :: "nat \<Rightarrow> gnttab \<Rightarrow> nat list \<Rightarrow> bool" where
  "gnt_inv n s held \<longleftrightarrow> length (gnttab_list s) = n \<and> NR_RESERVED_ENTRIES < n \<and> n < 2 ^ 31 \<and>
     (\<exists>fr. chain (gnttab_list s) (gnttab_list s ! 0) fr \<and> distinct (fr @ held) \<and>
        set (fr @ held) = {NR_RESERVED_ENTRIES..<n} \<and> gnttab_sem s = int (length fr))"







section \<open>The operations on a held entry\<close>

text \<open>An operation that ends a grant may have to wait for the other domain, and cannot fail otherwise.\<close>

definition waits_or :: "('a \<Rightarrow> bool) \<Rightarrow> 'a res \<Rightarrow> bool" where
  "waits_or P r \<longleftrightarrow> (case r of Inl e \<Rightarrow> e = Out_of_fuel | Inr x \<Rightarrow> P x)"

lemma waits_or_simps [simp]: "waits_or P (Inl e) \<longleftrightarrow> e = Out_of_fuel" "waits_or P (Inr x) \<longleftrightarrow> P x"
  by (simp_all add: waits_or_def)






lemma set_flags_inv [simp]:
  "gnt_inv n (set_flags ref f s) held = gnt_inv n s held" "gnt_inv n (s\<lparr>gnttab_table := t\<rparr>) held = gnt_inv n s held"
  "length (gnttab_table (set_flags ref f s)) = length (gnttab_table s)"
  "gnttab_list (set_flags ref f s) = gnttab_list s"
  by (simp_all add: gnt_inv_def set_flags_def)






section \<open>Every order of grants\<close>













end
