(* ===== verification/Xencons.thy ===== *)
theory Xencons
  imports BmkPrelude
begin

text \<open>
  Console output and input of the Xen platform, \<open>platform/xen/xen/console/xencons_ring.c\<close> and the
  printing part of \<open>platform/xen/xen/console/console.c\<close>. The rings are shared with a daemon of
  another domain. Their sizes are the lengths of the two lists, and \<open>midx\<close> is the macro
  \<open>MASK_XENCONS_IDX\<close> of Xen's header, which takes an index and the size of the ring. The indices are unsigned 32-bit
  numbers in Xen's public interface. What the input handler prints is its result; that the
  printing adds to the output ring is left out.
\<close>

section \<open>State\<close>

record xencons_interface =
  xc_in :: "u8 list"
  xc_out :: "u8 list"
  in_cons :: u32
  in_prod :: u32
  out_cons :: u32
  out_prod :: u32

type_synonym ring_mask = "u32 \<Rightarrow> nat \<Rightarrow> nat"

text \<open>
  \<open>ring\<close> is the interface that both the device and the null device lead to, None without a
  console channel. \<open>notified\<close> counts the notifications, and \<open>taken\<close> is what the daemon has taken out
  of the output ring so far.
\<close>

record xcons =
  ring :: "xencons_interface option"
  console_initialised :: bool
  notified :: nat
  taken :: "u8 list"

definition notify_daemon :: "xcons \<Rightarrow> xcons" where
  "notify_daemon x = x\<lparr>notified := notified x + 1\<rparr>"

section \<open>The daemon\<close>

text \<open>The bytes between two indices, and a daemon that takes up to \<open>k\<close> of them.\<close>

definition contents :: "ring_mask \<Rightarrow> u8 list \<Rightarrow> u32 \<Rightarrow> u32 \<Rightarrow> u8 list" where
  "contents midx buf cns prd = map (\<lambda>i. buf ! midx (cns + of_nat i) (length buf)) [0..<unat (prd - cns)]"

definition out_contents :: "ring_mask \<Rightarrow> xcons \<Rightarrow> u8 list" where
  "out_contents midx x = (case ring x of None \<Rightarrow> [] | Some r \<Rightarrow> contents midx (xc_out r) (out_cons r) (out_prod r))"

definition daemon_takes :: "ring_mask \<Rightarrow> nat \<Rightarrow> xcons \<Rightarrow> xcons" where
  "daemon_takes midx k x =
     (case ring x of
        None \<Rightarrow> x
      | Some r \<Rightarrow>
          let k = min k (unat (out_prod r - out_cons r))
          in x\<lparr>ring := Some (r\<lparr>out_cons := out_cons r + of_nat k\<rparr>), taken := taken x @ take k (out_contents midx x)\<rparr>)"

section \<open>Output to the ring\<close>

fun send_loop :: "ring_mask \<Rightarrow> u32 \<Rightarrow> u32 \<Rightarrow> u8 list \<Rightarrow> u8 list \<Rightarrow> nat \<Rightarrow> (nat \<times> u32 \<times> u8 list) res" where
  "send_loop midx cns prd out [] sent = Inr (sent, prd, out)"
| "send_loop midx cns prd out (c # data) sent =
     (if unat (prd - cns) < length out
      then guardR (midx prd (length out) < length out) Out_of_bounds
             (send_loop midx cns (prd + 1) (out[midx prd (length out) := c]) data (sent + 1))
      else Inr (sent, prd, out))"

definition xencons_ring_send_no_notify :: "ring_mask \<Rightarrow> u8 list \<Rightarrow> xcons \<Rightarrow> (nat \<times> xcons) res" where
  "xencons_ring_send_no_notify midx data x =
     (case ring x of
        None \<Rightarrow> Inr (0, x)
      | Some r \<Rightarrow>
          guardR (\<not> unat (out_prod r - out_cons r) > length (xc_out r)) Assert_failed
            (bindR (send_loop midx (out_cons r) (out_prod r) (xc_out r) data 0) (\<lambda>(sent, prd, out).
               Inr (sent, x\<lparr>ring := Some (r\<lparr>xc_out := out, out_prod := prd\<rparr>)\<rparr>))))"

text \<open>
  The loop of \<open>xencons_ring_send\<close> on what is left to send. Before each round the daemon takes as
  many bytes as the next number of \<open>ks\<close> allows.
\<close>

fun ring_send_loop :: "ring_mask \<Rightarrow> nat list \<Rightarrow> u8 list \<Rightarrow> int \<Rightarrow> xcons \<Rightarrow> (int \<times> nat list \<times> xcons) res" where
  "ring_send_loop midx ks data sent x =
     (if data = [] then Inr (sent, ks, x)
      else case ks of
          [] \<Rightarrow> Inl Out_of_fuel
        | k # ks \<Rightarrow>
            bindR (xencons_ring_send_no_notify midx data (daemon_takes midx k x)) (\<lambda>(part, x).
            bindR (chk32 (sent + int part)) (\<lambda>sent.
              ring_send_loop midx ks (drop part data) sent (notify_daemon x))))"

declare ring_send_loop.simps [simp del]

definition xencons_ring_send :: "ring_mask \<Rightarrow> u8 list \<Rightarrow> nat list \<times> xcons \<Rightarrow> (int \<times> nat list \<times> xcons) res" where
  "xencons_ring_send midx data st =
     bindR (ring_send_loop midx (fst st) data 0 (snd st)) (\<lambda>(sent, st).
       guardR (sent = int (length data)) Assert_failed (Inr (sent, st)))"

section \<open>Printing\<close>

type_synonym 'st send_fn = "u8 list \<Rightarrow> 'st \<Rightarrow> (int \<times> 'st) res"

text \<open>
  The loop over the characters but the last: \<open>ptr\<close> and \<open>len\<close> are \<open>copied_ptr\<close> and \<open>length\<close>, as an
  index into the copy and what is left.
\<close>

function (sequential) print_loop ::
  "'st send_fn \<Rightarrow> u8 list \<Rightarrow> nat \<Rightarrow> int \<Rightarrow> nat \<Rightarrow> 'st \<Rightarrow> (u8 list \<times> nat \<times> int \<times> 'st) res" where
  "print_loop send buf ptr len cur st =
     (if int cur < int ptr + len - 1 then
        bindR (rd buf cur) (\<lambda>c.
        if c = byte CHR 0x0A then
          bindR (wr buf cur (byte CHR 0x0D)) (\<lambda>buf.
          bindR (rd buf (cur + 1)) (\<lambda>saved_char.
          bindR (wr buf (cur + 1) (byte CHR 0x0A)) (\<lambda>buf.
          let part_len = cur - ptr + 2 in
          bindR (send (take part_len (drop ptr buf)) st) (\<lambda>(_, st).
          bindR (wr buf (cur + 1) saved_char) (\<lambda>buf.
            print_loop send buf (cur + 1) (len - (int (cur + 1) - int ptr)) (cur + 1) st)))))
        else print_loop send buf ptr len (cur + 1) st)
      else Inr (buf, ptr, len, st))"
  by pat_completeness auto
termination
  by (relation "measure (\<lambda>(send, buf, ptr, len, cur, st). nat (int ptr + len - int cur))") auto

declare print_loop.simps [simp del]

text \<open>\<open>console_print\<close> is \<open>minios_console_print\<close> for the sending function it has chosen.\<close>

definition console_print :: "'st send_fn \<Rightarrow> bool \<Rightarrow> u8 list \<Rightarrow> 'st \<Rightarrow> 'st res" where
  "console_print send no_notify data st =
     bindR (print_loop send (data @ [0]) 0 (int (length data)) 0 st) (\<lambda>(buf, ptr, len, st).
     guardR (0 \<le> int ptr + len - 1) Out_of_bounds
       (let last = nat (int ptr + len - 1) in
        bindR (rd buf last) (\<lambda>c.
        bindR (if c = byte CHR 0x0A
               then bindR (wr buf last (byte CHR 0x0D)) (\<lambda>buf.
                    bindR (wr buf (last + 1) (byte CHR 0x0A)) (\<lambda>buf. Inr (buf, len + 1)))
               else Inr (buf, len)) (\<lambda>(buf, len).
        bindR (send (take (nat len) (drop ptr buf)) st) (\<lambda>(sent, st).
          guardR (no_notify \<or> sent = len) Assert_failed (Inr st))))))"

definition minios_console_print :: "ring_mask \<Rightarrow> u8 list \<Rightarrow> nat list \<times> xcons \<Rightarrow> (nat list \<times> xcons) res" where
  "minios_console_print midx data st =
     (if \<not> console_initialised (snd st)
      then console_print (\<lambda>data st. bindR (xencons_ring_send_no_notify midx data (snd st)) (\<lambda>(sent, x). Inr (int sent, fst st, x)))
             True data st
      else console_print (xencons_ring_send midx) False data st)"

section \<open>Input\<close>

text \<open>
  \<open>xencons_rx\<close> for one character at \<open>p\<close>: it terminates the string inside of the ring and prints
  it. The result has the ring and the texts that are printed.
\<close>

definition xencons_rx :: "u8 list \<Rightarrow> nat \<Rightarrow> (u8 list \<times> u8 list list) res" where
  "xencons_rx buf p =
     bindR (wr buf (p + 1) 0) (\<lambda>buf.
     bindR (rd buf p) (\<lambda>c.
       Inr (buf, (if c = 0 then [] else [c]) #
         (if c = byte CHR 0x0D then [byte CHR 0x0A # bytes ''No console input handler.'' @ [byte CHR 0x0A]] else []))))"

text \<open>The loop makes as many rounds as there are characters between the indices.\<close>

fun input_loop :: "ring_mask \<Rightarrow> nat \<Rightarrow> u32 \<Rightarrow> u8 list \<Rightarrow> u8 list list \<Rightarrow> (u32 \<times> u8 list \<times> u8 list list) res" where
  "input_loop midx 0 cns buf printed = Inr (cns, buf, printed)"
| "input_loop midx (Suc n) cns buf printed =
     bindR (xencons_rx buf (midx cns (length buf))) (\<lambda>(buf, p).
       input_loop midx n (cns + 1) buf (printed @ p))"

definition console_handle_input :: "ring_mask \<Rightarrow> xcons \<Rightarrow> (u8 list list \<times> xcons) res" where
  "console_handle_input midx x =
     (case ring x of
        None \<Rightarrow> Inl Null_deref
      | Some r \<Rightarrow>
          guardR (\<not> unat (in_prod r - in_cons r) > length (xc_in r)) Assert_failed
            (bindR (input_loop midx (unat (in_prod r - in_cons r)) (in_cons r) (xc_in r) []) (\<lambda>(cns, buf, printed).
               Inr (printed, notify_daemon (x\<lparr>ring := Some (r\<lparr>xc_in := buf, in_cons := cns\<rparr>)\<rparr>)))))"

end
