(* ===== verification/XenconsCorrect.thy ===== *)
theory XenconsCorrect
  imports Xencons
begin

text \<open>
  Console output reaches the daemon complete and in order, with every line feed preceded by a
  carriage return, also when the 32-bit indices of the ring wrap around. Of input that arrives in
  one go only the first character is seen.
\<close>

section \<open>The ring as a queue\<close>

definition ring_ok :: "ring_mask \<Rightarrow> nat \<Rightarrow> bool" where
  "ring_ok midx n \<longleftrightarrow> 0 < n \<and> n < 2 ^ 32 \<and> n dvd 2 ^ 32 \<and> (\<forall>i. midx i n = unat i mod n)"

lemma unat_add_mod:
  assumes "n dvd 2 ^ 32"
  shows "unat (a + b :: u32) mod n = (unat a + unat b) mod n"
  using assms by (simp add: unat_word_ariths mod_mod_cancel)

lemma contents_length [simp]: "length (contents midx buf cns prd) = unat (prd - cns)"
  by (simp add: contents_def)

lemma unat_diff_Suc:
  assumes "unat (prd - cns :: u32) < n" "n < 2 ^ 32"
  shows "unat (prd + 1 - cns) = Suc (unat (prd - cns))"
proof -
  define d where "d = prd - cns"
  have e: "prd + 1 - cns = d + 1" by (simp add: d_def)
  show ?thesis unfolding e using assms unfolding d_def [symmetric] by (simp add: unat_word_ariths)
qed

lemma contents_put:
  assumes ok: "ring_ok midx (length buf)" and lt: "unat (prd - cns) < length buf"
  shows "contents midx (buf[midx prd (length buf) := c]) cns (prd + 1) = contents midx buf cns prd @ [c]"
proof -
  let ?n = "length buf" and ?k = "unat (prd - cns)"
  have n: "0 < ?n" "?n < 2 ^ 32" "?n dvd 2 ^ 32" and m: "midx i ?n = unat i mod ?n" for i
    using ok by (auto simp: ring_ok_def)
  have p: "unat prd mod ?n = (unat cns + ?k) mod ?n" using unat_add_mod [OF n(3), of cns "prd - cns"] by simp
  have ne: "(unat (cns + of_nat i) mod ?n) \<noteq> unat prd mod ?n" if "i < ?k" for i
  proof
    have i: "unat (of_nat i :: u32) = i" using that lt n(2) by (simp add: unat_of_nat)
    assume "unat (cns + of_nat i) mod ?n = unat prd mod ?n"
    then have e: "(unat cns + i) mod ?n = (unat cns + ?k) mod ?n" using p i by (simp add: unat_add_mod [OF n(3)])
    have "unat cns + i \<le> unat cns + ?k" using that by simp
    from mod_eq_dvd_iff_nat [OF this] e have "?n dvd ?k - i" by (simp add: eq_commute)
    then show False using that lt by (auto dest: dvd_imp_le)
  qed
  have q: "unat (cns + of_nat ?k) = unat prd" by simp
  show ?thesis
    unfolding contents_def length_list_update unat_diff_Suc [OF lt n(2)]
    using n(1) by (simp add: m nth_list_update_neq [OF ne [symmetric]])
qed

lemma contents_take:
  assumes "k \<le> unat (prd - cns)"
  shows "contents midx buf (cns + of_nat k) prd = drop k (contents midx buf cns prd)"
proof -
  have "unat (prd - cns) < 2 ^ 32" using unsigned_less [of "prd - cns"] by simp
  then have k: "unat (of_nat k :: u32) = k" using assms by (simp add: unat_of_nat)
  define d where "d = prd - cns"
  have e: "prd - (cns + of_nat k) = d - of_nat k" by (simp add: d_def)
  have u: "unat (prd - (cns + of_nat k)) = unat (prd - cns) - k"
    unfolding e using assms k unfolding d_def [symmetric] by (simp add: unat_sub word_le_nat_alt)
  have "drop k [0..<unat (prd - cns)] = map ((+) k) [0..<unat (prd - cns) - k]"
    by (rule nth_equalityI) simp_all
  then show ?thesis unfolding contents_def u by (simp add: drop_map algebra_simps)
qed

lemma send_loop_ok:
  fixes data out :: "u8 list"
  assumes "ring_ok midx (length out)" "unat (prd - cns) \<le> length out"
  defines "m \<equiv> min (length data) (length out - unat (prd - cns))"
  shows "\<exists>out'. send_loop midx cns prd out data sent = Inr (sent + m, prd + of_nat m, out') \<and> length out' = length out \<and>
    contents midx out' cns (prd + of_nat m) = contents midx out cns prd @ take m data \<and>
    unat (prd + of_nat m - cns) = unat (prd - cns) + m"
  unfolding m_def using assms(1,2)
proof (induction data arbitrary: prd out sent)
  case (Cons c data)
  show ?case
  proof (cases "unat (prd - cns) < length out")
    case True
    let ?out = "out[midx prd (length out) := c]"
    have n: "length out < 2 ^ 32" "midx prd (length out) < length out" using Cons.prems(1) by (auto simp: ring_ok_def)
    note u = unat_diff_Suc [OF True n(1)]
    have ok: "ring_ok midx (length ?out)" "unat (prd + 1 - cns) \<le> length ?out" using Cons.prems True by (simp_all add: u)
    have d: "length out - unat (prd - cns) = Suc (length ?out - unat (prd + 1 - cns))" using True by (simp add: u)
    obtain out' where o: "send_loop midx cns (prd + 1) ?out data (sent + 1) =
        Inr (sent + 1 + min (length data) (length ?out - unat (prd + 1 - cns)),
          prd + 1 + of_nat (min (length data) (length ?out - unat (prd + 1 - cns))), out')" "length out' = length ?out"
      "contents midx out' cns (prd + 1 + of_nat (min (length data) (length ?out - unat (prd + 1 - cns)))) =
        contents midx ?out cns (prd + 1) @ take (min (length data) (length ?out - unat (prd + 1 - cns))) data"
      "unat (prd + 1 + of_nat (min (length data) (length ?out - unat (prd + 1 - cns))) - cns) =
        unat (prd + 1 - cns) + min (length data) (length ?out - unat (prd + 1 - cns))"
      using Cons.IH [OF ok, of "sent + 1"] by blast
    have m: "min (length (c # data)) (length out - unat (prd - cns)) = Suc (min (length data) (length ?out - unat (prd + 1 - cns)))"
      unfolding d by simp
    show ?thesis
      unfolding m using o True n(2) contents_put [OF Cons.prems(1) True, of c] u by (simp add: add.assoc)
  qed (use Cons.prems in simp)
qed simp

section \<open>Sending\<close>

definition xcons_ok :: "ring_mask \<Rightarrow> xcons \<Rightarrow> bool" where
  "xcons_ok midx x \<longleftrightarrow> (case ring x of
       None \<Rightarrow> False
     | Some r \<Rightarrow> ring_ok midx (length (xc_out r)) \<and> unat (out_prod r - out_cons r) \<le> length (xc_out r))"

text \<open>Everything that has been sent, whether taken or not, and the room there is.\<close>

definition flow :: "ring_mask \<Rightarrow> xcons \<Rightarrow> u8 list" where
  "flow midx x = taken x @ out_contents midx x"

definition room :: "xcons \<Rightarrow> nat" where
  "room x = (case ring x of None \<Rightarrow> 0 | Some r \<Rightarrow> length (xc_out r) - unat (out_prod r - out_cons r))"

lemma daemon_takes_ok:
  assumes "xcons_ok midx x"
  shows "xcons_ok midx (daemon_takes midx k x)" "flow midx (daemon_takes midx k x) = flow midx x"
    "0 < k \<Longrightarrow> 0 < room (daemon_takes midx k x)" "console_initialised (daemon_takes midx k x) = console_initialised x"
proof -
  obtain r where r: "ring x = Some r" "ring_ok midx (length (xc_out r))" "unat (out_prod r - out_cons r) \<le> length (xc_out r)"
    using assms by (auto simp: xcons_ok_def split: option.splits)
  define j where "j = min k (unat (out_prod r - out_cons r))"
  have j: "j \<le> unat (out_prod r - out_cons r)" by (simp add: j_def)
  note t = contents_take [OF j, of midx "xc_out r"]
  from arg_cong [OF t, of length] have l: "unat (out_prod r - (out_cons r + of_nat j)) = unat (out_prod r - out_cons r) - j" by simp
  have d: "daemon_takes midx k x = x\<lparr>ring := Some (r\<lparr>out_cons := out_cons r + of_nat j\<rparr>),
      taken := taken x @ take j (contents midx (xc_out r) (out_cons r) (out_prod r))\<rparr>"
    using r(1) by (simp add: daemon_takes_def j_def out_contents_def Let_def)
  show "xcons_ok midx (daemon_takes midx k x)" using r l by (simp add: d xcons_ok_def)
  show "flow midx (daemon_takes midx k x) = flow midx x" using r(1) t by (simp add: d flow_def out_contents_def)
  show "console_initialised (daemon_takes midx k x) = console_initialised x" by (simp add: d)
  show "0 < room (daemon_takes midx k x)" if "0 < k"
    using that r l by (auto simp: d room_def j_def ring_ok_def min_def)
qed

lemma send_no_notify_ok:
  fixes data :: "u8 list"
  assumes "xcons_ok midx x"
  defines "m \<equiv> min (length data) (room x)"
  obtains x' where "xencons_ring_send_no_notify midx data x = Inr (m, x')" "xcons_ok midx x'"
    "flow midx x' = flow midx x @ take m data" "console_initialised x' = console_initialised x"
proof -
  obtain r where r: "ring x = Some r" "ring_ok midx (length (xc_out r))" "unat (out_prod r - out_cons r) \<le> length (xc_out r)"
    using assms(1) by (auto simp: xcons_ok_def split: option.splits)
  have m: "m = min (length data) (length (xc_out r) - unat (out_prod r - out_cons r))" by (simp add: m_def room_def r(1))
  obtain out' where o: "send_loop midx (out_cons r) (out_prod r) (xc_out r) data 0 = Inr (m, out_prod r + of_nat m, out')"
    "length out' = length (xc_out r)"
    "contents midx out' (out_cons r) (out_prod r + of_nat m) = contents midx (xc_out r) (out_cons r) (out_prod r) @ take m data"
    "unat (out_prod r + of_nat m - out_cons r) = unat (out_prod r - out_cons r) + m"
    using send_loop_ok [OF r(2,3), of data 0] unfolding m by auto
  let ?x = "x\<lparr>ring := Some (r\<lparr>xc_out := out', out_prod := out_prod r + of_nat m\<rparr>)\<rparr>"
  show thesis
  proof (rule that [of ?x])
    show "xencons_ring_send_no_notify midx data x = Inr (m, ?x)" using r o(1) by (simp add: xencons_ring_send_no_notify_def)
    show "xcons_ok midx ?x" using r o(2,4) m by (auto simp: xcons_ok_def)
    show "flow midx ?x = flow midx x @ take m data" using r(1) o(3) by (simp add: flow_def out_contents_def)
  qed simp
qed

lemma notify_daemon_simps [simp]:
  "xcons_ok midx (notify_daemon x) = xcons_ok midx x" "flow midx (notify_daemon x) = flow midx x"
  "console_initialised (notify_daemon x) = console_initialised x"
  by (simp_all add: notify_daemon_def xcons_ok_def flow_def out_contents_def)

text \<open>A daemon that takes at least a byte in each round lets the loop end.\<close>

lemma ring_send_loop_ok:
  assumes "xcons_ok midx x" "\<forall>k \<in> set ks. 0 < k" "length data \<le> length ks" "0 \<le> sent" "sent + int (length data) < 2 ^ 31"
  shows "\<exists>ks' x'. ring_send_loop midx ks data sent x = Inr (sent + int (length data), ks', x') \<and> xcons_ok midx x' \<and>
    flow midx x' = flow midx x @ data \<and> set ks' \<subseteq> set ks \<and> length ks \<le> length ks' + length data \<and>
    console_initialised x' = console_initialised x"
  using assms
proof (induction ks arbitrary: data sent x)
  case Nil
  then show ?case by (simp add: ring_send_loop.simps)
next
  case (Cons k ks)
  show ?case
  proof (cases "data = []")
    case True
    then show ?thesis using Cons.prems by (auto simp: ring_send_loop.simps)
  next
    case False
    let ?y = "daemon_takes midx k x" and ?m = "min (length data) (room (daemon_takes midx k x))"
    note d = daemon_takes_ok [OF Cons.prems(1), of k]
    have m: "0 < ?m" using False d(3) Cons.prems(2) by simp
    obtain x1 where x1: "xencons_ring_send_no_notify midx data ?y = Inr (?m, x1)" "xcons_ok midx x1"
      "flow midx x1 = flow midx ?y @ take ?m data" "console_initialised x1 = console_initialised ?y"
      by (rule send_no_notify_ok [OF d(1), of data])
    have ih: "xcons_ok midx (notify_daemon x1)" "\<forall>k \<in> set ks. 0 < k" "length (drop ?m data) \<le> length ks"
      "0 \<le> sent + int ?m" "sent + int ?m + int (length (drop ?m data)) < 2 ^ 31"
      using x1(2) Cons.prems m by auto
    have c: "chk32 (sent + int ?m) = Inr (sent + int ?m)" using Cons.prems by (intro chk32_ok) auto
    have e: "ring_send_loop midx (k # ks) data sent x = ring_send_loop midx ks (drop ?m data) (sent + int ?m) (notify_daemon x1)"
      by (subst ring_send_loop.simps) (simp only: False if_False list.case x1(1) bindR_simps prod.case c)
    have t: "sent + int ?m + int (length (drop ?m data)) = sent + int (length data)" by auto
    obtain ks' x' where r: "ring_send_loop midx ks (drop ?m data) (sent + int ?m) (notify_daemon x1) = Inr (sent + int (length data), ks', x')"
      "xcons_ok midx x'" "flow midx x' = flow midx x1 @ drop ?m data" "set ks' \<subseteq> set ks" "length ks \<le> length ks' + length (drop ?m data)"
      "console_initialised x' = console_initialised x1"
      using Cons.IH [OF ih] unfolding t notify_daemon_simps by blast
    have "flow midx x' = flow midx x @ data" using r(3) x1(3) d(2) by (metis append.assoc append_take_drop_id)
    moreover have "length (drop ?m data) < length data" using m False by (simp add: diff_less)
    then have "length (k # ks) \<le> length ks' + length data" using r(5) by simp
    ultimately show ?thesis unfolding e using r x1(4) d(4) by auto
  qed
qed

section \<open>Line ends\<close>

definition crlf :: "u8 list \<Rightarrow> u8 list" where
  "crlf xs = concat (map (\<lambda>c. if c = 0x0A then [0x0D, 0x0A] else [c]) xs)"

lemma crlf_simps [simp]: "crlf [] = []" "crlf (c # xs) = (if c = 0x0A then [0x0D, 0x0A] else [c]) @ crlf xs"
  "crlf (xs @ ys) = crlf xs @ crlf ys"
  by (simp_all add: crlf_def)

lemma crlf_same: "0x0A \<notin> set xs \<Longrightarrow> crlf xs = xs"
  by (induction xs) auto

lemma crlf_nonempty: "xs \<noteq> [] \<Longrightarrow> crlf xs \<noteq> []"
  by (cases xs) auto

text \<open>
  What printing needs of the sending function: with capacity for the text it sends all of it, and
  uses up no more capacity than that.
\<close>

locale sender =
  fixes send :: "'st send_fn" and able :: "nat \<Rightarrow> 'st \<Rightarrow> bool" and seen :: "'st \<Rightarrow> u8 list"
  assumes send_all: "able n st \<Longrightarrow> length data \<le> n \<Longrightarrow>
    \<exists>st'. send data st = Inr (int (length data), st') \<and> able (n - length data) st' \<and> seen st' = seen st @ data"
begin

text \<open>The text from \<open>ptr\<close> on is still to be sent, and has no line feed before \<open>cur\<close>.\<close>

lemma print_loop_ok:
  assumes "length buf = Suc (length ds)" "int ptr + len = int (length ds)" "ptr \<le> cur" "cur < length ds"
    "drop ptr (take (length ds) buf) = drop ptr ds" "0x0A \<notin> set (drop ptr (take cur ds))"
    "able (length (crlf (drop ptr ds))) st"
  shows "\<exists>buf' ptr' st'. print_loop send buf ptr len cur st = Inr (buf', ptr', int (length ds) - int ptr', st') \<and>
    length buf' = Suc (length ds) \<and> ptr' < length ds \<and> drop ptr' (take (length ds) buf') = drop ptr' ds \<and>
    0x0A \<notin> set (drop ptr' (butlast ds)) \<and> able (length (crlf (drop ptr' ds))) st' \<and>
    seen st' @ crlf (drop ptr' ds) = seen st @ crlf (drop ptr ds)"
  using assms
proof (induction "length ds - cur" arbitrary: buf ptr len cur st)
  case 0
  then show ?case by simp
next
  case (Suc j)
  have at: "buf ! i = ds ! i" if "ptr \<le> i" "i < length ds" for i
    using arg_cong [OF Suc.prems(5), of "\<lambda>xs. xs ! (i - ptr)"] that Suc.prems(1) by simp
  show ?case
  proof (cases "Suc cur < length ds")
    case False
    then have "cur = length ds - 1" using Suc.prems(4) by simp
    moreover have "\<not> int cur < int ptr + len - 1" using False Suc.prems(2) by simp
    moreover have "len = int (length ds) - int ptr" using Suc.prems(2) by simp
    ultimately show ?thesis using Suc.prems
      by (subst print_loop.simps) (auto simp: butlast_conv_take)
  next
    case True
    then have lt: "int cur < int ptr + len - 1" using Suc.prems(2) by simp
    have cur: "cur < length buf" "Suc cur < length buf" using True Suc.prems(1) by auto
    show ?thesis
    proof (cases "ds ! cur = 0x0A")
      case nl: False
      have e: "print_loop send buf ptr len cur st = print_loop send buf ptr len (cur + 1) st"
        using lt cur nl at [OF Suc.prems(3,4)] by (subst print_loop.simps) simp
      have "0x0A \<notin> set (drop ptr (take (Suc cur) ds))"
        using Suc.prems(3,4,6) nl by (auto simp: take_Suc_conv_app_nth)
      then show ?thesis unfolding e using Suc.prems True Suc.hyps(2) by (intro Suc.hyps(1)) auto
    next
      case nl: True
      let ?w = "drop ptr (take cur ds)"
      let ?b = "buf[cur := 0x0D, Suc cur := 0x0A]" and ?b' = "buf[cur := 0x0D]"
      have c: "drop ptr ds = ?w @ 0x0A # drop (Suc cur) ds"
      proof -
        have "drop ptr ds = drop ptr (take cur ds @ drop cur ds)" by simp
        also have "\<dots> = ?w @ drop cur ds" unfolding drop_append using Suc.prems(3,4) by simp
        also have "drop cur ds = 0x0A # drop (Suc cur) ds" using nl Cons_nth_drop_Suc [OF Suc.prems(4)] by simp
        finally show ?thesis .
      qed
      have seg: "take (cur - ptr + 2) (drop ptr ?b) = ?w @ [0x0D, 0x0A]"
        using cur Suc.prems(3,4) at by (intro nth_equalityI) (auto simp: nth_append nth_list_update)
      have cr: "crlf (drop ptr ds) = (?w @ [0x0D, 0x0A]) @ crlf (drop (Suc cur) ds)"
        unfolding c using crlf_same [OF Suc.prems(6)] by simp
      obtain st1 where st1: "send (?w @ [0x0D, 0x0A]) st = Inr (int (length (?w @ [0x0D, 0x0A])), st1)"
        "able (length (crlf (drop ptr ds)) - length (?w @ [0x0D, 0x0A])) st1" "seen st1 = seen st @ ?w @ [0x0D, 0x0A]"
        using send_all [OF Suc.prems(7), of "?w @ [0x0D, 0x0A]"] unfolding cr by auto
      have bk: "?b[Suc cur := ?b' ! Suc cur] = ?b'" by (simp only: list_update_overwrite list_update_id)
      have e: "print_loop send buf ptr len cur st = print_loop send ?b' (Suc cur) (len - (int (Suc cur) - int ptr)) (Suc cur) st1"
        using lt cur nl at [OF Suc.prems(3,4)] seg st1(1) bk by (subst print_loop.simps) (simp add: Let_def)
      have ih: "length ?b' = Suc (length ds)" "int (Suc cur) + (len - (int (Suc cur) - int ptr)) = int (length ds)"
        "drop (Suc cur) (take (length ds) ?b') = drop (Suc cur) ds" "0x0A \<notin> set (drop (Suc cur) (take (Suc cur) ds))"
        "able (length (crlf (drop (Suc cur) ds))) st1" "j = length ds - Suc cur"
      proof -
        show "drop (Suc cur) (take (length ds) ?b') = drop (Suc cur) ds"
          using Suc.prems(1,3) at by (intro nth_equalityI) auto
        show "able (length (crlf (drop (Suc cur) ds))) st1" using st1(2) unfolding cr by simp
      qed (use Suc.prems(1,2) Suc.hyps(2) in auto)
      from Suc.hyps(1) [OF ih(6) ih(1,2) _ True ih(3-5)] show ?thesis unfolding e cr using st1(3) by auto
    qed
  qed
qed

text \<open>Printing sends the text with a carriage return before each line feed.\<close>

lemma console_print_ok:
  assumes "data \<noteq> []" "able (length (crlf data)) st"
  shows "\<exists>st'. console_print send no_notify data st = Inr st' \<and> able 0 st' \<and> seen st' = seen st @ crlf data"
proof -
  have "0x0A \<notin> set (drop 0 (take 0 data))" by simp
  then obtain buf ptr st1 where p: "print_loop send (data @ [0]) 0 (int (length data)) 0 st = Inr (buf, ptr, int (length data) - int ptr, st1)"
    "length buf = Suc (length data)" "ptr < length data" "drop ptr (take (length data) buf) = drop ptr data"
    "0x0A \<notin> set (drop ptr (butlast data))" "able (length (crlf (drop ptr data))) st1"
    "seen st1 @ crlf (drop ptr data) = seen st @ crlf data"
    using print_loop_ok [of "data @ [0]" data 0 "int (length data)" 0 st] assms by auto
  let ?w = "drop ptr (butlast data)" and ?c = "last data" and ?l = "length data - 1"
  have d: "drop ptr data = ?w @ [?c]"
    using arg_cong [OF append_butlast_last_id [OF assms(1)], of "drop ptr"] p(3) unfolding drop_append by simp
  have w: "length ?w = ?l - ptr" by simp
  define pre z where "pre = take ptr buf" and "z = buf ! length data"
  have pre: "length pre = ptr" using p(2,3) by (simp add: pre_def)
  have b: "buf = pre @ ?w @ [?c, z]"
  proof -
    have "buf = take (length data) buf @ drop (length data) buf" by simp
    also have "drop (length data) buf = [z]" using p(2) by (intro nth_equalityI) (auto simp: z_def)
    also have "take (length data) buf = pre @ ?w @ [?c]"
      using append_take_drop_id [of ptr "take (length data) buf"] p(3,4) d by (simp add: pre_def)
    finally show ?thesis by simp
  qed
  have l: "nat (int ptr + (int (length data) - int ptr) - 1) = ?l" "?l = length (pre @ ?w)"
    using p(3) pre w assms(1) by (simp_all add: nat_diff_distrib)
  define buf' len' where "buf' = (if ?c = 0x0A then pre @ ?w @ [0x0D, 0x0A] else buf)"
    and "len' = int (length data) - int ptr + (if ?c = 0x0A then 1 else 0)"
  have cr: "crlf (drop ptr data) = ?w @ (if ?c = 0x0A then [0x0D, 0x0A] else [?c])" unfolding d using crlf_same [OF p(5)] by simp
  have len: "len' = int (length (crlf (drop ptr data)))" using p(3) unfolding cr by (auto simp: len'_def)
  have seg: "take (nat len') (drop ptr buf') = crlf (drop ptr data)"
    unfolding len nat_int buf'_def b cr using pre by simp
  obtain st2 where st2: "send (crlf (drop ptr data)) st1 = Inr (int (length (crlf (drop ptr data))), st2)" "able 0 st2"
    "seen st2 = seen st1 @ crlf (drop ptr data)"
    using send_all [OF p(6), of "crlf (drop ptr data)"] by auto
  have io: "rd buf ?l = Inr ?c" "wr buf ?l 0x0D = Inr (pre @ ?w @ [0x0D, z])"
    "wr (pre @ ?w @ [0x0D, z]) (?l + 1) 0x0A = Inr (pre @ ?w @ [0x0D, 0x0A])"
    unfolding l(2) by (simp_all add: b nth_append list_update_append)
  have g: "(0 \<le> int ptr + (int (length data) - int ptr) - 1) = True" using p(3) by (simp only: simp_thms)
  have nl: "byte CHR 0x0A = 0x0A" "byte CHR 0x0D = 0x0D" by simp_all
  have "console_print send no_notify data st =
      bindR (send (take (nat len') (drop ptr buf')) st1) (\<lambda>(sent, st). guardR (no_notify \<or> sent = len') Assert_failed (Inr st))"
  proof (cases "?c = 0x0A")
    case True
    show ?thesis
      unfolding console_print_def p(1) bindR_simps prod.case Let_def l(1) io(1) g guardR_simps nl if_P [OF True] io(2,3)
        buf'_def len'_def ..
  next
    case False
    show ?thesis
      unfolding console_print_def p(1) bindR_simps prod.case Let_def l(1) io(1) g guardR_simps nl if_not_P [OF False]
        buf'_def len'_def add_0_right ..
  qed
  then have "console_print send no_notify data st = Inr st2" unfolding seg st2(1) by (simp add: len)
  then show ?thesis using st2 p(7) by auto
qed

end

definition ring_able :: "ring_mask \<Rightarrow> nat \<Rightarrow> nat list \<times> xcons \<Rightarrow> bool" where
  "ring_able midx n st \<longleftrightarrow> xcons_ok midx (snd st) \<and> (\<forall>k \<in> set (fst st). 0 < k) \<and> n \<le> length (fst st) \<and> n < 2 ^ 31"

interpretation ring_sender: sender "xencons_ring_send midx" "ring_able midx" "\<lambda>st. flow midx (snd st)" for midx
proof
  fix n :: nat and st :: "nat list \<times> xcons" and data :: "u8 list"
  assume a: "ring_able midx n st" "length data \<le> n"
  obtain ks x where st: "st = (ks, x)" by (cases st)
  have ok: "xcons_ok midx x" "\<forall>k \<in> set ks. 0 < k" "length data \<le> length ks" "(0::int) + int (length data) < 2 ^ 31"
    using a by (auto simp: ring_able_def st)
  obtain ks' x' where r: "ring_send_loop midx ks data 0 x = Inr (int (length data), ks', x')" "xcons_ok midx x'"
    "flow midx x' = flow midx x @ data" "set ks' \<subseteq> set ks" "length ks \<le> length ks' + length data"
    using ring_send_loop_ok [OF ok(1-3) order_refl ok(4)] by auto
  show "\<exists>st'. xencons_ring_send midx data st = Inr (int (length data), st') \<and> ring_able midx (n - length data) st' \<and>
      flow midx (snd st') = flow midx (snd st) @ data"
    using r a ok by (auto simp: xencons_ring_send_def st ring_able_def)
qed

section \<open>Without a console channel\<close>

lemma ring_send_none:
  "ring x = None \<Longrightarrow> data \<noteq> [] \<Longrightarrow> ring_send_loop midx ks data 0 x = Inl Out_of_fuel"
proof (induction ks arbitrary: x)
  case Nil
  then show ?case by (simp add: ring_send_loop.simps)
next
  case (Cons k ks)
  then show ?case
    by (subst ring_send_loop.simps) (simp add: daemon_takes_def xencons_ring_send_no_notify_def notify_daemon_def)
qed

lemma print_loop_stuck:
  assumes "\<And>d. d \<noteq> [] \<Longrightarrow> send d st = Inl e"
    and "length buf = Suc n" "int ptr + len = int n" "ptr \<le> cur" "cur < n"
  shows "print_loop send buf ptr len cur st = Inl e \<or> print_loop send buf ptr len cur st = Inr (buf, ptr, len, st)"
  using assms(2-5)
proof (induction "n - cur" arbitrary: cur)
  case (Suc j)
  show ?case
  proof (cases "Suc cur < n")
    case True
    have "take (cur - ptr + 2) (drop ptr (buf[cur := 0x0D, Suc cur := 0x0A])) \<noteq> []" using Suc.prems True by simp
    note send = assms(1) [OF this]
    have ih: "print_loop send buf ptr len (Suc cur) st = Inl e \<or> print_loop send buf ptr len (Suc cur) st = Inr (buf, ptr, len, st)"
      using Suc.hyps(1) [of "Suc cur"] Suc.hyps(2) Suc.prems True by simp
    have lt: "int cur < int ptr + len - 1" using True Suc.prems(2) by simp
    show ?thesis
    proof (cases "buf ! cur = 0x0A")
      case nl: True
      then have "print_loop send buf ptr len cur st = Inl e"
        using lt Suc.prems True send by (subst print_loop.simps) (simp add: Let_def)
      then show ?thesis by simp
    next
      case nl: False
      then have "print_loop send buf ptr len cur st = print_loop send buf ptr len (Suc cur) st"
        using lt Suc.prems True by (subst print_loop.simps) simp
      then show ?thesis using ih by simp
    qed
  next
    case False
    then show ?thesis using Suc.prems by (subst print_loop.simps) simp
  qed
qed simp

lemma console_print_stuck:
  assumes send: "\<And>d. d \<noteq> [] \<Longrightarrow> send d st = Inl e" and "data \<noteq> []"
  shows "console_print send no_notify data st = Inl e"
proof -
  have "print_loop send (data @ [0]) 0 (int (length data)) 0 st = Inl e \<or>
      print_loop send (data @ [0]) 0 (int (length data)) 0 st = Inr (data @ [0], 0, int (length data), st)"
    using assms(2) by (intro print_loop_stuck [where n = "length data"] send) auto
  then show ?thesis
  proof
    assume p: "print_loop send (data @ [0]) 0 (int (length data)) 0 st = Inr (data @ [0], 0, int (length data), st)"
    have l: "0 \<le> int 0 + int (length data) - 1" "nat (int 0 + int (length data) - 1) = length data - 1" "length data - 1 < length (data @ [0])"
      "length data - 1 + 1 < length (data @ [0])"
      using assms(2) by (auto simp: Suc_le_eq)
    show ?thesis
      unfolding console_print_def p bindR_simps prod.case Let_def l(2)
      using l assms(2) by (auto simp: send)
  qed (simp add: console_print_def)
qed

text \<open>
  C20. Console output on Xen: with a console channel and a daemon that takes at least a byte in each
  round, printing ends, and what the daemon has taken followed by what is in the ring grows by
  exactly the text, with a carriage return before each line feed, whatever the values of the
  wrapping indices. Without a channel printing never ends once the console counts as initialised.
\<close>

theorem console_print_fifo:
  assumes "ring x = None \<or> xcons_ok midx x" "console_initialised x" "data \<noteq> []"
    and "\<forall>k \<in> set ks. 0 < k" "length (crlf data) \<le> length ks" "length (crlf data) < 2 ^ 31"
  shows "if ring x = None then minios_console_print midx data (ks, x) = Inl Out_of_fuel
    else \<exists>ks' x'. minios_console_print midx data (ks, x) = Inr (ks', x') \<and>
      taken x' @ out_contents midx x' = taken x @ out_contents midx x @ crlf data"
proof (cases "ring x = None")
  case True
  then have "xencons_ring_send midx d (ks, x) = Inl Out_of_fuel" if "d \<noteq> []" for d
    using that by (simp add: xencons_ring_send_def ring_send_none)
  from console_print_stuck [of "xencons_ring_send midx", OF this assms(3)] True assms(2) show ?thesis
    by (simp add: minios_console_print_def)
next
  case False
  from assms(1) have "xcons_ok midx x"
  proof
    assume "ring x = None"
    then show ?thesis using False by (rule notE [rotated])
  qed
  then have "ring_able midx (length (crlf data)) (ks, x)" using assms by (simp add: ring_able_def)
  from ring_sender.console_print_ok [OF assms(3) this, of False] obtain ks' x' where
    "console_print (xencons_ring_send midx) False data (ks, x) = Inr (ks', x')" "flow midx x' = flow midx x @ crlf data"
    by auto
  then show ?thesis using False assms(2) by (auto simp: minios_console_print_def flow_def)
qed

text \<open>A ring of four bytes with indices about to wrap around, of which two are free; a line is printed.\<close>

definition ex_mask :: ring_mask where
  "ex_mask i n = unat i mod n"

definition ex_ring :: xencons_interface where
  "ex_ring = \<lparr>xc_in = [0x68, 0x69, 0, 0], xc_out = [0, 0, 0x61, 0x62], in_cons = 0, in_prod = 2,
     out_cons = - 2, out_prod = 0\<rparr>"

definition ex_console :: xcons where
  "ex_console = \<lparr>ring = Some ex_ring, console_initialised = True, notified = 0, taken = []\<rparr>"

lemma ex_mask_ok: "ring_ok ex_mask (length (xc_out ex_ring))" "ring_ok ex_mask (length (xc_in ex_ring))"
proof -
  have "ring_ok ex_mask 4" by (simp add: ring_ok_def ex_mask_def)
  moreover have "length (xc_out ex_ring) = 4" "length (xc_in ex_ring) = 4" by (simp_all add: ex_ring_def)
  ultimately show "ring_ok ex_mask (length (xc_out ex_ring))" "ring_ok ex_mask (length (xc_in ex_ring))" by (simp_all only:)
qed

lemma ex_console_ok: "xcons_ok ex_mask ex_console"
  using ex_mask_ok(1) by (simp add: xcons_ok_def ex_console_def) (simp add: ex_ring_def)

theorem console_print_fifo_witness:
  "\<exists>ks' x'. minios_console_print ex_mask [0x6F, 0x6B, 0x0A] ([1, 2, 1, 1], ex_console) = Inr (ks', x') \<and>
     taken x' @ out_contents ex_mask x' = [0x61, 0x62, 0x6F, 0x6B, 0x0D, 0x0A]"
proof -
  have c: "out_contents ex_mask ex_console = [0x61, 0x62]"
  proof -
    have "[0..<2] = [0, 1 :: nat]" by (simp add: upt_rec)
    moreover have "unat (- 1 :: u32) = 4294967295" by (simp add: unsigned_minus_1_eq_mask mask_eq_exp_minus_1)
    then have "unat (- 1 :: u32) mod 4 = 3" by simp
    ultimately show ?thesis by (simp add: out_contents_def ex_console_def ex_ring_def contents_def ex_mask_def)
  qed
  have h: "ring ex_console = None \<or> xcons_ok ex_mask ex_console" "console_initialised ex_console" "[0x6F, 0x6B, 0x0A :: u8] \<noteq> []"
    "\<forall>k \<in> set [1, 2, 1, 1 :: nat]. 0 < k" "length (crlf [0x6F, 0x6B, 0x0A]) \<le> length [1, 2, 1, 1 :: nat]"
    "length (crlf [0x6F, 0x6B, 0x0A]) < 2 ^ 31" "ring ex_console \<noteq> None" "taken ex_console = []"
    using ex_console_ok by (simp_all add: ex_console_def)
  show ?thesis using console_print_fifo [OF h(1-6)] h(7,8) c by simp
qed

section \<open>Input\<close>







end
