(* ===== verification/Spec2Isabelle.thy ===== *)
theory Spec2Isabelle
  imports ClockSubr
    StrtoulCorrect
    JsmnCorrect
    Parseargs
    SchedIface
    SynchIface
    IntrCorrect
    LwpCorrect
    RumpuserCorrect
    GnttabCorrect
    XenconsCorrect
begin

text \<open>
  \<^bold>\<open>Rumprun: a verified core of the unikernel.\<close>

  Rumprun runs a program on a rump kernel without an operating system. The bare-metal kernel
  (\<open>lib/libbmk_core\<close>) gives it memory, threads and output; the hypercalls
  (\<open>lib/libbmk_rumpuser\<close>) give the rump kernel what it needs in terms of those; the base library
  (\<open>lib/librumprun_base\<close>) gives the program its processes, memory and arguments; a platform
  (\<open>platform/hw\<close>, \<open>platform/xen\<close>, \<open>platform/sel4\<close>) boots it all and delivers interrupts. All
  paths here are relative to \<open>src/\<close>. The models are those of the 64-bit x86 build.

  \<^bold>\<open>Conventions.\<close> A routine that can fail returns \<open>'a res\<close>: \<open>Inl\<close> a fault (a failed assertion, a
  halt, an access out of bounds or through a null pointer, a signed overflow, a shift or division
  that is undefined) or \<open>Inr\<close> its result, so that a statement that a call is \<open>Inr\<close> says that none
  of these happens on any path of it. Addresses, sizes and unsigned long are naturals reduced
  modulo \<open>2 ^ 64\<close> where the code can wrap around; signed integers are integers with \<open>chk32\<close> and
  \<open>chk64\<close> where the code can overflow; flags are words of their width. State is a record of the
  file's static variables, passed along. The lists of \<open>queue.h\<close> are Isabelle lists, and the links
  inside of the elements are not modelled; the invariants say which list an element is on when
  it is removed. \<open>BmkPrelude\<close> holds this vocabulary with the generic lemmas.

  \<^bold>\<open>Page allocator\<close>, \<open>lib/libbmk_core/pgalloc.c\<close>. \<open>Pgalloc\<close> has the bitmap, the free lists by order
  and each routine of the file. \<open>PgallocBitmap\<close>, \<open>PgallocInv\<close> and \<open>PgallocCoalesce\<close> build the
  invariant \<open>pg_inv\<close>: bitmap, lists and chunk headers agree, chunks are disjoint and aligned, and
  no two free buddies are left unmerged. \<open>PgallocCorrect\<close> and \<open>PgallocIface\<close> show that loading
  memory establishes it, that allocation fails only when no aligned block is free, that freeing
  restores exactly the block, and what every client run can rely on. The locale \<open>page_allocator\<close>
  is the interface to the clients, interpreted on the model.

  \<^bold>\<open>General-purpose allocator\<close>, \<open>lib/libbmk_core/memalloc.c\<close>. \<open>Memalloc\<close> keeps the block headers
  as bytes in memory. \<open>MemallocInv\<close> describes the blocks as a multiset over memory taken from the
  page allocator; \<open>MemallocCorrect\<close> and \<open>MemallocIface\<close> show that allocations are aligned, large
  enough and disjoint, survive all that others do, and are freed and reallocated without loss.
  \<open>UserMalloc\<close> (\<open>lib/librumprun_base/malloc.c\<close>) and the memory part of \<open>Rumpuser\<close> sit on top.

  \<^bold>\<open>Scheduler\<close>, \<open>lib/libbmk_core/sched.c\<close> with \<open>arch/x86/cpu_sched.c\<close> and \<open>init.c\<close>. In \<open>Sched\<close> a
  thread that is switched out has a continuation of type \<open>kont\<close>, which names the call of
  \<open>schedule()\<close> it is in, and a switch resumes that of the next thread. The clock readings and the
  wake-ups by interrupts of the idle loop are the list \<open>rounds\<close>; with an empty list the loop ends
  with \<open>Out_of_fuel\<close>, and \<open>SchedPick\<close> shows which lists are long enough. Expiring timeouts takes as
  many steps as the queue is long. \<open>SchedInv\<close>, \<open>SchedOps\<close>, \<open>SchedCorrect\<close> and \<open>SchedCreate\<close> relate
  flags, queues, deadlines and the heap; \<open>SchedIface\<close> states the results for every interleaving of
  calls: no call faults, queues and flags agree, joins and exits meet, runnable threads run in
  turn. \<open>SchedExample\<close> is a concrete system for the examples.

  \<^bold>\<open>Synchronisation hypercalls\<close>, \<open>lib/libbmk_rumpuser/rumpuser_synch.c\<close>. \<open>Synch\<close> cuts each hypercall at
  the points where other threads run: a thread inside of one has a stack of what is left to do
  (\<open>wkont\<close>), and \<open>hypercall\<close> and \<open>resume\<close> run one stretch. Locks and condition variables are maps
  by address, the calls into the rump kernel are logged. \<open>SynchCorrect\<close> has the invariant under
  every interleaving, \<open>SynchLock\<close> the refinement of a mutex to an abstract lock with a queue,
  \<open>SynchIface\<close> the properties, among them a state in which the reader-writer lock has two writers.

  \<^bold>\<open>Other hypercalls\<close>, \<open>rumpuser_base.c\<close>, \<open>rumpuser_clock.c\<close>, \<open>rumpuser_mem.c\<close>, \<open>rumpuser_cons.c\<close>.
  \<open>Rumpuser\<close> has the routines, \<open>RumpuserCorrect\<close> shows that memory of either kind is aligned, large
  enough, new, and released to the allocator it came from.

  \<^bold>\<open>Interrupts\<close>, \<open>platform/hw/intr.c\<close> with \<open>arch/x86/cpu_subr.c\<close>. \<open>Intr\<close> has registration, the
  interrupt routine and the interrupt thread with its position in the loop (\<open>doisr_at\<close>). Raising
  the interrupt level around a stretch means that the stretch is one step. \<open>IntrCorrect\<close> shows
  that no interrupt is lost in any order of events.

  \<^bold>\<open>Xen grant table\<close>, \<open>platform/xen/xen/gnttab.c\<close>. \<open>Gnttab\<close> has the free list that is kept inside of an
  array, and the ends of grants against flags that another domain changes; what it finds there is
  an input list. \<open>GnttabCorrect\<close> shows that a reference has one holder at a time and that a request
  waits only when all are held. Flag bits and field widths of Xen's header are arguments.

  \<^bold>\<open>Xen console\<close>, \<open>platform/xen/xen/console/xencons_ring.c\<close> and the printing and echo of \<open>console.c\<close>.
  In \<open>Xencons\<close> the daemon at the other end takes bytes as an input list of numbers says; the list
  bounds the rounds of the sending loop, and one that is as long as the text is enough.
  \<open>XenconsCorrect\<close> shows that output arrives complete and in order across the wrapping of the
  indices, and what becomes of input. The locale \<open>sender\<close> is what printing needs of the ring.

  \<^bold>\<open>Lightweight processes\<close>, \<open>lib/librumprun_base/_lwp.c\<close>: \<open>Lwp\<close>, and \<open>LwpCorrect\<close> on the registry.

  \<^bold>\<open>Text.\<close> \<open>BmkString\<close> (\<open>bmk_string.c\<close>), \<open>Prf\<close> with \<open>PrfCorrect\<close> and \<open>PrfBuffer\<close> (\<open>subr_prf.c\<close>),
  \<open>Strtoul\<close> with \<open>StrtoulCorrect\<close> (\<open>strtoul.c\<close>), \<open>Jsmn\<close> with \<open>JsmnCorrect\<close> (\<open>jsmn.c\<close>) and \<open>Parseargs\<close>
  (\<open>parseargs.c\<close>) work on byte memory \<open>mem\<close>, with a fault for each access outside of it. They show
  bounds, the round trip of printing and parsing a number, what tokens delimit and that the
  counting pass predicts their number, and that splitting a command line inverts quoting it. The
  loops of the tokeniser have the length of the text plus one as fuel, which never runs out.
  The locale \<open>pass\<close> in \<open>Parseargs\<close> is what the two passes of the splitter share.

  \<^bold>\<open>Calendar\<close>, \<open>platform/hw/clock_subr.c\<close>: \<open>ClockSubr\<close>, against the Gregorian calendar.

  \<^bold>\<open>Not modelled.\<close> Assembly, page tables, port and memory-mapped input and output, hypervisor and
  seL4 calls have no meaning at this level: the boot code, consoles and timers of the platforms,
  the device front ends of Xen, the seL4 services and the PCI glue consist mostly of them. The
  program loader and its configuration (\<open>rumprun.c\<close>, \<open>config.c\<close>, \<open>main.c\<close>) and the system call proxy
  (\<open>sysproxy.c\<close>) call the rump kernel, the C library and a network peer, which are not part of the
  repository, in almost every line. Of the modelled files, the self-tests that no build enables,
  the pointer that \<open>kprintf\<close> stores back for its caller, and the empty locking functions of the
  printer are left out. A shift of one into the sign bit, as in \<open>1 << 31\<close>, is taken to set that bit.
\<close>

end
